(* ===== verification/Prelude.thy ===== *)
theory Prelude
  imports Main "HOL-Library.Word" "HOL-Library.Monad_Syntax"
begin

text \<open>
  What the component theories share: names for the machine integers of the C++ code, the
  range of a C++ \<open>int\<close>, the bytes the allocator hands out, and the generic lemmas on
  lists, options and words the component proofs rest on.

  Conventions. A C++ \<open>int\<close> that takes part in pointer arithmetic or that the code compares
  with a signed comparison is an \<open>int\<close> whose range is checked where the code does arithmetic
  on it. Every other integer is a word of the width of its C++ type. A value of type
  \<open>'a option\<close> is the result of running a piece of code: \<open>None\<close> says that the run aborts
  (a failed \<open>assert\<close>) or reaches behaviour that C++ leaves undefined (an access outside a
  buffer, a null dereference, an overflow of a signed integer).
\<close>

unbundle bit_operations_syntax

type_synonym u8 = "8 word"
type_synonym u16 = "16 word"
type_synonym u32 = "32 word"
type_synonym u64 = "64 word"

section \<open>Machine integers\<close>

definition int_max :: int where
  "int_max = 2147483647"

definition fits_int :: "int \<Rightarrow> bool" where
  "fits_int n \<longleftrightarrow> - int_max - 1 \<le> n \<and> n \<le> int_max"

lemma fits_intI: "0 \<le> n \<Longrightarrow> n < 2 ^ 31 \<Longrightarrow> fits_int n"
  by (simp add: fits_int_def int_max_def)

lemma sint_word_of_int_fits: "fits_int n \<Longrightarrow> sint (word_of_int n :: u32) = n"
  by (simp add: fits_int_def int_max_def sint_sbintrunc' signed_take_bit_int_eq_self)

lemma uint_word_of_int_small: "0 \<le> n \<Longrightarrow> n < 2 ^ 32 \<Longrightarrow> uint (word_of_int n :: u32) = n"
  by (simp add: uint_word_of_int take_bit_int_eq_self)

lemma unat_word_of_nat_lt: "n < 2 ^ LENGTH('a) \<Longrightarrow> unat (word_of_nat n :: 'a::len word) = n"
  by (simp add: unat_of_nat take_bit_nat_eq_self)

section \<open>Memory\<close>

text \<open>
  Fresh memory has arbitrary contents: the byte at offset \<open>i\<close> of a block is \<open>g i\<close>, for a
  function \<open>g\<close> the theorems quantify over.
\<close>

definition malloc_bytes :: "(nat \<Rightarrow> u8) \<Rightarrow> nat \<Rightarrow> u8 list" where
  "malloc_bytes g n = map g [0..<n]"

definition realloc_bytes :: "(nat \<Rightarrow> u8) \<Rightarrow> u8 list \<Rightarrow> nat \<Rightarrow> u8 list" where
  "realloc_bytes g b n = take n b @ map g [length b..<n]"

lemma length_malloc_bytes [simp]: "length (malloc_bytes g n) = n"
  by (simp add: malloc_bytes_def)

lemma length_realloc_bytes [simp]: "length (realloc_bytes g b n) = n"
  by (simp add: realloc_bytes_def)

lemma take_realloc_bytes: "k \<le> length b \<Longrightarrow> k \<le> n \<Longrightarrow> take k (realloc_bytes g b n) = take k b"
  by (simp add: realloc_bytes_def min_def)

section \<open>Lists\<close>

lemma take_Suc_update: "i < length b \<Longrightarrow> take (Suc i) (b[i := x]) = take i b @ [x]"
  by (simp add: take_Suc_conv_app_nth)

text \<open>Overwriting a block of a buffer, as \<open>memcpy\<close> does.\<close>

definition overwrite :: "'a list \<Rightarrow> nat \<Rightarrow> 'a list \<Rightarrow> 'a list" where
  "overwrite b i p = take i b @ p @ drop (i + length p) b"

lemma length_overwrite [simp]: "i + length p \<le> length b \<Longrightarrow> length (overwrite b i p) = length b"
  by (simp add: overwrite_def)

lemma take_overwrite:
  "i + length p \<le> length b \<Longrightarrow> take (i + length p) (overwrite b i p) = take i b @ p"
  by (cases p) (simp_all add: overwrite_def min_def)

lemma drop_overwrite_beyond:
  "i + length p \<le> n \<Longrightarrow> n \<le> length b \<Longrightarrow> drop n (overwrite b i p) = drop n b"
  by (simp add: overwrite_def)

lemma overwrite_Nil [simp]: "overwrite b i [] = b"
  by (simp add: overwrite_def)

lemma overwrite_step:
  assumes "i < length b"
  shows "overwrite (b[i := x]) (Suc i) p = overwrite b i (x # p)"
  using assms by (simp add: overwrite_def take_Suc_conv_app_nth drop_update_cancel)

lemma overwrite_overwrite:
  "i + length p + length q \<le> length b \<Longrightarrow>
   overwrite (overwrite b i p) (i + length p) q = overwrite b i (p @ q)"
  by (cases p) (simp_all add: overwrite_def min_def ac_simps)

lemma take_overwrite_beyond:
  assumes "i + length p \<le> n" "n \<le> length b"
  shows "take n (overwrite b i p) = overwrite (take n b) i p"
proof -
  obtain k where "n = i + length p + k"
    using assms(1) le_Suc_ex by blast
  with assms(2) show ?thesis
    by (cases p) (simp_all add: overwrite_def min_def drop_take take_add)
qed

lemma drop_ConsD: "drop n xs = y # ys \<Longrightarrow> n < length xs \<and> xs ! n = y"
  by (metis drop_all list.distinct(1) not_le nth_via_drop)

section \<open>Bytes of a word\<close>

lemma mask_255: "(255 :: 'a::len word) = mask 8"
  by (simp add: mask_eq_exp_minus_1)

lemma low_byte [simp]: "ucast ((x :: 'a::len word) AND 255) = (ucast x :: u8)"
  by (rule bit_word_eqI) (auto simp: mask_255 bit_simps dest: bit_imp_le_length)

lemma sign_extended_byte [simp]: "(scast (c :: u8) :: u32) AND 255 = ucast c"
proof (rule bit_word_eqI)
  fix n :: nat
  consider "n < 7" | "n = 7" | "8 \<le> n"
    by fastforce
  then show "bit ((scast c :: u32) AND 255) n \<longleftrightarrow> bit (ucast c :: u32) n"
    by cases (auto simp: mask_255 bit_simps dest: bit_imp_le_length)
qed

text \<open>Reassembling a word from its bytes, as the readers of the wire format do.\<close>

lemma u16_from_bytes:
  "push_bit 8 (ucast (ucast (drop_bit 8 x) :: u8)) OR ucast (ucast x :: u8) = (x :: u16)"
  by (rule bit_word_eqI) (auto simp: bit_simps)

lemma u32_from_bytes:
  fixes x :: u32
  shows "push_bit 24 (ucast (ucast (drop_bit 24 x) :: u8)) OR
   push_bit 16 (ucast (ucast (drop_bit 16 x) :: u8)) OR
   push_bit 8 (ucast (ucast (drop_bit 8 x) :: u8)) OR ucast (ucast x :: u8) = x"
proof (rule bit_word_eqI)
  fix n
  assume "n < LENGTH(32)"
  then consider "n < 8" | "8 \<le> n" "n < 16" | "16 \<le> n" "n < 24" | "24 \<le> n" "n < 32"
    by fastforce
  then show "bit ((push_bit 24 (ucast (ucast (drop_bit 24 x) :: u8)) :: u32) OR
      push_bit 16 (ucast (ucast (drop_bit 16 x) :: u8)) OR
      push_bit 8 (ucast (ucast (drop_bit 8 x) :: u8)) OR ucast (ucast x :: u8)) n
    \<longleftrightarrow> bit x n"
    by cases (auto simp: bit_simps)
qed

lemma u64_from_halves:
  "ucast (ucast x :: u32) OR push_bit 32 (ucast (ucast (drop_bit 32 x) :: u32)) = (x :: u64)"
  by (rule bit_word_eqI) (auto simp: bit_simps)

text \<open>What a reader makes of a single byte, and of the words it reassembles.\<close>

lemma ucast_scast_byte [simp]: "ucast (scast (c :: u8) :: u32) = c"
proof (rule bit_word_eqI)
  fix n
  assume "n < LENGTH(8)"
  then consider "n < 7" | "n = 7"
    by fastforce
  then show "bit (ucast (scast c :: u32) :: u8) n \<longleftrightarrow> bit c n"
    by cases (auto simp: bit_simps)
qed

lemma u16_from_read_bytes:
  "ucast (push_bit 8 (ucast (ucast (drop_bit 8 x) :: u8) :: u32)) OR
   ucast (ucast (ucast x :: u8) :: u32) = (x :: u16)"
  by (rule bit_word_eqI) (auto simp: bit_simps)

lemma find_SomeD: "find P l = Some x \<Longrightarrow> x \<in> set l \<and> P x"
  by (induction l) (auto split: if_splits)

lemma find_append:
  "find P (xs @ ys) = (case find P xs of None \<Rightarrow> find P ys | Some x \<Rightarrow> Some x)"
  by (induction xs) auto

end
