(* ===== verification/Timespec.thy ===== *)
theory Timespec
  imports Prelude "HOL-Library.Signed_Division"
begin

text \<open>
  The time arithmetic at the end of \<open>rpc/rpc.cc\<close>, with which \<open>rpcc::call1\<close> computes its
  deadlines. The fields of a \<open>timespec\<close> are 64 bits wide and far from their limits, so they are
  integers here; the division of C rounds towards zero, which is \<open>sdiv\<close>.
\<close>

section \<open>Operations\<close>

datatype timespec = Timespec (tv_sec: int) (tv_nsec: int)

definition cmp_timespec :: "timespec \<Rightarrow> timespec \<Rightarrow> int" where
  "cmp_timespec a b =
     (if tv_sec a > tv_sec b then 1
      else if tv_sec a < tv_sec b then -1
      else if tv_nsec a > tv_nsec b then 1
      else if tv_nsec a < tv_nsec b then -1
      else 0)"

text \<open>The loop that carries nanoseconds over to seconds.\<close>

function carry_nsec :: "int \<Rightarrow> int \<Rightarrow> timespec" where
  "carry_nsec s n = (if n > 1000000000 then carry_nsec (s + 1) (n - 1000000000) else Timespec s n)"
  by pat_completeness auto
termination
  by (relation "measure (\<lambda>(s, n). nat n)") auto

declare carry_nsec.simps [simp del]

text \<open>The timeout \<open>b\<close> is in milliseconds; the assertion fails for a negative number of nanoseconds.\<close>

definition add_timespec :: "timespec \<Rightarrow> int \<Rightarrow> timespec option" where
  "add_timespec a b =
     (let sec = tv_sec a + b sdiv 1000;
          nsec = tv_nsec a + (b smod 1000) * 1000000
      in if nsec \<ge> 0 then Some (carry_nsec sec nsec) else None)"

definition diff_timespec :: "timespec \<Rightarrow> timespec \<Rightarrow> int option" where
  "diff_timespec end start =
     (let diff = (if tv_sec end > tv_sec start then (tv_sec end - tv_sec start) * 1000 else 0)
      in if diff \<noteq> 0 \<or> tv_sec end = tv_sec start
         then Some (if tv_nsec end > tv_nsec start
                    then diff + (tv_nsec end - tv_nsec start) sdiv 1000000
                    else diff - (tv_nsec start - tv_nsec end) sdiv 1000000)
         else None)"

section \<open>The order of points in time\<close>

text \<open>A point in time in nanoseconds, and the times the system clock gives.\<close>

definition nanos :: "timespec \<Rightarrow> int" where
  "nanos t = tv_sec t * 1000000000 + tv_nsec t"

definition normal :: "timespec \<Rightarrow> bool" where
  "normal t \<longleftrightarrow> 0 \<le> tv_nsec t \<and> tv_nsec t < 1000000000"

instantiation timespec :: linorder
begin

definition less_eq_timespec :: "timespec \<Rightarrow> timespec \<Rightarrow> bool" where
  "less_eq_timespec a b \<longleftrightarrow> cmp_timespec a b \<le> 0"

definition less_timespec :: "timespec \<Rightarrow> timespec \<Rightarrow> bool" where
  "less_timespec a b \<longleftrightarrow> cmp_timespec a b < 0"

instance
proof
  fix a b c :: timespec
  show "a < b \<longleftrightarrow> a \<le> b \<and> \<not> b \<le> a" "a \<le> a" "a \<le> b \<or> b \<le> a"
    by (auto simp: less_eq_timespec_def less_timespec_def cmp_timespec_def)
  show "a \<le> c" if "a \<le> b" "b \<le> c"
    using that by (auto simp: less_eq_timespec_def cmp_timespec_def split: if_splits)
  show "a = b" if "a \<le> b" "b \<le> a"
    using that by (cases a; cases b) (auto simp: less_eq_timespec_def cmp_timespec_def split: if_splits)
qed

end

lemma cmp_timespec_nanos:
  assumes "normal a" "normal b"
  shows "cmp_timespec a b = sgn (nanos a - nanos b)"
  using assms by (auto simp: cmp_timespec_def nanos_def normal_def sgn_if)

lemma carry_nsec_spec:
  "0 \<le> n \<Longrightarrow> nanos (carry_nsec s n) = s * 1000000000 + n \<and>
     0 \<le> tv_nsec (carry_nsec s n) \<and> tv_nsec (carry_nsec s n) \<le> 1000000000 \<and>
     (tv_nsec (carry_nsec s n) = 1000000000 \<longleftrightarrow> 0 < n \<and> n mod 1000000000 = 0)"
proof (induction s n rule: carry_nsec.induct)
  case (1 s n)
  show ?case
  proof (cases "n > 1000000000")
    case True
    moreover have "(n - 1000000000) mod 1000000000 = n mod 1000000000"
      by (simp add: mod_diff_eq [symmetric, of n])
    ultimately show ?thesis
      using 1 by (simp add: carry_nsec.simps [of s n])
  next
    case False
    then have "n mod 1000000000 = 0 \<longleftrightarrow> n = 0 \<or> n = 1000000000"
      using 1(2) by (auto simp: dvd_def mod_eq_0_iff_dvd)
    with False 1(2) show ?thesis
      by (auto simp: carry_nsec.simps [of s n] nanos_def)
  qed
qed

lemma sdiv_int_alt_pos: "0 \<le> k \<Longrightarrow> 0 < l \<Longrightarrow> (k :: int) sdiv l = k div l"
  by (cases "k = 0") (simp_all add: signed_divide_int_def)

lemma smod_int_alt_pos: "0 \<le> k \<Longrightarrow> 0 < l \<Longrightarrow> (k :: int) smod l = k mod l"
  by (cases "k = 0") (simp_all add: signed_modulo_int_def)

lemma nanos_carry:
  assumes "0 \<le> n + m * 1000000" "q * 1000 + m = b"
  shows "nanos (carry_nsec (s + q) (n + m * 1000000)) = s * 1000000000 + n + b * 1000000"
  using carry_nsec_spec [OF assms(1), of "s + q"] assms(2) by auto

lemma add_timespec_eq:
  assumes "normal a" "0 \<le> b"
  shows "add_timespec a b = Some (carry_nsec (tv_sec a + b div 1000) (tv_nsec a + b mod 1000 * 1000000))"
  using assms by (simp add: add_timespec_def normal_def sdiv_int_alt_pos smod_int_alt_pos)

lemma add_timespec_spec:
  assumes "normal a" "0 \<le> b" "add_timespec a b = Some r"
  shows "nanos r = nanos a + b * 1000000" "0 \<le> tv_nsec r" "tv_nsec r \<le> 1000000000"
    "tv_nsec r = 1000000000 \<longleftrightarrow> 0 < tv_nsec a + b mod 1000 * 1000000 \<and>
       (tv_nsec a + b mod 1000 * 1000000) mod 1000000000 = 0"
proof -
  have n: "0 \<le> tv_nsec a + b mod 1000 * 1000000"
    using assms(1) by (simp add: normal_def)
  have r: "r = carry_nsec (tv_sec a + b div 1000) (tv_nsec a + b mod 1000 * 1000000)"
    using add_timespec_eq [OF assms(1,2)] assms(3) by simp
  show "nanos r = nanos a + b * 1000000"
    unfolding r nanos_def [of a] by (rule nanos_carry [OF n]) simp
  show "0 \<le> tv_nsec r" "tv_nsec r \<le> 1000000000"
    "tv_nsec r = 1000000000 \<longleftrightarrow> 0 < tv_nsec a + b mod 1000 * 1000000 \<and>
       (tv_nsec a + b mod 1000 * 1000000) mod 1000000000 = 0"
    using carry_nsec_spec [OF n, of "tv_sec a + b div 1000"] unfolding r by simp_all
qed

section \<open>Properties\<close>

text \<open>
  A deadline is exactly the timeout after the time it is computed from, to the nanosecond;
  its nanoseconds are in range, except that a sum that is a whole number of seconds keeps
  \<open>10 ^ 9\<close> nanoseconds instead of carrying them over.
\<close>

theorem deadline_exact:
  assumes "normal now" "0 \<le> b"
  shows "\<exists>r. add_timespec now b = Some r \<and> nanos r = nanos now + b * 1000000 \<and>
    0 \<le> tv_nsec r \<and> tv_nsec r \<le> 1000000000 \<and>
    (tv_nsec r = 1000000000 \<longleftrightarrow> tv_nsec now + b mod 1000 * 1000000 = 1000000000)"
proof -
  have "0 \<le> tv_nsec now + b mod 1000 * 1000000" "tv_nsec now + b mod 1000 * 1000000 < 2000000000"
    using assms(1) pos_mod_bound [of 1000 b] pos_mod_sign [of 1000 b]
    unfolding normal_def by linarith+
  then have "0 < tv_nsec now + b mod 1000 * 1000000 \<and>
      (tv_nsec now + b mod 1000 * 1000000) mod 1000000000 = 0 \<longleftrightarrow>
      tv_nsec now + b mod 1000 * 1000000 = 1000000000"
    by (auto simp: mod_eq_0_iff_dvd dvd_def)
  then show ?thesis
    using add_timespec_eq [OF assms] add_timespec_spec [OF assms] by auto
qed

theorem deadline_exact_witness:
  "\<exists>r. add_timespec (Timespec 7 999000000) 120001 = Some r \<and>
    nanos r = nanos (Timespec 7 999000000) + 120001 * 1000000 \<and>
    0 \<le> tv_nsec r \<and> tv_nsec r \<le> 1000000000 \<and>
    (tv_nsec r = 1000000000 \<longleftrightarrow>
      tv_nsec (Timespec 7 999000000) + 120001 mod 1000 * 1000000 = 1000000000)"
  by (rule deadline_exact) (simp_all add: normal_def)

text \<open>
  Deadlines that are computed from the same time compare as their timeouts do, also when
  one of them has the nanoseconds that were not carried over.
\<close>

theorem deadlines_ordered:
  assumes "normal now" "0 \<le> b" "0 \<le> c"
    and "add_timespec now b = Some x" "add_timespec now c = Some y"
  shows "cmp_timespec x y = sgn (b - c)"
proof -
  note x = add_timespec_spec [OF assms(1,2,4)] and y = add_timespec_spec [OF assms(1,3,5)]
  have diff: "nanos x - nanos y = (b - c) * 1000000"
    using x(1) y(1) by (simp add: algebra_simps)
  show ?thesis
  proof (cases "b = c")
    case True
    with assms(4,5) show ?thesis
      by (simp add: cmp_timespec_def)
  next
    case False
    with diff have "nanos x \<noteq> nanos y"
      by simp
    then have "cmp_timespec x y = sgn (nanos x - nanos y)"
      using x(2,3) y(2,3) by (auto simp: cmp_timespec_def nanos_def sgn_if)
    then show ?thesis
      unfolding diff sgn_mult by simp
  qed
qed

theorem deadlines_ordered_witness:
  "cmp_timespec (Timespec 7 1000000000) (Timespec 8 1000000) = sgn (1 - 2)"
  by (rule deadlines_ordered [of "Timespec 7 999000000"])
    (simp_all add: normal_def add_timespec_eq carry_nsec.simps)

text \<open>
  The carry is one short: a deadline that falls on a whole second is not a valid
  \<open>timespec\<close>, which \<open>pthread_cond_timedwait\<close> rejects without waiting. The loop of \<open>call1\<close> only
  leaves on \<open>ETIMEDOUT\<close>.
\<close>

theorem deadline_on_the_second_invalid:
  "normal (Timespec 7 999000000) \<and>
   add_timespec (Timespec 7 999000000) 1001 = Some (Timespec 8 1000000000) \<and>
   \<not> normal (Timespec 8 1000000000)"
  by (simp add: normal_def add_timespec_eq carry_nsec.simps)

text \<open>
  \<open>diff_timespec\<close> is the difference in milliseconds, off by less than one, when the end is
  not before the start.
\<close>

theorem diff_timespec_milliseconds:
  assumes "normal end" "normal start" "nanos start \<le> nanos end"
  shows "\<exists>d. diff_timespec end start = Some d \<and> \<bar>d * 1000000 - (nanos end - nanos start)\<bar> < 1000000"
proof -
  have sec: "tv_sec start \<le> tv_sec end"
    using assms by (simp add: nanos_def normal_def)
  have near: "0 \<le> n - n div 1000000 * 1000000" "n - n div 1000000 * 1000000 < 1000000" for n :: int
    by (simp_all add: minus_div_mult_eq_mod)
  let ?d = "(tv_sec end - tv_sec start) * 1000 +
    (if tv_nsec end > tv_nsec start then (tv_nsec end - tv_nsec start) div 1000000
     else - ((tv_nsec start - tv_nsec end) div 1000000))"
  have "diff_timespec end start = Some ?d"
    using sec by (auto simp: diff_timespec_def sdiv_int_alt_pos)
  moreover have "\<bar>?d * 1000000 - (nanos end - nanos start)\<bar> < 1000000"
    using near [of "tv_nsec end - tv_nsec start"] near [of "tv_nsec start - tv_nsec end"]
    by (auto simp: nanos_def algebra_simps)
  ultimately show ?thesis
    by blast
qed

theorem diff_timespec_milliseconds_witness:
  "\<exists>d. diff_timespec (Timespec 9 100) (Timespec 7 999000000) = Some d \<and>
    \<bar>d * 1000000 - (nanos (Timespec 9 100) - nanos (Timespec 7 999000000))\<bar> < 1000000"
  by (rule diff_timespec_milliseconds) (simp_all add: normal_def nanos_def)

end
