(* ===== verification/Marshalling.thy ===== *)
theory Marshalling
  imports Prelude
begin

text \<open>
  The wire format: the classes \<open>marshall\<close> and \<open>unmarshall\<close> of \<open>rpc/marshall.h\<close> and their
  operations in \<open>rpc/rpc.cc\<close>. A \<open>marshall\<close> is a growing heap buffer with a write position,
  an \<open>unmarshall\<close> a fixed buffer with a read position and a sticky error flag. The
  predicates \<open>emits\<close> and \<open>reads\<close> say what a writer appends and what a reader consumes; they
  compose along \<open>Option.bind\<close>, which is how the operators \<open><<\<close> and \<open>>>\<close> compose in the code.
  The locale \<open>wire_codec\<close> is the contract of a matching pair of operators.
\<close>

section \<open>Sizes\<close>

definition sizeof_req_header :: int where "sizeof_req_header = 20"
definition sizeof_reply_header :: int where "sizeof_reply_header = 8"
definition sizeof_rpc_sz_t :: int where "sizeof_rpc_sz_t = 4"
definition DEFAULT_RPC_SZ :: int where "DEFAULT_RPC_SZ = 1024"

text \<open>The build does not define \<open>RPC_CHECKSUMMING\<close>, so there is no checksum field.\<close>

definition RPC_HEADER_SZ :: int where
  "RPC_HEADER_SZ = max sizeof_req_header sizeof_reply_header + sizeof_rpc_sz_t"

lemma RPC_HEADER_SZ_eq [simp]: "RPC_HEADER_SZ = 24"
  by (simp add: RPC_HEADER_SZ_def sizeof_req_header_def sizeof_reply_header_def
      sizeof_rpc_sz_t_def)

lemma sizeof_rpc_sz_t_eq [simp]: "sizeof_rpc_sz_t = 4"
  by (simp add: sizeof_rpc_sz_t_def)

lemma DEFAULT_RPC_SZ_eq [simp]: "DEFAULT_RPC_SZ = 1024"
  by (simp add: DEFAULT_RPC_SZ_def)

record req_header =
  rq_xid :: u32
  rq_proc :: u32
  rq_clt_nonce :: u32
  rq_srv_nonce :: u32
  rq_xid_rep :: u32

record reply_header =
  rp_xid :: u32
  rp_ret :: u32

section \<open>The writer\<close>

text \<open>\<open>m_junk\<close> is the contents of the memory the allocator hands out.\<close>

record marshall =
  m_buf :: "u8 list option"
  m_capa :: int
  m_ind :: int
  m_junk :: "nat \<Rightarrow> u8"

definition new_marshall :: "(nat \<Rightarrow> u8) \<Rightarrow> marshall" where
  "new_marshall g =
     \<lparr>m_buf = Some (malloc_bytes g (nat DEFAULT_RPC_SZ)), m_capa = DEFAULT_RPC_SZ,
      m_ind = RPC_HEADER_SZ, m_junk = g\<rparr>"

text \<open>
  The growth step of \<open>rawbyte\<close> and \<open>rawbytes\<close>: the new capacity is stored first, then the
  buffer is asserted to be there and reallocated. A capacity outside the range of \<open>int\<close> is
  an overflow.
\<close>

definition grow :: "int \<Rightarrow> marshall \<Rightarrow> marshall option" where
  "grow c m =
     (case m_buf m of
        None \<Rightarrow> None
      | Some b \<Rightarrow>
          if 0 < c \<and> fits_int c
          then Some (m\<lparr>m_capa := c, m_buf := Some (realloc_bytes (m_junk m) b (nat c))\<rparr>)
          else None)"

definition store_byte :: "u8 \<Rightarrow> marshall \<Rightarrow> marshall option" where
  "store_byte x m =
     (case m_buf m of
        None \<Rightarrow> None
      | Some b \<Rightarrow>
          if 0 \<le> m_ind m \<and> nat (m_ind m) < length b
          then Some (m\<lparr>m_buf := Some (b[nat (m_ind m) := x]), m_ind := m_ind m + 1\<rparr>)
          else None)"

definition rawbyte :: "u8 \<Rightarrow> marshall \<Rightarrow> marshall option" where
  "rawbyte x m = do {
     m \<leftarrow> (if m_ind m \<ge> m_capa m then grow (m_capa m * 2) m else Some m);
     store_byte x m
   }"

definition store_bytes :: "u8 list \<Rightarrow> int \<Rightarrow> marshall \<Rightarrow> marshall option" where
  "store_bytes p n m =
     (case m_buf m of
        None \<Rightarrow> None
      | Some b \<Rightarrow>
          if 0 \<le> m_ind m \<and> 0 \<le> n \<and> nat n \<le> length p \<and> nat (m_ind m) + nat n \<le> length b
          then Some (m\<lparr>m_buf := Some (overwrite b (nat (m_ind m)) (take (nat n) p)),
                      m_ind := m_ind m + n\<rparr>)
          else None)"

definition rawbytes :: "u8 list \<Rightarrow> int \<Rightarrow> marshall \<Rightarrow> marshall option" where
  "rawbytes p n m = do {
     m \<leftarrow> (if \<not> fits_int (m_ind m + n) then None
          else if m_ind m + n > m_capa m
          then grow (if m_capa m > n then 2 * m_capa m else m_capa m + n) m
          else Some m);
     store_bytes p n m
   }"

definition m_size :: "marshall \<Rightarrow> int" where
  "m_size m = m_ind m"

definition m_cstr :: "marshall \<Rightarrow> u8 list option" where
  "m_cstr m = m_buf m"

definition m_take_buf :: "marshall \<Rightarrow> (u8 list option \<times> int) \<times> marshall" where
  "m_take_buf m = ((m_buf m, m_ind m), m\<lparr>m_buf := None, m_ind := 0\<rparr>)"

text \<open>The overloads of \<open>operator<<\<close>.\<close>

definition put_u8 :: "u8 \<Rightarrow> marshall \<Rightarrow> marshall option" where
  "put_u8 x = rawbyte x"

definition put_char :: "u8 \<Rightarrow> marshall \<Rightarrow> marshall option" where
  "put_char x = put_u8 x"

definition put_u16 :: "u16 \<Rightarrow> marshall \<Rightarrow> marshall option" where
  "put_u16 x m = do {
     m \<leftarrow> rawbyte (ucast (drop_bit 8 x AND 0xff)) m;
     rawbyte (ucast (x AND 0xff)) m
   }"

definition put_short :: "u16 \<Rightarrow> marshall \<Rightarrow> marshall option" where
  "put_short x = put_u16 x"

definition put_u32 :: "u32 \<Rightarrow> marshall \<Rightarrow> marshall option" where
  "put_u32 x m = do {
     m \<leftarrow> rawbyte (ucast (drop_bit 24 x AND 0xff)) m;
     m \<leftarrow> rawbyte (ucast (drop_bit 16 x AND 0xff)) m;
     m \<leftarrow> rawbyte (ucast (drop_bit 8 x AND 0xff)) m;
     rawbyte (ucast (x AND 0xff)) m
   }"

definition put_int :: "u32 \<Rightarrow> marshall \<Rightarrow> marshall option" where
  "put_int x = put_u32 x"

definition put_string :: "u8 list \<Rightarrow> marshall \<Rightarrow> marshall option" where
  "put_string s m = do {
     m \<leftarrow> put_u32 (word_of_nat (length s)) m;
     rawbytes s (sint (word_of_nat (length s) :: u32)) m
   }"

definition put_u64 :: "u64 \<Rightarrow> marshall \<Rightarrow> marshall option" where
  "put_u64 x m = do {
     m \<leftarrow> put_u32 (ucast (drop_bit 32 x)) m;
     put_u32 (ucast x) m
   }"

text \<open>The targets are LP64: \<open>unsigned long\<close> is as wide as \<open>unsigned long long\<close>.\<close>

definition sizeof_unsigned_long :: nat where "sizeof_unsigned_long = 8"

definition put_ulong :: "u64 \<Rightarrow> marshall \<Rightarrow> marshall option" where
  "put_ulong x m =
     (if sizeof_unsigned_long = 4 then put_u32 (ucast x) m
      else if sizeof_unsigned_long = 8 then put_u64 x m
      else None)"

text \<open>\<open>pack\<close> shifts a signed \<open>int\<close>, which copies its sign bit.\<close>

definition pack :: "u32 \<Rightarrow> marshall \<Rightarrow> marshall option" where
  "pack x m = do {
     m \<leftarrow> rawbyte (ucast (signed_drop_bit 24 x AND 0xff)) m;
     m \<leftarrow> rawbyte (ucast (signed_drop_bit 16 x AND 0xff)) m;
     m \<leftarrow> rawbyte (ucast (signed_drop_bit 8 x AND 0xff)) m;
     rawbyte (ucast (x AND 0xff)) m
   }"

definition pack_req_header :: "req_header \<Rightarrow> marshall \<Rightarrow> marshall option" where
  "pack_req_header h m =
     (let saved_sz = m_ind m in do {
        m \<leftarrow> pack (rq_xid h) (m\<lparr>m_ind := sizeof_rpc_sz_t\<rparr>);
        m \<leftarrow> pack (rq_proc h) m;
        m \<leftarrow> pack (rq_clt_nonce h) m;
        m \<leftarrow> pack (rq_srv_nonce h) m;
        m \<leftarrow> pack (rq_xid_rep h) m;
        Some (m\<lparr>m_ind := saved_sz\<rparr>)
      })"

definition pack_reply_header :: "reply_header \<Rightarrow> marshall \<Rightarrow> marshall option" where
  "pack_reply_header h m =
     (let saved_sz = m_ind m in do {
        m \<leftarrow> pack (rp_xid h) (m\<lparr>m_ind := sizeof_rpc_sz_t\<rparr>);
        m \<leftarrow> pack (rp_ret h) m;
        Some (m\<lparr>m_ind := saved_sz\<rparr>)
      })"

section \<open>The reader\<close>

record unmarshall =
  u_buf :: "u8 list option"
  u_sz :: int
  u_ind :: int
  u_ok :: bool

definition empty_unmarshall :: unmarshall where
  "empty_unmarshall = \<lparr>u_buf = None, u_sz = 0, u_ind = 0, u_ok = False\<rparr>"

definition new_unmarshall :: "u8 list \<Rightarrow> int \<Rightarrow> unmarshall" where
  "new_unmarshall b sz = \<lparr>u_buf = Some b, u_sz = sz, u_ind = 0, u_ok = True\<rparr>"

text \<open>\<open>char\<close> is signed on the targets, so the byte is sign-extended to \<open>unsigned int\<close>.\<close>

definition u_rawbyte :: "unmarshall \<Rightarrow> (u32 \<times> unmarshall) option" where
  "u_rawbyte u =
     (if u_ind u \<ge> u_sz u then Some (0, u\<lparr>u_ok := False\<rparr>)
      else case u_buf u of
        None \<Rightarrow> None
      | Some b \<Rightarrow>
          if 0 \<le> u_ind u \<and> nat (u_ind u) < length b
          then Some (scast (b ! nat (u_ind u)), u\<lparr>u_ind := u_ind u + 1\<rparr>)
          else None)"

text \<open>
  \<open>rawbytes\<close> of the reader: the bound is computed in \<open>unsigned int\<close>, where \<open>_ind + n\<close> wraps.
\<close>

definition u_rawbytes :: "u8 list \<Rightarrow> u32 \<Rightarrow> unmarshall \<Rightarrow> (u8 list \<times> unmarshall) option" where
  "u_rawbytes s n u =
     (if word_of_int (u_ind u) + n > (word_of_int (u_sz u) :: u32)
      then Some (s, u\<lparr>u_ok := False\<rparr>)
      else case u_buf u of
        None \<Rightarrow> None
      | Some b \<Rightarrow>
          if 0 \<le> u_ind u \<and> nat (u_ind u) + unat n \<le> length b
          then Some (take (unat n) (drop (nat (u_ind u)) b),
                     u\<lparr>u_ind := sint (word_of_int (u_ind u) + n)\<rparr>)
          else None)"

definition u_okdone :: "unmarshall \<Rightarrow> bool" where
  "u_okdone u \<longleftrightarrow> u_ok u \<and> u_ind u = u_sz u"

definition u_take_buf :: "unmarshall \<Rightarrow> (u8 list option \<times> int) \<times> unmarshall" where
  "u_take_buf u = ((u_buf u, u_sz u), u\<lparr>u_buf := None, u_sz := 0, u_ind := 0\<rparr>)"

definition take_in :: "unmarshall \<Rightarrow> unmarshall \<Rightarrow> unmarshall \<times> unmarshall" where
  "take_in this another =
     (let ((b, sz), another) = u_take_buf another
      in (this\<lparr>u_buf := b, u_sz := sz, u_ind := RPC_HEADER_SZ, u_ok := sz \<ge> RPC_HEADER_SZ\<rparr>,
          another))"

text \<open>The overloads of \<open>operator>>\<close>.\<close>

definition get_u8 :: "unmarshall \<Rightarrow> (u8 \<times> unmarshall) option" where
  "get_u8 u = do { (c, u) \<leftarrow> u_rawbyte u; Some (ucast c, u) }"

definition get_char :: "unmarshall \<Rightarrow> (u8 \<times> unmarshall) option" where
  "get_char u = do { (c, u) \<leftarrow> u_rawbyte u; Some (ucast c, u) }"

definition get_u16 :: "unmarshall \<Rightarrow> (u16 \<times> unmarshall) option" where
  "get_u16 u = do {
     (a, u) \<leftarrow> u_rawbyte u;
     (b, u) \<leftarrow> u_rawbyte u;
     Some (ucast (push_bit 8 (a AND 0xff)) OR ucast (b AND 0xff), u)
   }"

definition get_short :: "unmarshall \<Rightarrow> (u16 \<times> unmarshall) option" where
  "get_short u = do {
     (a, u) \<leftarrow> u_rawbyte u;
     (b, u) \<leftarrow> u_rawbyte u;
     Some (ucast (push_bit 8 (a AND 0xff)) OR ucast (b AND 0xff), u)
   }"

definition get_u32 :: "unmarshall \<Rightarrow> (u32 \<times> unmarshall) option" where
  "get_u32 u = do {
     (a, u) \<leftarrow> u_rawbyte u;
     (b, u) \<leftarrow> u_rawbyte u;
     (c, u) \<leftarrow> u_rawbyte u;
     (d, u) \<leftarrow> u_rawbyte u;
     Some (push_bit 24 (a AND 0xff) OR push_bit 16 (b AND 0xff)
       OR push_bit 8 (c AND 0xff) OR (d AND 0xff), u)
   }"

definition get_int :: "unmarshall \<Rightarrow> (u32 \<times> unmarshall) option" where
  "get_int u = do {
     (a, u) \<leftarrow> u_rawbyte u;
     (b, u) \<leftarrow> u_rawbyte u;
     (c, u) \<leftarrow> u_rawbyte u;
     (d, u) \<leftarrow> u_rawbyte u;
     Some (push_bit 24 (a AND 0xff) OR push_bit 16 (b AND 0xff)
       OR push_bit 8 (c AND 0xff) OR (d AND 0xff), u)
   }"

definition get_u64 :: "unmarshall \<Rightarrow> (u64 \<times> unmarshall) option" where
  "get_u64 u = do {
     (h, u) \<leftarrow> get_u32 u;
     (l, u) \<leftarrow> get_u32 u;
     Some (ucast l OR push_bit 32 (ucast h), u)
   }"

definition get_ulong :: "unmarshall \<Rightarrow> (u64 \<times> unmarshall) option" where
  "get_ulong u =
     (if sizeof_unsigned_long = 4 then do { (x, u) \<leftarrow> get_u32 u; Some (ucast x, u) }
      else if sizeof_unsigned_long = 8 then get_u64 u
      else None)"

text \<open>\<open>operator>>\<close> on a string leaves the string alone when the read fails.\<close>

definition get_string :: "u8 list \<Rightarrow> unmarshall \<Rightarrow> (u8 list \<times> unmarshall) option" where
  "get_string s u = do {
     (sz, u) \<leftarrow> get_u32 u;
     (if u_ok u then u_rawbytes s sz u else Some (s, u))
   }"

definition unpack :: "unmarshall \<Rightarrow> (u32 \<times> unmarshall) option" where
  "unpack u = do {
     (a, u) \<leftarrow> u_rawbyte u;
     (b, u) \<leftarrow> u_rawbyte u;
     (c, u) \<leftarrow> u_rawbyte u;
     (d, u) \<leftarrow> u_rawbyte u;
     Some (push_bit 24 (a AND 0xff) OR push_bit 16 (b AND 0xff)
       OR push_bit 8 (c AND 0xff) OR (d AND 0xff), u)
   }"

text \<open>The fields of a header are unpacked from offset 4; the position then is set past it.\<close>

definition unpack_req_fields :: "unmarshall \<Rightarrow> (req_header \<times> unmarshall) option" where
  "unpack_req_fields u = do {
     (xid, u) \<leftarrow> unpack u;
     (proc, u) \<leftarrow> unpack u;
     (clt, u) \<leftarrow> unpack u;
     (srv, u) \<leftarrow> unpack u;
     (rep, u) \<leftarrow> unpack u;
     Some (\<lparr>rq_xid = xid, rq_proc = proc, rq_clt_nonce = clt, rq_srv_nonce = srv,
            rq_xid_rep = rep\<rparr>, u)
   }"

definition unpack_req_header :: "unmarshall \<Rightarrow> (req_header \<times> unmarshall) option" where
  "unpack_req_header u = do {
     (h, u) \<leftarrow> unpack_req_fields (u\<lparr>u_ind := sizeof_rpc_sz_t\<rparr>);
     Some (h, u\<lparr>u_ind := RPC_HEADER_SZ\<rparr>)
   }"

definition unpack_reply_fields :: "unmarshall \<Rightarrow> (reply_header \<times> unmarshall) option" where
  "unpack_reply_fields u = do {
     (xid, u) \<leftarrow> unpack u;
     (ret, u) \<leftarrow> unpack u;
     Some (\<lparr>rp_xid = xid, rp_ret = ret\<rparr>, u)
   }"

definition unpack_reply_header :: "unmarshall \<Rightarrow> (reply_header \<times> unmarshall) option" where
  "unpack_reply_header u = do {
     (h, u) \<leftarrow> unpack_reply_fields (u\<lparr>u_ind := sizeof_rpc_sz_t\<rparr>);
     Some (h, u\<lparr>u_ind := RPC_HEADER_SZ\<rparr>)
   }"

section \<open>What a writer appends\<close>

definition m_bytes :: "marshall \<Rightarrow> u8 list" where
  "m_bytes m = (case m_buf m of None \<Rightarrow> [] | Some b \<Rightarrow> take (nat (m_ind m)) b)"

definition wf_buf :: "marshall \<Rightarrow> bool" where
  "wf_buf m \<longleftrightarrow> (\<exists>b. m_buf m = Some b \<and> int (length b) = m_capa m)
     \<and> 0 \<le> m_ind m \<and> m_ind m \<le> m_capa m \<and> DEFAULT_RPC_SZ \<le> m_capa m"

text \<open>
  A well-formed writer is past its header and has grown geometrically: its capacity is at
  most twice the bytes written.
\<close>

definition wf_marshall :: "marshall \<Rightarrow> bool" where
  "wf_marshall m \<longleftrightarrow> wf_buf m \<and> RPC_HEADER_SZ \<le> m_ind m
     \<and> m_capa m \<le> max DEFAULT_RPC_SZ (2 * m_ind m)"

text \<open>Below this size no \<open>int\<close> of the writer overflows.\<close>

definition msg_limit :: int where
  "msg_limit = 2 ^ 30"

definition emits :: "(marshall \<Rightarrow> marshall option) \<Rightarrow> u8 list \<Rightarrow> bool" where
  "emits f bs \<longleftrightarrow> (\<forall>m. wf_marshall m \<longrightarrow> m_ind m + int (length bs) \<le> msg_limit \<longrightarrow>
     (\<exists>m'. f m = Some m' \<and> wf_marshall m' \<and> m_bytes m' = m_bytes m @ bs))"

lemma emitsI:
  assumes "\<And>m. wf_marshall m \<Longrightarrow> m_ind m + int (length bs) \<le> msg_limit \<Longrightarrow>
    \<exists>m'. f m = Some m' \<and> wf_marshall m' \<and> m_bytes m' = m_bytes m @ bs"
  shows "emits f bs"
  using assms by (simp add: emits_def)

lemma emitsE:
  assumes "emits f bs" "wf_marshall m" "m_ind m + int (length bs) \<le> msg_limit"
  obtains m' where "f m = Some m'" "wf_marshall m'" "m_bytes m' = m_bytes m @ bs"
  using assms by (auto simp: emits_def)

lemma length_m_bytes [simp]: "wf_buf m \<Longrightarrow> int (length (m_bytes m)) = m_ind m"
  by (auto simp: wf_buf_def m_bytes_def)

lemma wf_marshall_wf_buf [simp]: "wf_marshall m \<Longrightarrow> wf_buf m"
  by (simp add: wf_marshall_def)

lemma m_ind_append:
  "wf_marshall m \<Longrightarrow> wf_marshall m' \<Longrightarrow> m_bytes m' = m_bytes m @ bs \<Longrightarrow>
   m_ind m' = m_ind m + int (length bs)"
  by (metis length_append length_m_bytes of_nat_add wf_marshall_wf_buf)

lemma wf_new_marshall: "wf_marshall (new_marshall g)"
  by (simp add: new_marshall_def wf_marshall_def wf_buf_def)

lemma emits_bind:
  assumes f: "emits f bs" and g: "emits g cs"
  shows "emits (\<lambda>m. Option.bind (f m) g) (bs @ cs)"
proof (rule emitsI)
  fix m
  assume m: "wf_marshall m" "m_ind m + int (length (bs @ cs)) \<le> msg_limit"
  then obtain m1 where m1: "f m = Some m1" "wf_marshall m1" "m_bytes m1 = m_bytes m @ bs"
    using emitsE [OF f, of m] by auto
  with m have "m_ind m1 + int (length cs) \<le> msg_limit"
    using m_ind_append [of m m1 bs] by simp
  with g m1 obtain m2 where "g m1 = Some m2" "wf_marshall m2" "m_bytes m2 = m_bytes m1 @ cs"
    by (auto elim: emitsE)
  with m1 show "\<exists>m'. Option.bind (f m) g = Some m' \<and> wf_marshall m' \<and>
      m_bytes m' = m_bytes m @ bs @ cs"
    by simp
qed

lemma emits_Some: "emits Some []"
  by (rule emitsI) simp

lemma emits_rawbyte: "emits (rawbyte x) [x]"
proof (rule emitsI)
  fix m
  assume m: "wf_marshall m" "m_ind m + int (length [x]) \<le> msg_limit"
  then obtain b where b: "m_buf m = Some b" "int (length b) = m_capa m"
    by (auto simp: wf_marshall_def wf_buf_def)
  show "\<exists>m'. rawbyte x m = Some m' \<and> wf_marshall m' \<and> m_bytes m' = m_bytes m @ [x]"
  proof (cases "m_ind m \<ge> m_capa m")
    case True
    with m b have "m_ind m = m_capa m" "nat (m_ind m) = length b" "fits_int (m_capa m * 2)"
      by (auto simp: wf_marshall_def wf_buf_def fits_int_def int_max_def msg_limit_def)
    with m b True show ?thesis
      by (auto simp: rawbyte_def grow_def store_byte_def wf_marshall_def wf_buf_def m_bytes_def
          nat_add_distrib take_Suc_update take_realloc_bytes)
  next
    case False
    with m b show ?thesis
      by (auto simp: rawbyte_def store_byte_def wf_marshall_def wf_buf_def m_bytes_def
          nat_add_distrib take_Suc_update)
  qed
qed

lemma emits_rawbytes: "emits (rawbytes p (int (length p))) p"
proof (rule emitsI)
  fix m
  assume m: "wf_marshall m" "m_ind m + int (length p) \<le> msg_limit"
  then obtain b where b: "m_buf m = Some b" "int (length b) = m_capa m"
    by (auto simp: wf_marshall_def wf_buf_def)
  let ?n = "int (length p)" and ?i = "nat (m_ind m)"
  let ?c = "if m_capa m > ?n then 2 * m_capa m else m_capa m + ?n"
  have ind: "fits_int (m_ind m + ?n)" and i: "?i \<le> length b"
    using m b by (auto simp: fits_int_def int_max_def wf_marshall_def wf_buf_def msg_limit_def)
  show "\<exists>m'. rawbytes p ?n m = Some m' \<and> wf_marshall m' \<and> m_bytes m' = m_bytes m @ p"
  proof (cases "m_ind m + ?n > m_capa m")
    case True
    have fits: "?c \<le> 2 * (m_ind m + ?n)" "m_ind m + ?n \<le> ?c" "0 < ?c"
      using m True by (auto simp: wf_marshall_def wf_buf_def)
    then have "fits_int ?c"
      using m True by (auto simp: fits_int_def int_max_def msg_limit_def wf_marshall_def wf_buf_def)
    with m b i ind fits True show ?thesis
      by (auto simp: rawbytes_def grow_def store_bytes_def wf_marshall_def wf_buf_def m_bytes_def
          nat_add_distrib take_overwrite take_realloc_bytes)
  next
    case False
    with m b i ind show ?thesis
      by (auto simp: rawbytes_def store_bytes_def wf_marshall_def wf_buf_def m_bytes_def
          nat_add_distrib take_overwrite)
  qed
qed

subsection \<open>Big-endian bytes\<close>

definition be16 :: "u16 \<Rightarrow> u8 list" where
  "be16 x = [ucast (drop_bit 8 x), ucast x]"

definition be32 :: "u32 \<Rightarrow> u8 list" where
  "be32 x = [ucast (drop_bit 24 x), ucast (drop_bit 16 x), ucast (drop_bit 8 x), ucast x]"

definition be64 :: "u64 \<Rightarrow> u8 list" where
  "be64 x = be32 (ucast (drop_bit 32 x)) @ be32 (ucast x)"

definition str_bytes :: "u8 list \<Rightarrow> u8 list" where
  "str_bytes s = be32 (word_of_nat (length s)) @ s"

lemma length_be [simp]: "length (be16 y) = 2" "length (be32 x) = 4" "length (be64 z) = 8"
  by (simp_all add: be16_def be32_def be64_def)

lemma length_str_bytes [simp]: "length (str_bytes s) = 4 + length s"
  by (simp add: str_bytes_def)

lemma signed_shift_byte [simp]:
  "ucast (signed_drop_bit 24 (x :: u32)) = (ucast (drop_bit 24 x) :: u8)"
  "ucast (signed_drop_bit 16 x) = (ucast (drop_bit 16 x) :: u8)"
  "ucast (signed_drop_bit 8 x) = (ucast (drop_bit 8 x) :: u8)"
  by (rule bit_word_eqI; auto simp: bit_simps bit_signed_drop_bit_iff dest: bit_imp_le_length)+

lemma emits_put_u8: "emits (put_u8 x) [x]"
  by (simp add: put_u8_def emits_rawbyte)

lemma emits_put_char: "emits (put_char x) [x]"
  by (simp add: put_char_def emits_put_u8)

lemma emits_put_u16: "emits (put_u16 x) (be16 x)"
  using emits_bind [OF emits_rawbyte [of "ucast (drop_bit 8 x)"] emits_rawbyte [of "ucast x"]]
  by (simp add: put_u16_def [abs_def] be16_def)

lemma emits_put_short: "emits (put_short x) (be16 x)"
  by (simp add: put_short_def emits_put_u16)

lemma emits_put_u32: "emits (put_u32 x) (be32 x)"
  using emits_bind [OF emits_rawbyte [of "ucast (drop_bit 24 x)"]
      emits_bind [OF emits_rawbyte [of "ucast (drop_bit 16 x)"]
        emits_bind [OF emits_rawbyte [of "ucast (drop_bit 8 x)"] emits_rawbyte [of "ucast x"]]]]
  by (simp add: put_u32_def [abs_def] be32_def)

lemma emits_put_int: "emits (put_int x) (be32 x)"
  by (simp add: put_int_def emits_put_u32)

lemma emits_put_u64: "emits (put_u64 x) (be64 x)"
  unfolding put_u64_def [abs_def] be64_def by (rule emits_bind emits_put_u32)+

lemma emits_put_ulong: "emits (put_ulong x) (be64 x)"
  using emits_put_u64 by (simp add: put_ulong_def [abs_def] sizeof_unsigned_long_def)

lemma emits_put_string: "emits (put_string s) (str_bytes s)"
proof (rule emitsI)
  fix m
  assume m: "wf_marshall m" "m_ind m + int (length (str_bytes s)) \<le> msg_limit"
  then have "fits_int (int (length s))"
    by (simp add: fits_int_def int_max_def msg_limit_def wf_marshall_def)
  then have n: "sint (word_of_nat (length s) :: u32) = int (length s)"
    using sint_word_of_int_fits [of "int (length s)"] by simp
  have "emits (put_string s) (str_bytes s)"
    using emits_bind [OF emits_put_u32 emits_rawbytes, of "word_of_nat (length s)" s]
    by (simp add: put_string_def [abs_def] str_bytes_def n)
  then show "\<exists>m'. put_string s m = Some m' \<and> wf_marshall m' \<and>
      m_bytes m' = m_bytes m @ str_bytes s"
    using m by (auto elim: emitsE)
qed

subsection \<open>Headers are packed in place\<close>

lemma rawbyte_in_place:
  assumes "m_buf m = Some b" "int (length b) = m_capa m" "0 \<le> m_ind m" "m_ind m < m_capa m"
  shows "rawbyte x m =
    Some (m\<lparr>m_buf := Some (b[nat (m_ind m) := x]), m_ind := m_ind m + 1\<rparr>)"
  using assms by (auto simp: rawbyte_def store_byte_def)

lemma pack_in_place:
  assumes "m_buf m = Some b" "int (length b) = m_capa m" "0 \<le> m_ind m"
    "m_ind m + 4 \<le> m_capa m"
  shows "pack x m =
    Some (m\<lparr>m_buf := Some (overwrite b (nat (m_ind m)) (be32 x)), m_ind := m_ind m + 4\<rparr>)"
proof -
  have i: "nat (m_ind m + 1) = Suc (nat (m_ind m))"
    "nat (2 + m_ind m) = Suc (Suc (nat (m_ind m)))"
    "nat (3 + m_ind m) = Suc (Suc (Suc (nat (m_ind m))))" "4 + m_ind m = m_ind m + 4"
    using assms(3) by auto
  have len: "nat (m_ind m) + 4 \<le> length b"
    using assms by linarith
  let ?b = "b[nat (m_ind m) := ucast (drop_bit 24 x),
      Suc (nat (m_ind m)) := ucast (drop_bit 16 x),
      Suc (Suc (nat (m_ind m))) := ucast (drop_bit 8 x),
      Suc (Suc (Suc (nat (m_ind m)))) := ucast x]"
  have "?b = overwrite ?b (Suc (Suc (Suc (Suc (nat (m_ind m)))))) []"
    by simp
  also have "\<dots> = overwrite b (nat (m_ind m)) (be32 x)"
    using len by (simp add: overwrite_step be32_def del: overwrite_Nil)
  finally show ?thesis
    using assms by (simp add: pack_def rawbyte_in_place i)
qed

definition enc_req_header :: "req_header \<Rightarrow> u8 list" where
  "enc_req_header h = be32 (rq_xid h) @ be32 (rq_proc h) @ be32 (rq_clt_nonce h)
     @ be32 (rq_srv_nonce h) @ be32 (rq_xid_rep h)"

definition enc_reply_header :: "reply_header \<Rightarrow> u8 list" where
  "enc_reply_header h = be32 (rp_xid h) @ be32 (rp_ret h)"

lemma length_enc_header [simp]:
  "length (enc_req_header h) = 20" "length (enc_reply_header r) = 8"
  by (simp_all add: enc_req_header_def enc_reply_header_def)

text \<open>A run of \<open>pack\<close>s writes a run of words, one after the other.\<close>

lemma pack_then:
  assumes "m_buf m = Some (overwrite b i p)" "m_ind m = int (i + length p)"
    "i + length p + 4 \<le> length b" "int (length b) = m_capa m"
  shows "pack x m = Some (m\<lparr>m_buf := Some (overwrite b i (p @ be32 x)),
    m_ind := int (i + length (p @ be32 x))\<rparr>)"
proof -
  have "length (overwrite b i p) = length b"
    using assms(3) by simp
  moreover have "overwrite (overwrite b i p) (i + length p) (be32 x) = overwrite b i (p @ be32 x)"
    using assms(3) by (intro overwrite_overwrite) simp
  moreover have "nat (int i + int (length p)) = i + length p"
    by linarith
  ultimately show ?thesis
    using assms pack_in_place [of m "overwrite b i p" x] by (simp add: add.assoc)
qed

lemma pack_req_header_eq:
  assumes "m_buf m = Some b" "int (length b) = m_capa m" "DEFAULT_RPC_SZ \<le> m_capa m"
  shows "pack_req_header h m = Some (m\<lparr>m_buf := Some (overwrite b 4 (enc_req_header h))\<rparr>)"
  using assms
  by (simp add: pack_req_header_def enc_req_header_def pack_then [where b = b and i = 4]
      pack_then [where b = b and i = 4 and p = "[]"])

lemma pack_reply_header_eq:
  assumes "m_buf m = Some b" "int (length b) = m_capa m" "DEFAULT_RPC_SZ \<le> m_capa m"
  shows "pack_reply_header h m = Some (m\<lparr>m_buf := Some (overwrite b 4 (enc_reply_header h))\<rparr>)"
  using assms
  by (simp add: pack_reply_header_def enc_reply_header_def pack_then [where b = b and i = 4]
      pack_then [where b = b and i = 4 and p = "[]"])

lemma wf_header_update:
  assumes "wf_marshall m" "m_buf m = Some b" "length p \<le> 20"
  shows "wf_marshall (m\<lparr>m_buf := Some (overwrite b 4 p)\<rparr>)"
    "m_bytes (m\<lparr>m_buf := Some (overwrite b 4 p)\<rparr>) = overwrite (m_bytes m) 4 p"
  using assms by (auto simp: wf_marshall_def wf_buf_def m_bytes_def take_overwrite_beyond)

section \<open>What a reader consumes\<close>

definition u_rest :: "unmarshall \<Rightarrow> u8 list" where
  "u_rest u = (case u_buf u of None \<Rightarrow> []
     | Some b \<Rightarrow> drop (nat (u_ind u)) (take (nat (u_sz u)) b))"

definition wf_reader :: "unmarshall \<Rightarrow> bool" where
  "wf_reader u \<longleftrightarrow> (case u_buf u of None \<Rightarrow> u_sz u \<le> 0 | Some b \<Rightarrow> u_sz u \<le> int (length b))
     \<and> 0 \<le> u_ind u \<and> fits_int (u_sz u)"

text \<open>While its flag is set a reader has a buffer and its position is inside it.\<close>

definition wf_unmarshall :: "unmarshall \<Rightarrow> bool" where
  "wf_unmarshall u \<longleftrightarrow> wf_reader u \<and> (u_ok u \<longrightarrow> u_buf u \<noteq> None \<and> u_ind u \<le> u_sz u)"

definition u_skip :: "nat \<Rightarrow> unmarshall \<Rightarrow> unmarshall" where
  "u_skip n u = u\<lparr>u_ind := u_ind u + int n\<rparr>"

definition reads :: "(unmarshall \<Rightarrow> ('a \<times> unmarshall) option) \<Rightarrow> 'a \<Rightarrow> u8 list \<Rightarrow> bool" where
  "reads get x bs \<longleftrightarrow> (\<forall>u r. wf_unmarshall u \<longrightarrow> u_ok u \<longrightarrow> u_rest u = bs @ r \<longrightarrow>
     get u = Some (x, u_skip (length bs) u))"

text \<open>
  A reader that stays inside the buffer on every input; and a reader of a fixed number of
  bytes, which either moves over them or clears the flag.
\<close>

definition safe_read :: "(unmarshall \<Rightarrow> ('a \<times> unmarshall) option) \<Rightarrow> bool" where
  "safe_read get \<longleftrightarrow> (\<forall>u. wf_unmarshall u \<longrightarrow>
     (\<exists>x u'. get u = Some (x, u') \<and> wf_unmarshall u' \<and> u_buf u' = u_buf u \<and> u_sz u' = u_sz u
       \<and> (u_ok u' \<longrightarrow> u_ok u)))"

definition advances :: "nat \<Rightarrow> (unmarshall \<Rightarrow> ('a \<times> unmarshall) option) \<Rightarrow> bool" where
  "advances k get \<longleftrightarrow> (\<forall>u. wf_reader u \<longrightarrow>
     (\<exists>x u'. get u = Some (x, u') \<and> wf_reader u' \<and> u_buf u' = u_buf u \<and> u_sz u' = u_sz u
       \<and> (u_ok u' \<longleftrightarrow> u_ok u \<and> (k = 0 \<or> u_ind u + int k \<le> u_sz u))
       \<and> (u_ok u' \<longrightarrow> u_ind u' = u_ind u + int k)))"

lemma u_skip_simps [simp]:
  "u_buf (u_skip n u) = u_buf u" "u_sz (u_skip n u) = u_sz u" "u_ok (u_skip n u) = u_ok u"
  "u_ind (u_skip n u) = u_ind u + int n" "u_skip 0 u = u"
  "u_skip i (u_skip j u) = u_skip (j + i) u"
  by (simp_all add: u_skip_def algebra_simps)

lemma u_rest_bound:
  "wf_unmarshall u \<Longrightarrow> u_rest u \<noteq> [] \<Longrightarrow> u_ind u + int (length (u_rest u)) = u_sz u"
  by (auto simp: wf_unmarshall_def wf_reader_def u_rest_def split: option.splits)

lemma u_rest_skip:
  assumes "wf_unmarshall u" "u_rest u = bs @ r"
  shows "u_rest (u_skip (length bs) u) = r" "wf_unmarshall (u_skip (length bs) u)"
proof -
  have "drop (length bs) (u_rest u) = r"
    using assms(2) by simp
  then show "u_rest (u_skip (length bs) u) = r"
    using assms(1) by (auto simp: u_rest_def wf_unmarshall_def wf_reader_def nat_add_distrib add.commute
        split: option.splits)
  show "wf_unmarshall (u_skip (length bs) u)"
  proof (cases "bs = []")
    case False
    with assms have "u_ind u + int (length bs) \<le> u_sz u"
      using u_rest_bound [of u] by auto
    with assms(1) show ?thesis
      by (auto simp: wf_unmarshall_def wf_reader_def split: option.splits)
  qed (use assms in simp)
qed

lemma reads_bind:
  assumes "reads f x bs" and "reads (k x) y cs"
  shows "reads (\<lambda>u. Option.bind (f u) (\<lambda>(a, u). k a u)) y (bs @ cs)"
  unfolding reads_def
proof (intro allI impI)
  fix u r
  assume u: "wf_unmarshall u" "u_ok u" "u_rest u = (bs @ cs) @ r"
  then have "f u = Some (x, u_skip (length bs) u)"
    using assms(1) by (simp add: reads_def)
  moreover have "k x (u_skip (length bs) u) = Some (y, u_skip (length (bs @ cs)) u)"
    using assms(2) u u_rest_skip [of u bs "cs @ r"] by (simp add: reads_def)
  ultimately show "Option.bind (f u) (\<lambda>(a, u). k a u) = Some (y, u_skip (length (bs @ cs)) u)"
    by simp
qed

lemma reads_return: "reads (\<lambda>u. Some (x, u)) x []"
  by (simp add: reads_def)

lemma reads_u_rawbyte: "reads u_rawbyte (scast c) [c]"
  unfolding reads_def
proof (intro allI impI)
  fix u r
  assume u: "wf_unmarshall u" "u_ok u" "u_rest u = [c] @ r"
  then obtain b where b: "u_buf u = Some b" "nat (u_ind u) < length b" "b ! nat (u_ind u) = c"
      "u_ind u < u_sz u" "0 \<le> u_ind u"
    by (auto simp: u_rest_def wf_unmarshall_def wf_reader_def dest!: drop_ConsD
        split: option.splits)
  then show "u_rawbyte u = Some (scast c, u_skip (length [c]) u)"
    by (simp add: u_rawbyte_def u_skip_def)
qed

lemmas reads_intros = reads_bind reads_u_rawbyte reads_return

lemma reads_get_u8: "reads get_u8 x [x]"
proof -
  have "reads get_u8 (ucast (scast x :: u32)) ([x] @ [])"
    unfolding get_u8_def by (rule reads_intros)+
  then show ?thesis by simp
qed

lemma reads_get_char: "reads get_char x [x]"
proof -
  have "reads get_char (ucast (scast x :: u32)) ([x] @ [])"
    unfolding get_char_def by (rule reads_intros)+
  then show ?thesis by simp
qed

lemma get_short_eq: "get_short = get_u16"
  by (rule ext) (simp add: get_short_def get_u16_def)

lemma get_int_eq: "get_int = get_u32"
  by (rule ext) (simp add: get_int_def get_u32_def)

lemma unpack_eq: "unpack = get_u32"
  by (rule ext) (simp add: unpack_def get_u32_def)

lemma reads_get_u16: "reads get_u16 x (be16 x)"
proof -
  let ?a = "ucast (drop_bit 8 x) :: u8" and ?b = "ucast x :: u8"
  have "reads get_u16
      (ucast (push_bit 8 ((scast ?a :: u32) AND 0xff)) OR ucast ((scast ?b :: u32) AND 0xff))
      ([?a] @ [?b] @ [])"
    unfolding get_u16_def by (rule reads_intros)+
  then show ?thesis by (simp add: be16_def u16_from_read_bytes)
qed

lemma reads_get_u32: "reads get_u32 x (be32 x)"
proof -
  let ?a = "ucast (drop_bit 24 x) :: u8" and ?b = "ucast (drop_bit 16 x) :: u8"
    and ?c = "ucast (drop_bit 8 x) :: u8" and ?d = "ucast x :: u8"
  have "reads get_u32
      (push_bit 24 ((scast ?a :: u32) AND 0xff) OR push_bit 16 ((scast ?b :: u32) AND 0xff)
        OR push_bit 8 ((scast ?c :: u32) AND 0xff) OR ((scast ?d :: u32) AND 0xff))
      ([?a] @ [?b] @ [?c] @ [?d] @ [])"
    unfolding get_u32_def by (rule reads_intros)+
  then show ?thesis by (simp add: be32_def u32_from_bytes)
qed

lemma reads_get_u64: "reads get_u64 x (be64 x)"
proof -
  let ?h = "ucast (drop_bit 32 x) :: u32" and ?l = "ucast x :: u32"
  have "reads get_u64 (ucast ?l OR push_bit 32 (ucast ?h)) (be32 ?h @ be32 ?l @ [])"
    unfolding get_u64_def by (rule reads_intros reads_get_u32)+
  then show ?thesis by (simp add: be64_def u64_from_halves)
qed

lemma reads_get_ulong: "reads get_ulong x (be64 x)"
  using reads_get_u64 by (simp add: get_ulong_def [abs_def] sizeof_unsigned_long_def)

text \<open>A string is read back when its length word tells its length.\<close>

lemma reads_u_rawbytes:
  assumes "length s < 2 ^ 31"
  shows "reads (u_rawbytes s0 (word_of_nat (length s))) s s"
  unfolding reads_def
proof (intro allI impI)
  fix u r
  assume u: "wf_unmarshall u" "u_ok u" "u_rest u = s @ r"
  then obtain b where b: "u_buf u = Some b" "u_sz u \<le> int (length b)" "0 \<le> u_ind u"
      "u_ind u \<le> u_sz u" "fits_int (u_sz u)" "drop (nat (u_ind u)) (take (nat (u_sz u)) b) = s @ r"
    by (auto simp: wf_unmarshall_def wf_reader_def u_rest_def)
  then have "length (s @ r) = nat (u_sz u) - nat (u_ind u)"
    by (metis length_drop length_take min.absorb2 nat_le_iff)
  with b have le: "u_ind u + int (length s) \<le> u_sz u"
    by simp
  let ?n = "word_of_nat (length s) :: u32"
  have sum: "word_of_int (u_ind u) + ?n = word_of_int (u_ind u + int (length s))"
    by simp
  have "uint (word_of_int (u_ind u) + ?n) = u_ind u + int (length s)"
    unfolding sum using le b by (intro uint_word_of_int_small) (simp_all add: fits_int_def int_max_def)
  moreover have "uint (word_of_int (u_sz u) :: u32) = u_sz u"
    using le b by (intro uint_word_of_int_small) (simp_all add: fits_int_def int_max_def)
  ultimately have "\<not> word_of_int (u_ind u) + ?n > word_of_int (u_sz u)"
    using le by (simp only: linorder_not_less word_le_def)
  moreover have "unat ?n = length s"
    using assms by (simp add: unat_word_of_nat_lt)
  moreover have "take (length s) (drop (nat (u_ind u)) b) = s"
  proof -
    have "take (length s) (take (nat (u_sz u) - nat (u_ind u)) (drop (nat (u_ind u)) b)) = s"
      using b(6) by (simp add: drop_take [symmetric])
    moreover have "length s \<le> nat (u_sz u) - nat (u_ind u)"
      using le b by linarith
    ultimately show ?thesis
      by (simp add: min_def)
  qed
  moreover have "sint (word_of_int (u_ind u) + ?n) = u_ind u + int (length s)"
    unfolding sum using le b by (intro sint_word_of_int_fits) (simp add: fits_int_def int_max_def)
  moreover have "nat (u_ind u) + length s \<le> length b"
    using le b by linarith
  ultimately show "u_rawbytes s0 ?n u = Some (s, u_skip (length s) u)"
    using b by (simp add: u_rawbytes_def u_skip_def)
qed

lemma reads_get_string:
  assumes "length s < 2 ^ 31"
  shows "reads (get_string s0) s (str_bytes s)"
  unfolding reads_def
proof (intro allI impI)
  fix u r
  assume u: "wf_unmarshall u" "u_ok u" "u_rest u = str_bytes s @ r"
  let ?n = "word_of_nat (length s) :: u32"
  have "get_u32 u = Some (?n, u_skip 4 u)"
    using u reads_get_u32 [of ?n] by (simp add: reads_def str_bytes_def)
  moreover have "u_rawbytes s0 ?n (u_skip 4 u) = Some (s, u_skip (4 + length s) u)"
    using u u_rest_skip [of u "be32 ?n" "s @ r"] reads_u_rawbytes [OF assms, of s0]
    by (simp add: reads_def str_bytes_def)
  ultimately show "get_string s0 u = Some (s, u_skip (length (str_bytes s)) u)"
    using u by (simp add: get_string_def)
qed

subsection \<open>Reading arbitrary bytes\<close>

lemma advancesE:
  assumes "advances k get" "wf_reader u"
  obtains x u' where "get u = Some (x, u')" "wf_reader u'" "u_buf u' = u_buf u"
    "u_sz u' = u_sz u" "u_ok u' \<longleftrightarrow> u_ok u \<and> (k = 0 \<or> u_ind u + int k \<le> u_sz u)"
    "u_ok u' \<longrightarrow> u_ind u' = u_ind u + int k"
  using assms unfolding advances_def by blast

lemma advances_bind:
  assumes f: "advances i f" and k: "\<And>x. advances j (k x)"
  shows "advances (i + j) (\<lambda>u. Option.bind (f u) (\<lambda>(a, u). k a u))"
  unfolding advances_def
proof (intro allI impI)
  fix u
  assume u: "wf_reader u"
  from f u obtain x u1 where 1: "f u = Some (x, u1)" "wf_reader u1" "u_buf u1 = u_buf u"
      "u_sz u1 = u_sz u" "u_ok u1 \<longleftrightarrow> u_ok u \<and> (i = 0 \<or> u_ind u + int i \<le> u_sz u)"
      "u_ok u1 \<longrightarrow> u_ind u1 = u_ind u + int i"
    by (rule advancesE)
  from k [of x] 1(2) obtain y u2 where 2: "k x u1 = Some (y, u2)" "wf_reader u2" "u_buf u2 = u_buf u1"
      "u_sz u2 = u_sz u1" "u_ok u2 \<longleftrightarrow> u_ok u1 \<and> (j = 0 \<or> u_ind u1 + int j \<le> u_sz u1)"
      "u_ok u2 \<longrightarrow> u_ind u2 = u_ind u1 + int j"
    by (rule advancesE)
  have "u_ok u2 \<longleftrightarrow> u_ok u \<and> (i + j = 0 \<or> u_ind u + int (i + j) \<le> u_sz u)"
    using 1(4-6) 2(5) by (cases "u_ok u1") auto
  moreover have "u_ok u2 \<Longrightarrow> u_ind u2 = u_ind u + int (i + j)"
    using 1(6) 2(5,6) by auto
  ultimately show "\<exists>y u'. Option.bind (f u) (\<lambda>(a, u). k a u) = Some (y, u') \<and> wf_reader u' \<and>
      u_buf u' = u_buf u \<and> u_sz u' = u_sz u \<and>
      (u_ok u' \<longleftrightarrow> u_ok u \<and> (i + j = 0 \<or> u_ind u + int (i + j) \<le> u_sz u)) \<and>
      (u_ok u' \<longrightarrow> u_ind u' = u_ind u + int (i + j))"
    using 1(1,3,4) 2(1-4) by auto
qed

lemma advances_return: "advances 0 (\<lambda>u. Some (x, u))"
  by (auto simp: advances_def)

lemma advances_u_rawbyte: "advances 1 u_rawbyte"
  unfolding advances_def
proof (intro allI impI)
  fix u
  assume u: "wf_reader u"
  show "\<exists>x u'. u_rawbyte u = Some (x, u') \<and> wf_reader u' \<and> u_buf u' = u_buf u \<and>
      u_sz u' = u_sz u \<and> (u_ok u' \<longleftrightarrow> u_ok u \<and> ((1::nat) = 0 \<or> u_ind u + int 1 \<le> u_sz u)) \<and>
      (u_ok u' \<longrightarrow> u_ind u' = u_ind u + int 1)"
  proof (cases "u_ind u \<ge> u_sz u")
    case True
    with u show ?thesis
      by (auto simp: u_rawbyte_def wf_reader_def split: option.splits)
  next
    case False
    with u show ?thesis
      by (auto simp: u_rawbyte_def wf_reader_def split: option.splits)
  qed
qed

lemmas advances_intros = advances_bind advances_u_rawbyte advances_return

lemma advances_get_u32: "advances 4 get_u32"
proof -
  have "advances (1 + (1 + (1 + (1 + 0)))) get_u32"
    unfolding get_u32_def by (rule advances_intros)+
  then show ?thesis
    by (simp add: eval_nat_numeral)
qed

lemma advances_get_u8: "advances 1 get_u8" "advances 1 get_char"
proof -
  have "advances (1 + 0) get_u8" "advances (1 + 0) get_char"
    unfolding get_u8_def get_char_def by (rule advances_intros)+
  then show "advances 1 get_u8" "advances 1 get_char"
    by simp_all
qed

lemma advances_get_u16: "advances 2 get_u16"
proof -
  have "advances (1 + (1 + 0)) get_u16"
    unfolding get_u16_def by (rule advances_intros)+
  then show ?thesis
    by (simp add: eval_nat_numeral)
qed

lemma advances_get_u64: "advances 8 get_u64"
proof -
  have "advances (4 + (4 + 0)) get_u64"
    unfolding get_u64_def by (rule advances_intros advances_get_u32)+
  then show ?thesis
    by simp
qed

lemma safe_read_advances: "advances k get \<Longrightarrow> safe_read get"
  unfolding safe_read_def
proof (intro allI impI)
  fix u
  assume adv: "advances k get" and u: "wf_unmarshall u"
  then have "wf_reader u"
    by (simp add: wf_unmarshall_def)
  with adv obtain x u' where "get u = Some (x, u')" "wf_reader u'" "u_buf u' = u_buf u"
      "u_sz u' = u_sz u" "u_ok u' \<longleftrightarrow> u_ok u \<and> (k = 0 \<or> u_ind u + int k \<le> u_sz u)"
      "u_ok u' \<longrightarrow> u_ind u' = u_ind u + int k"
    by (rule advancesE)
  with u show "\<exists>x u'. get u = Some (x, u') \<and> wf_unmarshall u' \<and> u_buf u' = u_buf u \<and>
      u_sz u' = u_sz u \<and> (u_ok u' \<longrightarrow> u_ok u)"
    by (auto simp: wf_unmarshall_def)
qed

subsection \<open>Headers\<close>

lemma reads_unpack_req_fields: "reads unpack_req_fields h (enc_req_header h)"
proof -
  have "reads unpack_req_fields
      \<lparr>rq_xid = rq_xid h, rq_proc = rq_proc h, rq_clt_nonce = rq_clt_nonce h,
       rq_srv_nonce = rq_srv_nonce h, rq_xid_rep = rq_xid_rep h\<rparr>
      (be32 (rq_xid h) @ be32 (rq_proc h) @ be32 (rq_clt_nonce h) @ be32 (rq_srv_nonce h)
        @ be32 (rq_xid_rep h) @ [])"
    unfolding unpack_req_fields_def unpack_eq by (rule reads_intros reads_get_u32)+
  then show ?thesis
    by (cases h) (simp add: enc_req_header_def)
qed

lemma reads_unpack_reply_fields: "reads unpack_reply_fields h (enc_reply_header h)"
proof -
  have "reads unpack_reply_fields \<lparr>rp_xid = rp_xid h, rp_ret = rp_ret h\<rparr>
      (be32 (rp_xid h) @ be32 (rp_ret h) @ [])"
    unfolding unpack_reply_fields_def unpack_eq by (rule reads_intros reads_get_u32)+
  then show ?thesis
    by (cases h) (simp add: enc_reply_header_def)
qed

lemma advances_unpack_fields: "advances 20 unpack_req_fields" "advances 8 unpack_reply_fields"
proof -
  have "advances (4 + (4 + (4 + (4 + (4 + 0))))) unpack_req_fields"
    "advances (4 + (4 + 0)) unpack_reply_fields"
    unfolding unpack_req_fields_def unpack_reply_fields_def unpack_eq
    by (rule advances_intros advances_get_u32)+
  then show "advances 20 unpack_req_fields" "advances 8 unpack_reply_fields"
    by simp_all
qed

lemma header_reader:
  assumes "wf_reader u" "u_ok u" "u_buf u = Some b" "u_sz u \<ge> 4 + int (length e)"
    "take (length e) (drop 4 b) = e"
  shows "wf_unmarshall (u\<lparr>u_ind := 4\<rparr>)" "\<exists>r. u_rest (u\<lparr>u_ind := 4\<rparr>) = e @ r"
proof -
  show "wf_unmarshall (u\<lparr>u_ind := 4\<rparr>)"
    using assms by (auto simp: wf_unmarshall_def wf_reader_def)
  have "take (length e) (u_rest (u\<lparr>u_ind := 4\<rparr>)) = e"
    using assms by (simp add: u_rest_def drop_take min_def) linarith
  then show "\<exists>r. u_rest (u\<lparr>u_ind := 4\<rparr>) = e @ r"
    by (metis append_take_drop_id)
qed

lemma unpack_req_header_eq:
  assumes "wf_reader u" "u_ok u" "u_buf u = Some b" "u_sz u \<ge> RPC_HEADER_SZ"
    "take 20 (drop 4 b) = enc_req_header h"
  shows "unpack_req_header u = Some (h, u\<lparr>u_ind := RPC_HEADER_SZ\<rparr>)"
proof -
  obtain r where "wf_unmarshall (u\<lparr>u_ind := 4\<rparr>)"
      "u_rest (u\<lparr>u_ind := 4\<rparr>) = enc_req_header h @ r"
    using header_reader [of u b "enc_req_header h"] assms by auto
  then show ?thesis
    using assms(2) reads_unpack_req_fields [of h]
    by (simp add: unpack_req_header_def reads_def u_skip_def)
qed

lemma unpack_reply_header_eq:
  assumes "wf_reader u" "u_ok u" "u_buf u = Some b" "u_sz u \<ge> 12"
    "take 8 (drop 4 b) = enc_reply_header h"
  shows "unpack_reply_header u = Some (h, u\<lparr>u_ind := RPC_HEADER_SZ\<rparr>)"
proof -
  obtain r where "wf_unmarshall (u\<lparr>u_ind := 4\<rparr>)"
      "u_rest (u\<lparr>u_ind := 4\<rparr>) = enc_reply_header h @ r"
    using header_reader [of u b "enc_reply_header h"] assms by auto
  then show ?thesis
    using assms(2) reads_unpack_reply_fields [of h]
    by (simp add: unpack_reply_header_def reads_def u_skip_def)
qed

lemma wf_reader_update [simp]: "0 \<le> i \<Longrightarrow> wf_reader u \<Longrightarrow> wf_reader (u\<lparr>u_ind := i\<rparr>)"
  by (auto simp: wf_reader_def split: option.splits)

lemma unpack_req_header_any:
  assumes "wf_reader u"
  obtains h u' where "unpack_req_header u = Some (h, u')" "wf_unmarshall u'"
    "u_buf u' = u_buf u" "u_sz u' = u_sz u" "u_ind u' = RPC_HEADER_SZ"
    "u_ok u' \<longleftrightarrow> u_ok u \<and> u_sz u \<ge> RPC_HEADER_SZ"
proof -
  from assms have "wf_reader (u\<lparr>u_ind := 4\<rparr>)"
    by simp
  with advances_unpack_fields(1) obtain h u1 where 1:
      "unpack_req_fields (u\<lparr>u_ind := 4\<rparr>) = Some (h, u1)" "wf_reader u1"
      "u_buf u1 = u_buf (u\<lparr>u_ind := 4\<rparr>)" "u_sz u1 = u_sz (u\<lparr>u_ind := 4\<rparr>)"
      "u_ok u1 \<longleftrightarrow> u_ok (u\<lparr>u_ind := 4\<rparr>) \<and>
        ((20::nat) = 0 \<or> u_ind (u\<lparr>u_ind := 4\<rparr>) + int 20 \<le> u_sz (u\<lparr>u_ind := 4\<rparr>))"
    by (rule advancesE)
  then have "wf_unmarshall (u1\<lparr>u_ind := RPC_HEADER_SZ\<rparr>)"
    by (auto simp: wf_unmarshall_def) (auto simp: wf_reader_def split: option.splits)
  with 1 that [of h "u1\<lparr>u_ind := RPC_HEADER_SZ\<rparr>"] show ?thesis
    by (simp add: unpack_req_header_def)
qed

lemma unpack_reply_header_any:
  assumes "wf_reader u"
  obtains h u' where "unpack_reply_header u = Some (h, u')" "wf_reader u'"
    "u_buf u' = u_buf u" "u_sz u' = u_sz u" "u_ind u' = RPC_HEADER_SZ"
    "u_ok u' \<longleftrightarrow> u_ok u \<and> u_sz u \<ge> 12"
proof -
  from assms have "wf_reader (u\<lparr>u_ind := 4\<rparr>)"
    by simp
  with advances_unpack_fields(2) obtain h u1 where 1:
      "unpack_reply_fields (u\<lparr>u_ind := 4\<rparr>) = Some (h, u1)" "wf_reader u1"
      "u_buf u1 = u_buf (u\<lparr>u_ind := 4\<rparr>)" "u_sz u1 = u_sz (u\<lparr>u_ind := 4\<rparr>)"
      "u_ok u1 \<longleftrightarrow> u_ok (u\<lparr>u_ind := 4\<rparr>) \<and>
        ((8::nat) = 0 \<or> u_ind (u\<lparr>u_ind := 4\<rparr>) + int 8 \<le> u_sz (u\<lparr>u_ind := 4\<rparr>))"
    by (rule advancesE)
  with that [of h "u1\<lparr>u_ind := RPC_HEADER_SZ\<rparr>"] show ?thesis
    by (simp add: unpack_reply_header_def)
qed

end
