(* ===== verification/Wire_Codec.thy ===== *)
theory Wire_Codec
  imports Marshalling
begin

text \<open>
  The contract of a matching pair of operators \<open><<\<close> and \<open>>>\<close>, the templates of
  \<open>rpc/marshall.h\<close> that build the operators of vectors and maps from those of their
  elements, and the instances of the contract for the types the code marshals.
\<close>

section \<open>The contract\<close>

text \<open>
  \<open>enc x\<close> is the byte string of the value \<open>x\<close>: the writer appends it, the reader consumes it
  and returns \<open>x\<close>. \<open>ok\<close> restricts the values (a string has to be shorter than the wire
  format can tell).
\<close>

locale wire_codec =
  fixes put :: "'a \<Rightarrow> marshall \<Rightarrow> marshall option"
    and get :: "unmarshall \<Rightarrow> ('a \<times> unmarshall) option"
    and enc :: "'a \<Rightarrow> u8 list"
    and ok :: "'a \<Rightarrow> bool"
  assumes put_emits: "emits (put x) (enc x)"
    and get_reads: "ok x \<Longrightarrow> reads get x (enc x)"
begin

text \<open>What was written after the header is read back, and what follows is left for the next read.\<close>

lemma put_get:
  assumes "ok x" "wf_unmarshall u" "u_ok u" "u_rest u = enc x @ r"
  obtains u' where "get u = Some (x, u')" "wf_unmarshall u'" "u_ok u'" "u_rest u' = r"
    "u_sz u' = u_sz u"
  using assms get_reads [OF assms(1)] u_rest_skip [OF assms(2,4)]
  by (auto simp: reads_def)

lemma get_to_end:
  assumes "ok x" "wf_unmarshall u" "u_ok u" "u_rest u = enc x" "enc x \<noteq> []"
  obtains u' where "get u = Some (x, u')" "u_okdone u'"
proof -
  have "get u = Some (x, u_skip (length (enc x)) u)"
    using assms get_reads [OF assms(1)] by (auto simp: reads_def)
  moreover have "u_ind u + int (length (enc x)) = u_sz u"
    using u_rest_bound [OF assms(2)] assms(4,5) by simp
  ultimately show ?thesis
    using that assms(3) by (simp add: u_okdone_def)
qed

text \<open>Equal bytes come from equal values.\<close>

lemma enc_inj:
  assumes "ok x" "ok y" "enc x = enc y" "length (enc x) < 2 ^ 31"
  shows "x = y"
proof -
  let ?u = "new_unmarshall (enc x) (int (length (enc x)))"
  have "wf_unmarshall ?u" "u_ok ?u" "u_rest ?u = enc x @ []"
    using assms(4)
    by (simp_all add: new_unmarshall_def wf_unmarshall_def wf_reader_def u_rest_def fits_int_def
        int_max_def)
  then have "get ?u = Some (x, u_skip (length (enc x)) ?u)"
    "get ?u = Some (y, u_skip (length (enc y)) ?u)"
    using get_reads [OF assms(1)] get_reads [OF assms(2)] assms(3) by (simp_all add: reads_def)
  then show ?thesis
    by simp
qed

end

text \<open>A codec whose reader is safe on every input, also on bytes no writer has produced.\<close>

locale safe_codec = wire_codec +
  assumes get_safe: "safe_read get"
begin

lemma get_defined:
  assumes "wf_unmarshall u"
  obtains x u' where "get u = Some (x, u')" "wf_unmarshall u'" "u_sz u' = u_sz u"
    "u_buf u' = u_buf u" "u_ok u' \<longrightarrow> u_ok u"
  using get_safe assms unfolding safe_read_def by blast

end

section \<open>Pairs and vectors\<close>

text \<open>\<open>m << a << b\<close> and \<open>u >> a >> b\<close>.\<close>

definition put_pair :: "('a \<Rightarrow> marshall \<Rightarrow> marshall option) \<Rightarrow> ('b \<Rightarrow> marshall \<Rightarrow> marshall option)
    \<Rightarrow> 'a \<times> 'b \<Rightarrow> marshall \<Rightarrow> marshall option" where
  "put_pair put_a put_b ab m = do { m \<leftarrow> put_a (fst ab) m; put_b (snd ab) m }"

definition get_pair :: "(unmarshall \<Rightarrow> ('a \<times> unmarshall) option)
    \<Rightarrow> (unmarshall \<Rightarrow> ('b \<times> unmarshall) option)
    \<Rightarrow> unmarshall \<Rightarrow> (('a \<times> 'b) \<times> unmarshall) option" where
  "get_pair get_a get_b u = do { (a, u) \<leftarrow> get_a u; (b, u) \<leftarrow> get_b u; Some ((a, b), u) }"

fun put_elems :: "('a \<Rightarrow> marshall \<Rightarrow> marshall option) \<Rightarrow> 'a list \<Rightarrow> marshall \<Rightarrow> marshall option"
where
  "put_elems put [] m = Some m"
| "put_elems put (x # xs) m = do { m \<leftarrow> put x m; put_elems put xs m }"

definition put_vector :: "('a \<Rightarrow> marshall \<Rightarrow> marshall option) \<Rightarrow> 'a list \<Rightarrow> marshall \<Rightarrow> marshall option"
where
  "put_vector put v m = do { m \<leftarrow> put_u32 (word_of_nat (length v)) m; put_elems put v m }"

text \<open>The loop of the reader pushes onto the vector it is given; it does not clear it.\<close>

fun get_elems :: "(unmarshall \<Rightarrow> ('a \<times> unmarshall) option) \<Rightarrow> nat \<Rightarrow> 'a list \<Rightarrow> unmarshall
    \<Rightarrow> ('a list \<times> unmarshall) option" where
  "get_elems get 0 v u = Some (v, u)"
| "get_elems get (Suc n) v u = do { (z, u) \<leftarrow> get u; get_elems get n (v @ [z]) u }"

definition get_vector :: "(unmarshall \<Rightarrow> ('a \<times> unmarshall) option) \<Rightarrow> 'a list \<Rightarrow> unmarshall
    \<Rightarrow> ('a list \<times> unmarshall) option" where
  "get_vector get v u = do { (n, u) \<leftarrow> get_u32 u; get_elems get (unat n) v u }"

text \<open>\<open>std::map\<close> is the list of its entries in the order of the keys.\<close>

fun map_put :: "'a::linorder \<Rightarrow> 'b \<Rightarrow> ('a \<times> 'b) list \<Rightarrow> ('a \<times> 'b) list" where
  "map_put k v [] = [(k, v)]"
| "map_put k v ((k', v') # d) =
     (if k < k' then (k, v) # (k', v') # d
      else if k = k' then (k, v) # d
      else (k', v') # map_put k v d)"

definition put_map :: "('a \<Rightarrow> marshall \<Rightarrow> marshall option) \<Rightarrow> ('b \<Rightarrow> marshall \<Rightarrow> marshall option)
    \<Rightarrow> ('a \<times> 'b) list \<Rightarrow> marshall \<Rightarrow> marshall option" where
  "put_map put_a put_b d m = do {
     m \<leftarrow> put_u32 (word_of_nat (length d)) m;
     put_elems (put_pair put_a put_b) d m
   }"

fun get_entries :: "(unmarshall \<Rightarrow> ('a::linorder \<times> unmarshall) option)
    \<Rightarrow> (unmarshall \<Rightarrow> ('b \<times> unmarshall) option)
    \<Rightarrow> nat \<Rightarrow> ('a \<times> 'b) list \<Rightarrow> unmarshall \<Rightarrow> (('a \<times> 'b) list \<times> unmarshall) option" where
  "get_entries get_a get_b 0 d u = Some (d, u)"
| "get_entries get_a get_b (Suc n) d u = do {
     (a, u) \<leftarrow> get_a u;
     (b, u) \<leftarrow> get_b u;
     get_entries get_a get_b n (map_put a b d) u
   }"

text \<open>The reader clears the map it is given, so it takes none.\<close>

definition get_map :: "(unmarshall \<Rightarrow> ('a::linorder \<times> unmarshall) option)
    \<Rightarrow> (unmarshall \<Rightarrow> ('b \<times> unmarshall) option)
    \<Rightarrow> unmarshall \<Rightarrow> (('a \<times> 'b) list \<times> unmarshall) option" where
  "get_map get_a get_b u = do { (n, u) \<leftarrow> get_u32 u; get_entries get_a get_b (unat n) [] u }"

subsection \<open>Their contracts\<close>

definition enc_pair :: "('a \<Rightarrow> u8 list) \<Rightarrow> ('b \<Rightarrow> u8 list) \<Rightarrow> 'a \<times> 'b \<Rightarrow> u8 list" where
  "enc_pair enc_a enc_b ab = enc_a (fst ab) @ enc_b (snd ab)"

definition enc_vector :: "('a \<Rightarrow> u8 list) \<Rightarrow> 'a list \<Rightarrow> u8 list" where
  "enc_vector enc v = be32 (word_of_nat (length v)) @ concat (map enc v)"

lemma emits_pair:
  assumes "emits (put_a (fst ab)) bs" "emits (put_b (snd ab)) cs"
  shows "emits (put_pair put_a put_b ab) (bs @ cs)"
  using emits_bind [OF assms] by (simp add: put_pair_def [abs_def])

lemma reads_pair:
  assumes "reads get_a a bs" "reads get_b b cs"
  shows "reads (get_pair get_a get_b) (a, b) (bs @ cs)"
proof -
  have "reads (get_pair get_a get_b) (a, b) (bs @ cs @ [])"
    unfolding get_pair_def by (rule reads_bind reads_return assms)+
  then show ?thesis
    by simp
qed

lemma emits_elems: "(\<And>x. emits (put x) (enc x)) \<Longrightarrow> emits (put_elems put v) (concat (map enc v))"
proof (induction v)
  case Nil
  have "put_elems put [] = Some"
    by (rule ext) simp
  then show ?case
    by (simp add: emits_Some)
next
  case (Cons x v)
  have "put_elems put (x # v) = (\<lambda>m. Option.bind (put x m) (put_elems put v))"
    by (rule ext) simp
  with Cons show ?case
    by (simp add: emits_bind)
qed

lemma emits_vector:
  assumes "\<And>x. emits (put x) (enc x)"
  shows "emits (put_vector put v) (enc_vector enc v)"
  unfolding put_vector_def [abs_def] enc_vector_def
  by (intro emits_bind emits_put_u32 emits_elems assms)

lemma reads_elems:
  assumes "\<And>x. x \<in> set v \<Longrightarrow> reads get x (enc x)"
  shows "reads (get_elems get (length v) v0) (v0 @ v) (concat (map enc v))"
  using assms
proof (induction v arbitrary: v0)
  case Nil
  have "get_elems get 0 v0 = (\<lambda>u. Some (v0, u))"
    by (rule ext) simp
  then show ?case
    by (simp add: reads_return)
next
  case (Cons x v)
  have "get_elems get (length (x # v)) v0
      = (\<lambda>u. Option.bind (get u) (\<lambda>(z, u). get_elems get (length v) (v0 @ [z]) u))"
    by (rule ext) simp
  moreover have "reads get x (enc x)"
    using Cons.prems by simp
  moreover have "reads (get_elems get (length v) (v0 @ [x])) (v0 @ x # v) (concat (map enc v))"
    using Cons.IH [of "v0 @ [x]"] Cons.prems by simp
  ultimately show ?case
    by (simp add: reads_bind)
qed

lemma unat_length32: "length v < 2 ^ 32 \<Longrightarrow> unat (word_of_nat (length v) :: u32) = length v"
  by (rule unat_word_of_nat_lt) simp

lemma reads_vector:
  assumes "length v < 2 ^ 32" "\<And>x. x \<in> set v \<Longrightarrow> reads get x (enc x)"
  shows "reads (get_vector get v0) (v0 @ v) (enc_vector enc v)"
  unfolding get_vector_def [abs_def] enc_vector_def
  by (rule reads_bind [OF reads_get_u32])
    (use assms reads_elems [of v get enc v0] in \<open>simp add: unat_length32\<close>)

lemma map_put_append:
  "\<forall>k' \<in> fst ` set d. k' < k \<Longrightarrow> map_put k v d = d @ [(k, v)]"
  by (induction k v d rule: map_put.induct) auto

lemma reads_entries:
  assumes "\<And>a b. (a, b) \<in> set d \<Longrightarrow> reads get_a a (enc_a a) \<and> reads get_b b (enc_b b)"
    and "sorted_wrt (<) (map fst (d0 @ d))"
  shows "reads (get_entries get_a get_b (length d) d0) (d0 @ d) (concat (map (enc_pair enc_a enc_b) d))"
  using assms
proof (induction d arbitrary: d0)
  case Nil
  have "get_entries get_a get_b 0 d0 = (\<lambda>u. Some (d0, u))"
    by (rule ext) simp
  then show ?case
    by (simp add: reads_return)
next
  case (Cons ab d)
  obtain a b where ab: "ab = (a, b)"
    by (cases ab)
  have eq: "get_entries get_a get_b (length (ab # d)) d0
      = (\<lambda>u. Option.bind (get_a u) (\<lambda>(a, u). Option.bind (get_b u) (\<lambda>(b, u).
          get_entries get_a get_b (length d) (map_put a b d0) u)))"
    by (rule ext) simp
  have "map_put a b d0 = d0 @ [(a, b)]"
    using Cons.prems(2) ab by (intro map_put_append) (auto simp: sorted_wrt_append)
  moreover have "reads (get_entries get_a get_b (length d) (d0 @ [(a, b)])) ((d0 @ [(a, b)]) @ d)
      (concat (map (enc_pair enc_a enc_b) d))"
    by (rule Cons.IH) (use Cons.prems ab in auto)
  ultimately have rest: "reads (get_entries get_a get_b (length d) (map_put a b d0)) (d0 @ ab # d)
      (concat (map (enc_pair enc_a enc_b) d))"
    using ab by simp
  have key: "reads get_a a (enc_a a)" and val: "reads get_b b (enc_b b)"
    using Cons.prems(1) ab by auto
  have "reads (get_entries get_a get_b (length (ab # d)) d0) (d0 @ ab # d)
      (enc_a a @ enc_b b @ concat (map (enc_pair enc_a enc_b) d))"
    unfolding eq by (rule reads_bind [OF key], rule reads_bind [OF val], rule rest)
  moreover have "enc_pair enc_a enc_b ab = enc_a a @ enc_b b"
    by (simp add: ab enc_pair_def)
  ultimately show ?case
    by (simp only: list.map concat.simps append_assoc)
qed

lemma reads_map:
  assumes "length d < 2 ^ 32" "sorted_wrt (<) (map fst d)"
    and "\<And>a b. (a, b) \<in> set d \<Longrightarrow> reads get_a a (enc_a a) \<and> reads get_b b (enc_b b)"
  shows "reads (get_map get_a get_b) d (enc_vector (enc_pair enc_a enc_b) d)"
  unfolding get_map_def [abs_def] enc_vector_def
  by (rule reads_bind [OF reads_get_u32])
    (use assms reads_entries [of d get_a enc_a get_b enc_b "[]"] in \<open>simp add: unat_length32\<close>)

lemma emits_map:
  assumes "\<And>a. emits (put_a a) (enc_a a)" "\<And>b. emits (put_b b) (enc_b b)"
  shows "emits (put_map put_a put_b d) (enc_vector (enc_pair enc_a enc_b) d)"
proof -
  have "emits (put_pair put_a put_b ab) (enc_pair enc_a enc_b ab)" for ab
    unfolding enc_pair_def by (intro emits_pair assms)
  then show ?thesis
    using emits_vector [of "put_pair put_a put_b" "enc_pair enc_a enc_b" d]
    by (simp add: put_map_def [abs_def] put_vector_def [abs_def])
qed

section \<open>Instances\<close>

locale two_codecs =
  a: wire_codec put_a get_a enc_a ok_a + b: wire_codec put_b get_b enc_b ok_b
  for put_a :: "'a \<Rightarrow> marshall \<Rightarrow> marshall option"
    and get_a :: "unmarshall \<Rightarrow> ('a \<times> unmarshall) option"
    and enc_a :: "'a \<Rightarrow> u8 list" and ok_a :: "'a \<Rightarrow> bool"
    and put_b :: "'b \<Rightarrow> marshall \<Rightarrow> marshall option"
    and get_b :: "unmarshall \<Rightarrow> ('b \<times> unmarshall) option"
    and enc_b :: "'b \<Rightarrow> u8 list" and ok_b :: "'b \<Rightarrow> bool"

sublocale two_codecs \<subseteq> pair: wire_codec "put_pair put_a put_b" "get_pair get_a get_b"
    "enc_pair enc_a enc_b" "\<lambda>ab. ok_a (fst ab) \<and> ok_b (snd ab)"
proof
  show "emits (put_pair put_a put_b ab) (enc_pair enc_a enc_b ab)" for ab
    unfolding enc_pair_def by (intro emits_pair a.put_emits b.put_emits)
  show "reads (get_pair get_a get_b) ab (enc_pair enc_a enc_b ab)"
    if "ok_a (fst ab) \<and> ok_b (snd ab)" for ab
    using that reads_pair [of get_a "fst ab" _ get_b "snd ab"] a.get_reads b.get_reads
    by (simp add: enc_pair_def)
qed

locale vector_codec = elem: wire_codec put get enc ok
  for put :: "'a \<Rightarrow> marshall \<Rightarrow> marshall option"
    and get :: "unmarshall \<Rightarrow> ('a \<times> unmarshall) option"
    and enc :: "'a \<Rightarrow> u8 list" and ok :: "'a \<Rightarrow> bool"

sublocale vector_codec \<subseteq> vec: wire_codec "put_vector put" "get_vector get []" "enc_vector enc"
    "\<lambda>v. length v < 2 ^ 32 \<and> list_all ok v"
proof
  show "emits (put_vector put v) (enc_vector enc v)" for v
    by (intro emits_vector elem.put_emits)
  show "reads (get_vector get []) v (enc_vector enc v)"
    if "length v < 2 ^ 32 \<and> list_all ok v" for v
    using that reads_vector [of v get enc "[]"] elem.get_reads by (auto simp: list_all_iff)
qed

interpretation uchar: safe_codec put_u8 get_u8 "\<lambda>x. [x]" "\<lambda>_. True"
  by unfold_locales (rule emits_put_u8 reads_get_u8 safe_read_advances advances_get_u8)+

interpretation char: safe_codec put_char get_char "\<lambda>x. [x]" "\<lambda>_. True"
  by unfold_locales (rule emits_put_char reads_get_char safe_read_advances advances_get_u8)+

interpretation ushort: safe_codec put_u16 get_u16 be16 "\<lambda>_. True"
  by unfold_locales (rule emits_put_u16 reads_get_u16 safe_read_advances advances_get_u16)+

interpretation short: safe_codec put_short get_short be16 "\<lambda>_. True"
  unfolding get_short_eq
  by unfold_locales (rule emits_put_short reads_get_u16 safe_read_advances advances_get_u16)+

interpretation uint: safe_codec put_u32 get_u32 be32 "\<lambda>_. True"
  by unfold_locales (rule emits_put_u32 reads_get_u32 safe_read_advances advances_get_u32)+

interpretation cint: safe_codec put_int get_int be32 "\<lambda>_. True"
  unfolding get_int_eq
  by unfold_locales (rule emits_put_int reads_get_u32 safe_read_advances advances_get_u32)+

interpretation ullong: safe_codec put_u64 get_u64 be64 "\<lambda>_. True"
  by unfold_locales (rule emits_put_u64 reads_get_u64 safe_read_advances advances_get_u64)+

lemma get_ulong_eq: "get_ulong = get_u64"
  by (rule ext) (simp add: get_ulong_def sizeof_unsigned_long_def)

interpretation ulong: safe_codec put_ulong get_ulong be64 "\<lambda>_. True"
  unfolding get_ulong_eq
  by unfold_locales (rule emits_put_ulong reads_get_u64 safe_read_advances advances_get_u64)+

interpretation str: wire_codec put_string "get_string []" str_bytes "\<lambda>s. length s < 2 ^ 31"
  by unfold_locales (rule emits_put_string, rule reads_get_string)

text \<open>The arguments of the lock requests, a client id and a lock id; the strings of a vector.\<close>

interpretation lock_args: two_codecs put_int get_int be32 "\<lambda>_. True" put_u64 get_u64 be64 "\<lambda>_. True"
  by unfold_locales

interpretation strings: vector_codec put_string "get_string []" str_bytes "\<lambda>s. length s < 2 ^ 31"
  by unfold_locales

section \<open>Messages\<close>

text \<open>
  A message travels as the bytes written so far, with its first four bytes replaced by the
  channel with the length (\<open>connection::writepdu\<close>); the peer reads from after the header.
\<close>

definition pdu_bytes :: "marshall \<Rightarrow> u8 list" where
  "pdu_bytes m = overwrite (m_bytes m) 0 (be32 (word_of_int (m_size m)))"

definition payload_reader :: "marshall \<Rightarrow> unmarshall" where
  "payload_reader m = fst (take_in empty_unmarshall (new_unmarshall (pdu_bytes m) (m_size m)))"

lemma length_pdu_bytes: "wf_marshall m \<Longrightarrow> int (length (pdu_bytes m)) = m_ind m"
proof -
  assume m: "wf_marshall m"
  then have "int (length (m_bytes m)) = m_ind m" "24 \<le> m_ind m"
    by (simp_all add: wf_marshall_def)
  then show ?thesis
    by (simp add: pdu_bytes_def)
qed

lemma pdu_payload:
  assumes "wf_marshall m" "m_bytes m = pre @ bs" "length pre = 24"
  shows "drop 24 (pdu_bytes m) = bs"
  using assms by (simp add: pdu_bytes_def drop_overwrite_beyond)

lemma payload_reader_wf:
  assumes "wf_marshall m" "m_bytes m = pre @ bs" "length pre = 24" "m_ind m \<le> msg_limit"
  shows "wf_unmarshall (payload_reader m)" "u_ok (payload_reader m)" "u_rest (payload_reader m) = bs"
  using assms length_pdu_bytes [OF assms(1)] pdu_payload [OF assms(1-3)]
  by (auto simp: payload_reader_def take_in_def u_take_buf_def new_unmarshall_def m_size_def
      wf_unmarshall_def wf_reader_def u_rest_def wf_marshall_def fits_int_def int_max_def msg_limit_def)

lemma new_marshall_bytes: "length (m_bytes (new_marshall g)) = 24"
  by (simp add: new_marshall_def m_bytes_def)

lemma new_marshall_ind: "m_ind (new_marshall g) = 24"
  by (simp add: new_marshall_def)

lemma message_roundtrip:
  assumes "emits put bs" "reads get x bs" "24 + int (length bs) \<le> msg_limit" "bs \<noteq> []"
  shows "\<exists>m u. put (new_marshall g) = Some m \<and> m_size m = 24 + int (length bs) \<and>
    get (payload_reader m) = Some (x, u) \<and> u_okdone u"
proof -
  obtain m where m: "put (new_marshall g) = Some m" "wf_marshall m"
      "m_bytes m = m_bytes (new_marshall g) @ bs"
    by (rule emitsE [OF assms(1) wf_new_marshall]) (use assms(3) in \<open>simp add: new_marshall_ind\<close>)
  have ind: "m_ind m = 24 + int (length bs)"
    using m_ind_append [OF wf_new_marshall m(2,3)] by (simp add: new_marshall_ind)
  have "wf_unmarshall (payload_reader m)" "u_ok (payload_reader m)" "u_rest (payload_reader m) = bs @ []"
    using payload_reader_wf [OF m(2,3) new_marshall_bytes] ind assms(3) by simp_all
  with assms(2) have "get (payload_reader m) = Some (x, u_skip (length bs) (payload_reader m))"
    unfolding reads_def by blast
  moreover have "u_ind (payload_reader m) + int (length bs) = u_sz (payload_reader m)"
    by (simp add: payload_reader_def take_in_def u_take_buf_def new_unmarshall_def m_size_def ind)
  ultimately show ?thesis
    using m(1) ind \<open>u_ok (payload_reader m)\<close> by (simp add: m_size_def u_okdone_def)
qed

lemma length_concat_elem: "x \<in> set v \<Longrightarrow> length (enc x) \<le> length (concat (map enc v))"
  by (induction v) auto

lemma length_concat_ge:
  "(\<And>x. k \<le> length (enc x)) \<Longrightarrow> k * length v \<le> length (concat (map enc v))"
  by (induction v) (auto intro: add_mono)

lemma small_strings:
  assumes "24 + int (length (enc_vector str_bytes v)) \<le> msg_limit"
  shows "length v < 2 ^ 32" "x \<in> set v \<Longrightarrow> length x < 2 ^ 31"
  using assms length_concat_ge [of 4 str_bytes v] length_concat_elem [of x v str_bytes]
  by (simp_all add: enc_vector_def msg_limit_def)

interpretation string_maps: wire_codec "put_map put_u32 (put_vector put_string)"
    "get_map get_u32 (get_vector (get_string []) [])"
    "enc_vector (enc_pair be32 (enc_vector str_bytes))"
    "\<lambda>d. length d < 2 ^ 32 \<and> sorted_wrt (<) (map fst d) \<and>
       list_all (\<lambda>(k, v). length v < 2 ^ 32 \<and> list_all (\<lambda>s. length s < 2 ^ 31) v) d"
proof
  show "emits (put_map put_u32 (put_vector put_string) d)
      (enc_vector (enc_pair be32 (enc_vector str_bytes)) d)" for d
    by (intro emits_map emits_put_u32 strings.vec.put_emits)
  show "reads (get_map get_u32 (get_vector (get_string []) [])) d
      (enc_vector (enc_pair be32 (enc_vector str_bytes)) d)"
    if "length d < 2 ^ 32 \<and> sorted_wrt (<) (map fst d) \<and>
       list_all (\<lambda>(k, v). length v < 2 ^ 32 \<and> list_all (\<lambda>s. length s < 2 ^ 31) v) d" for d
  proof (intro reads_map conjI)
    fix k v
    assume "(k, v) \<in> set d"
    with that have "length v < 2 ^ 32 \<and> list_all (\<lambda>s. length s < 2 ^ 31) v"
      by (auto simp: list_all_iff)
    then show "reads (get_vector (get_string []) []) v (enc_vector str_bytes v)"
      by (rule strings.vec.get_reads)
  qed (use that reads_get_u32 in auto)
qed

lemma word_of_int_minus_2p32: "word_of_int (k - 2 ^ 32) = (word_of_int k :: u32)"
  by (simp add: word_of_int_eq_iff take_bit_eq_mod)

lemma enc_vector_ne: "enc_vector enc v \<noteq> []"
  by (simp add: enc_vector_def be32_def)

lemma small_maps:
  assumes "24 + int (length (enc_vector (enc_pair be32 (enc_vector str_bytes)) d)) \<le> msg_limit"
  shows "length d < 2 ^ 32 \<and>
    (\<forall>(k, v) \<in> set d. length v < 2 ^ 32 \<and> list_all (\<lambda>s. length s < 2 ^ 31) v)"
proof -
  define enc :: "u32 \<times> u8 list list \<Rightarrow> u8 list" where "enc = enc_pair be32 (enc_vector str_bytes)"
  have enc: "length (enc (k, v)) = 4 + length (enc_vector str_bytes v)" for k v
    by (simp add: enc_def enc_pair_def)
  have bound: "28 + int (length (concat (map enc d))) \<le> msg_limit"
    using assms by (simp add: enc_vector_def [of enc] flip: enc_def)
  have "4 * length d \<le> length (concat (map enc d))"
    by (rule length_concat_ge) (simp add: enc_def enc_pair_def)
  then have "length d < 2 ^ 32"
    using bound by (simp add: msg_limit_def)
  moreover have "length v < 2 ^ 32 \<and> list_all (\<lambda>s. length s < 2 ^ 31) v" if "(k, v) \<in> set d" for k v
  proof -
    have "24 + int (length (enc_vector str_bytes v)) \<le> msg_limit"
      using bound length_concat_elem [OF that, of enc] enc [of k v] by linarith
    from small_strings [OF this] show ?thesis
      by (auto simp: list_all_iff)
  qed
  ultimately show ?thesis
    by auto
qed

section \<open>Properties\<close>

text \<open>
  A vector of strings that fits a message survives the wire: written after the header,
  sent, and read back into a vector that already holds \<open>v0\<close>, it is appended to \<open>v0\<close> with every
  string as it was, and nothing of the message is left over. (The reader of a map clears its
  target first; the reader of a vector does not.)
\<close>

theorem vector_roundtrip:
  assumes "24 + int (length (enc_vector str_bytes v)) \<le> msg_limit"
  shows "\<exists>m u. put_vector put_string v (new_marshall g) = Some m \<and>
    get_vector (get_string []) v0 (payload_reader m) = Some (v0 @ v, u) \<and> u_okdone u"
proof -
  have "enc_vector str_bytes v \<noteq> []"
    by (simp add: enc_vector_def be32_def)
  then obtain m u where "put_vector put_string v (new_marshall g) = Some m"
      "get_vector (get_string []) v0 (payload_reader m) = Some (v0 @ v, u)" "u_okdone u"
    using message_roundtrip [OF strings.vec.put_emits
        reads_vector [OF small_strings(1) [OF assms] str.get_reads [OF small_strings(2) [OF assms]]] assms]
    by blast
  then show ?thesis
    by blast
qed

theorem vector_roundtrip_witness:
  "\<exists>m u. put_vector put_string [[104, 105], [], [33]] (new_marshall (\<lambda>_. 0)) = Some m \<and>
    get_vector (get_string []) [[7]] (payload_reader m) = Some ([[7]] @ [[104, 105], [], [33]], u) \<and>
    u_okdone u"
  by (rule vector_roundtrip) (simp add: enc_vector_def str_bytes_def msg_limit_def)

text \<open>
  C38. A map from numbers to vectors of strings that fits a message survives the wire: what is
  read back is the map that was written, entry for entry, and nothing is left over.
\<close>

theorem map_roundtrip:
  assumes "sorted_wrt (<) (map fst d)"
    and "24 + int (length (enc_vector (enc_pair be32 (enc_vector str_bytes)) d)) \<le> msg_limit"
  shows "\<exists>m u. put_map put_u32 (put_vector put_string) d (new_marshall g) = Some m \<and>
    get_map get_u32 (get_vector (get_string []) []) (payload_reader m) = Some (d, u) \<and> u_okdone u"
proof -
  have "reads (get_map get_u32 (get_vector (get_string []) [])) d
      (enc_vector (enc_pair be32 (enc_vector str_bytes)) d)"
    using small_maps [OF assms(2)] assms(1) by (intro string_maps.get_reads) (simp add: list_all_iff)
  from message_roundtrip [OF string_maps.put_emits this assms(2) enc_vector_ne]
  show ?thesis
    by meson
qed

theorem map_roundtrip_witness:
  "\<exists>m u. put_map put_u32 (put_vector put_string) [(3, [[104]]), (9, [])] (new_marshall (\<lambda>_. 0)) = Some m \<and>
    get_map get_u32 (get_vector (get_string []) []) (payload_reader m)
      = Some ([(3, [[104]]), (9, [])], u) \<and> u_okdone u"
  by (rule map_roundtrip)
    (simp_all add: enc_vector_def enc_pair_def str_bytes_def msg_limit_def word_less_nat_alt)

text \<open>
  The growing buffer: appending a string to a writer never fails below the message limit,
  appends exactly its length word and its bytes behind what is there, and leaves a buffer whose
  length is the recorded capacity, at most twice what has been written (or the initial size).
\<close>

theorem string_append_in_bounds:
  assumes "wf_marshall m" "m_ind m + 4 + int (length s) \<le> msg_limit"
  shows "\<exists>m' b. put_string s m = Some m' \<and> m_bytes m' = m_bytes m @ str_bytes s \<and>
    m_buf m' = Some b \<and> int (length b) = m_capa m' \<and> m_ind m' = m_ind m + 4 + int (length s) \<and>
    m_ind m' \<le> m_capa m' \<and> m_capa m' \<le> max DEFAULT_RPC_SZ (2 * m_ind m')"
proof -
  obtain m' where m': "put_string s m = Some m'" "wf_marshall m'" "m_bytes m' = m_bytes m @ str_bytes s"
    by (rule emitsE [OF str.put_emits assms(1)]) (use assms(2) in \<open>simp add: algebra_simps\<close>)
  moreover have "m_ind m' = m_ind m + 4 + int (length s)"
    using m_ind_append [OF assms(1) m'(2,3)] by simp
  ultimately show ?thesis
    by (auto simp: wf_marshall_def wf_buf_def)
qed

theorem string_append_in_bounds_witness:
  "\<exists>m' b. put_string [104, 105] (new_marshall (\<lambda>_. 0)) = Some m' \<and>
    m_bytes m' = m_bytes (new_marshall (\<lambda>_. 0)) @ str_bytes [104, 105] \<and>
    m_buf m' = Some b \<and> int (length b) = m_capa m' \<and>
    m_ind m' = m_ind (new_marshall (\<lambda>_. 0)) + 4 + int (length [104 :: u8, 105]) \<and>
    m_ind m' \<le> m_capa m' \<and> m_capa m' \<le> max DEFAULT_RPC_SZ (2 * m_ind m')"
  by (rule string_append_in_bounds [OF wf_new_marshall]) (simp add: new_marshall_ind msg_limit_def)

text \<open>
  C39. Headers of arbitrary messages: whatever bytes arrive, unpacking a request header reads
  nothing outside the buffer, leaves the reader at the first argument, and reports success
  exactly when the message is at least as long as a header; a reply header only needs the
  bytes of its two fields, and the length check of \<open>take_in\<close> then catches what is too short.
\<close>

theorem header_of_any_message:
  assumes "fits_int (int (length b))"
  shows "\<exists>h u r v. unpack_req_header (new_unmarshall b (int (length b))) = Some (h, u) \<and>
    u_ind u = RPC_HEADER_SZ \<and> (u_ok u \<longleftrightarrow> RPC_HEADER_SZ \<le> int (length b)) \<and>
    unpack_reply_header (new_unmarshall b (int (length b))) = Some (r, v) \<and>
    (u_ok v \<longleftrightarrow> 12 \<le> length b) \<and>
    (u_ok (fst (take_in empty_unmarshall v)) \<longleftrightarrow> RPC_HEADER_SZ \<le> int (length b))"
proof -
  let ?u = "new_unmarshall b (int (length b))"
  have wf: "wf_reader ?u"
    using assms by (simp add: wf_reader_def new_unmarshall_def)
  obtain h u where "unpack_req_header ?u = Some (h, u)" "u_ind u = RPC_HEADER_SZ"
      "u_ok u \<longleftrightarrow> u_ok ?u \<and> u_sz ?u \<ge> RPC_HEADER_SZ"
    by (rule unpack_req_header_any [OF wf])
  moreover obtain r v where "unpack_reply_header ?u = Some (r, v)" "u_sz v = u_sz ?u"
      "u_ok v \<longleftrightarrow> u_ok ?u \<and> u_sz ?u \<ge> 12"
    by (rule unpack_reply_header_any [OF wf])
  ultimately show ?thesis
    by (simp add: new_unmarshall_def take_in_def u_take_buf_def)
qed

theorem header_of_any_message_witness:
  "\<exists>h u r v. unpack_req_header (new_unmarshall [1, 2, 3] (int (length [1 :: u8, 2, 3]))) = Some (h, u) \<and>
    u_ind u = RPC_HEADER_SZ \<and> (u_ok u \<longleftrightarrow> RPC_HEADER_SZ \<le> int (length [1 :: u8, 2, 3])) \<and>
    unpack_reply_header (new_unmarshall [1, 2, 3] (int (length [1 :: u8, 2, 3]))) = Some (r, v) \<and>
    (u_ok v \<longleftrightarrow> 12 \<le> length [1 :: u8, 2, 3]) \<and>
    (u_ok (fst (take_in empty_unmarshall v)) \<longleftrightarrow> RPC_HEADER_SZ \<le> int (length [1 :: u8, 2, 3]))"
  by (rule header_of_any_message) (simp add: fits_int_def int_max_def)

text \<open>
  The bound of a string is checked in \<open>unsigned int\<close>, where it can wrap: with a length word
  that reaches over \<open>2 ^ 32\<close> from the position of the reader, in any message, the check of
  \<open>unmarshall::rawbytes\<close> lets the string through and it is read from outside the buffer.
\<close>

theorem string_length_wraps:
  assumes "wf_unmarshall u" "u_ok u" "u_buf u = Some b" "length b < 2 ^ 31"
    and "u_rest u = be32 n @ r" "2 ^ 32 \<le> u_ind u + 4 + int (unat n)"
  shows "get_string s u = None"
proof -
  have "get_u32 u = Some (n, u_skip 4 u)"
    using assms(1,2,5) reads_get_u32 [of n] by (simp add: reads_def)
  moreover have "u_rawbytes s n (u_skip 4 u) = None"
  proof -
    let ?i = "u_ind u + 4"
    have sz: "u_sz u \<le> int (length b)" and i: "0 \<le> u_ind u" "?i \<le> u_sz u"
      using assms(1,2,3) u_rest_bound [OF assms(1)] assms(5)
      by (auto simp: wf_unmarshall_def wf_reader_def be32_def)
    have n: "int (unat n) < 2 ^ 32"
      using unsigned_less [of n, where 'a = int] by simp
    have sum: "word_of_int ?i + n = word_of_int (?i + int (unat n) - 2 ^ 32)"
      unfolding word_of_int_minus_2p32 by simp
    have "uint (word_of_int ?i + n) = ?i + int (unat n) - 2 ^ 32"
      unfolding sum using sz i n assms(4,6) by (intro uint_word_of_int_small) simp_all
    moreover have "uint (word_of_int (u_sz u) :: u32) = u_sz u"
      using sz i assms(4) by (intro uint_word_of_int_small) simp_all
    ultimately have "\<not> word_of_int ?i + n > word_of_int (u_sz u)"
      using n i by (simp only: linorder_not_less word_le_def)
    moreover have "\<not> nat ?i + unat n \<le> length b"
    proof -
      have "int (length b) < 2147483648" "4294967296 \<le> ?i + int (unat n)"
        using assms(4,6) by simp_all
      then show ?thesis
        using i by linarith
    qed
    ultimately show ?thesis
      using assms(3) by (simp add: u_rawbytes_def)
  qed
  ultimately show ?thesis
    using assms(2) by (simp add: get_string_def)
qed

theorem string_length_wraps_witness:
  "get_string [] (fst (take_in empty_unmarshall
      (new_unmarshall (replicate 24 0 @ be32 0xFFFFFFFF) 28))) = None"
  by (rule string_length_wraps [where b = "replicate 24 0 @ be32 0xFFFFFFFF" and n = "0xFFFFFFFF" and r = "[]"])
    (simp_all add: take_in_def u_take_buf_def new_unmarshall_def wf_unmarshall_def wf_reader_def
      u_rest_def fits_int_def int_max_def)

end
