(* ===== verification/Rpc_Stubs.thy ===== *)
theory Rpc_Stubs
  imports Wire_Codec
begin

text \<open>
  The typed layer of \<open>rpc/rpc.h\<close>: the templates \<open>rpcc::call\<close> that marshal the arguments of a
  call and unmarshal its result, and the classes \<open>h1\<close> inside the templates \<open>rpcs::reg\<close> that do
  the opposite around a method of the server. The operators \<open><<\<close> and \<open>>>\<close> of the argument and
  result types, and the transport \<open>rpcc::call1\<close>, are arguments of the definitions.
\<close>

section \<open>Return codes\<close>

definition rpc_bind :: u32 where "rpc_bind = 1"
definition timeout_failure :: u32 where "timeout_failure = -1"
definition unmarshal_args_failure :: u32 where "unmarshal_args_failure = -2"
definition unmarshal_reply_failure :: u32 where "unmarshal_reply_failure = -3"
definition atmostonce_failure :: u32 where "atmostonce_failure = -4"
definition oldsrv_failure :: u32 where "oldsrv_failure = -5"
definition bind_failure :: u32 where "bind_failure = -6"

lemmas rpc_const_defs = rpc_bind_def timeout_failure_def unmarshal_args_failure_def
  unmarshal_reply_failure_def atmostonce_failure_def oldsrv_failure_def bind_failure_def

type_synonym 'a writer = "'a \<Rightarrow> marshall \<Rightarrow> marshall option"
type_synonym 'a reader = "unmarshall \<Rightarrow> ('a \<times> unmarshall) option"

text \<open>A handler reads the arguments, runs its method on the state of the server, and writes the result.\<close>

type_synonym 's handler = "unmarshall \<Rightarrow> marshall \<Rightarrow> 's \<Rightarrow> (u32 \<times> marshall \<times> 's) option"

section \<open>Server side\<close>

text \<open>
  The end of every \<open>fn\<close>: the arguments have to be there, and nothing else; then the method runs.
  The result variable starts with whatever it holds, \<open>r0\<close>, and the method may leave it so.
  \<open>None\<close> is a method that does not return: it fails an assertion, or it waits.
\<close>

definition handler_end :: "'r writer \<Rightarrow> 'r \<Rightarrow> ('r \<Rightarrow> 's \<Rightarrow> (u32 \<times> 'r \<times> 's) option)
    \<Rightarrow> unmarshall \<Rightarrow> marshall \<Rightarrow> 's \<Rightarrow> (u32 \<times> marshall \<times> 's) option" where
  "handler_end put_r r0 meth args ret s =
     (if \<not> u_okdone args then Some (unmarshal_args_failure, ret, s)
      else do { (b, r, s) \<leftarrow> meth r0 s; ret \<leftarrow> put_r r ret; Some (b, ret, s) })"

definition handler1 :: "'a1 reader \<Rightarrow> 'r writer \<Rightarrow> 'r \<Rightarrow> ('a1 \<Rightarrow> 'r \<Rightarrow> 's \<Rightarrow> (u32 \<times> 'r \<times> 's) option)
    \<Rightarrow> 's handler" where
  "handler1 get1 put_r r0 meth args ret s = do {
     (a1, args) \<leftarrow> get1 args;
     handler_end put_r r0 (meth a1) args ret s
   }"

definition handler2 :: "'a1 reader \<Rightarrow> 'a2 reader \<Rightarrow> 'r writer \<Rightarrow> 'r
    \<Rightarrow> ('a1 \<Rightarrow> 'a2 \<Rightarrow> 'r \<Rightarrow> 's \<Rightarrow> (u32 \<times> 'r \<times> 's) option) \<Rightarrow> 's handler" where
  "handler2 get1 get2 put_r r0 meth args ret s = do {
     (a1, args) \<leftarrow> get1 args;
     (a2, args) \<leftarrow> get2 args;
     handler_end put_r r0 (meth a1 a2) args ret s
   }"

definition handler3 :: "'a1 reader \<Rightarrow> 'a2 reader \<Rightarrow> 'a3 reader \<Rightarrow> 'r writer \<Rightarrow> 'r
    \<Rightarrow> ('a1 \<Rightarrow> 'a2 \<Rightarrow> 'a3 \<Rightarrow> 'r \<Rightarrow> 's \<Rightarrow> (u32 \<times> 'r \<times> 's) option) \<Rightarrow> 's handler" where
  "handler3 get1 get2 get3 put_r r0 meth args ret s = do {
     (a1, args) \<leftarrow> get1 args;
     (a2, args) \<leftarrow> get2 args;
     (a3, args) \<leftarrow> get3 args;
     handler_end put_r r0 (meth a1 a2 a3) args ret s
   }"

definition handler4 :: "'a1 reader \<Rightarrow> 'a2 reader \<Rightarrow> 'a3 reader \<Rightarrow> 'a4 reader \<Rightarrow> 'r writer \<Rightarrow> 'r
    \<Rightarrow> ('a1 \<Rightarrow> 'a2 \<Rightarrow> 'a3 \<Rightarrow> 'a4 \<Rightarrow> 'r \<Rightarrow> 's \<Rightarrow> (u32 \<times> 'r \<times> 's) option) \<Rightarrow> 's handler" where
  "handler4 get1 get2 get3 get4 put_r r0 meth args ret s = do {
     (a1, args) \<leftarrow> get1 args;
     (a2, args) \<leftarrow> get2 args;
     (a3, args) \<leftarrow> get3 args;
     (a4, args) \<leftarrow> get4 args;
     handler_end put_r r0 (meth a1 a2 a3 a4) args ret s
   }"

definition handler5 :: "'a1 reader \<Rightarrow> 'a2 reader \<Rightarrow> 'a3 reader \<Rightarrow> 'a4 reader \<Rightarrow> 'a5 reader
    \<Rightarrow> 'r writer \<Rightarrow> 'r
    \<Rightarrow> ('a1 \<Rightarrow> 'a2 \<Rightarrow> 'a3 \<Rightarrow> 'a4 \<Rightarrow> 'a5 \<Rightarrow> 'r \<Rightarrow> 's \<Rightarrow> (u32 \<times> 'r \<times> 's) option) \<Rightarrow> 's handler" where
  "handler5 get1 get2 get3 get4 get5 put_r r0 meth args ret s = do {
     (a1, args) \<leftarrow> get1 args;
     (a2, args) \<leftarrow> get2 args;
     (a3, args) \<leftarrow> get3 args;
     (a4, args) \<leftarrow> get4 args;
     (a5, args) \<leftarrow> get5 args;
     handler_end put_r r0 (meth a1 a2 a3 a4 a5) args ret s
   }"

definition handler6 :: "'a1 reader \<Rightarrow> 'a2 reader \<Rightarrow> 'a3 reader \<Rightarrow> 'a4 reader \<Rightarrow> 'a5 reader
    \<Rightarrow> 'a6 reader \<Rightarrow> 'r writer \<Rightarrow> 'r
    \<Rightarrow> ('a1 \<Rightarrow> 'a2 \<Rightarrow> 'a3 \<Rightarrow> 'a4 \<Rightarrow> 'a5 \<Rightarrow> 'a6 \<Rightarrow> 'r \<Rightarrow> 's \<Rightarrow> (u32 \<times> 'r \<times> 's) option) \<Rightarrow> 's handler" where
  "handler6 get1 get2 get3 get4 get5 get6 put_r r0 meth args ret s = do {
     (a1, args) \<leftarrow> get1 args;
     (a2, args) \<leftarrow> get2 args;
     (a3, args) \<leftarrow> get3 args;
     (a4, args) \<leftarrow> get4 args;
     (a5, args) \<leftarrow> get5 args;
     (a6, args) \<leftarrow> get6 args;
     handler_end put_r r0 (meth a1 a2 a3 a4 a5 a6) args ret s
   }"

definition handler7 :: "'a1 reader \<Rightarrow> 'a2 reader \<Rightarrow> 'a3 reader \<Rightarrow> 'a4 reader \<Rightarrow> 'a5 reader
    \<Rightarrow> 'a6 reader \<Rightarrow> 'a7 reader \<Rightarrow> 'r writer \<Rightarrow> 'r
    \<Rightarrow> ('a1 \<Rightarrow> 'a2 \<Rightarrow> 'a3 \<Rightarrow> 'a4 \<Rightarrow> 'a5 \<Rightarrow> 'a6 \<Rightarrow> 'a7 \<Rightarrow> 'r \<Rightarrow> 's \<Rightarrow> (u32 \<times> 'r \<times> 's) option)
    \<Rightarrow> 's handler" where
  "handler7 get1 get2 get3 get4 get5 get6 get7 put_r r0 meth args ret s = do {
     (a1, args) \<leftarrow> get1 args;
     (a2, args) \<leftarrow> get2 args;
     (a3, args) \<leftarrow> get3 args;
     (a4, args) \<leftarrow> get4 args;
     (a5, args) \<leftarrow> get5 args;
     (a6, args) \<leftarrow> get6 args;
     (a7, args) \<leftarrow> get7 args;
     handler_end put_r r0 (meth a1 a2 a3 a4 a5 a6 a7) args ret s
   }"

section \<open>Client side\<close>

text \<open>
  \<open>net proc req w\<close> stands for \<open>call1\<close>: it hands the request to the network \<open>w\<close> and returns with
  the status and the reader of the reply. The result is read into the variable of the caller,
  whose old value is \<open>r\<close>.
\<close>

type_synonym 'w net = "u32 \<Rightarrow> marshall \<Rightarrow> 'w \<Rightarrow> (u32 \<times> unmarshall \<times> 'w) option"

definition call_m :: "'w net \<Rightarrow> ('r \<Rightarrow> 'r reader) \<Rightarrow> u32 \<Rightarrow> marshall \<Rightarrow> 'r \<Rightarrow> 'w
    \<Rightarrow> (u32 \<times> 'r \<times> 'w) option" where
  "call_m net get_r proc req r w = do {
     (intret, u, w) \<leftarrow> net proc req w;
     (if sint intret < 0 then Some (intret, r, w)
      else do {
        (r, u) \<leftarrow> get_r r u;
        Some (if \<not> u_okdone u then unmarshal_reply_failure else intret, r, w)
      })
   }"

definition call_0 :: "'w net \<Rightarrow> (nat \<Rightarrow> u8) \<Rightarrow> ('r \<Rightarrow> 'r reader) \<Rightarrow> u32 \<Rightarrow> 'r \<Rightarrow> 'w
    \<Rightarrow> (u32 \<times> 'r \<times> 'w) option" where
  "call_0 net g get_r proc r w = call_m net get_r proc (new_marshall g) r w"

definition call_1 :: "'w net \<Rightarrow> (nat \<Rightarrow> u8) \<Rightarrow> 'a1 writer \<Rightarrow> ('r \<Rightarrow> 'r reader) \<Rightarrow> u32 \<Rightarrow> 'a1 \<Rightarrow> 'r \<Rightarrow> 'w
    \<Rightarrow> (u32 \<times> 'r \<times> 'w) option" where
  "call_1 net g put1 get_r proc a1 r w = do {
     m \<leftarrow> put1 a1 (new_marshall g);
     call_m net get_r proc m r w
   }"

definition call_2 :: "'w net \<Rightarrow> (nat \<Rightarrow> u8) \<Rightarrow> 'a1 writer \<Rightarrow> 'a2 writer \<Rightarrow> ('r \<Rightarrow> 'r reader) \<Rightarrow> u32
    \<Rightarrow> 'a1 \<Rightarrow> 'a2 \<Rightarrow> 'r \<Rightarrow> 'w \<Rightarrow> (u32 \<times> 'r \<times> 'w) option" where
  "call_2 net g put1 put2 get_r proc a1 a2 r w = do {
     m \<leftarrow> put1 a1 (new_marshall g);
     m \<leftarrow> put2 a2 m;
     call_m net get_r proc m r w
   }"

definition call_3 :: "'w net \<Rightarrow> (nat \<Rightarrow> u8) \<Rightarrow> 'a1 writer \<Rightarrow> 'a2 writer \<Rightarrow> 'a3 writer
    \<Rightarrow> ('r \<Rightarrow> 'r reader) \<Rightarrow> u32 \<Rightarrow> 'a1 \<Rightarrow> 'a2 \<Rightarrow> 'a3 \<Rightarrow> 'r \<Rightarrow> 'w \<Rightarrow> (u32 \<times> 'r \<times> 'w) option" where
  "call_3 net g put1 put2 put3 get_r proc a1 a2 a3 r w = do {
     m \<leftarrow> put1 a1 (new_marshall g);
     m \<leftarrow> put2 a2 m;
     m \<leftarrow> put3 a3 m;
     call_m net get_r proc m r w
   }"

definition call_4 :: "'w net \<Rightarrow> (nat \<Rightarrow> u8) \<Rightarrow> 'a1 writer \<Rightarrow> 'a2 writer \<Rightarrow> 'a3 writer \<Rightarrow> 'a4 writer
    \<Rightarrow> ('r \<Rightarrow> 'r reader) \<Rightarrow> u32 \<Rightarrow> 'a1 \<Rightarrow> 'a2 \<Rightarrow> 'a3 \<Rightarrow> 'a4 \<Rightarrow> 'r \<Rightarrow> 'w
    \<Rightarrow> (u32 \<times> 'r \<times> 'w) option" where
  "call_4 net g put1 put2 put3 put4 get_r proc a1 a2 a3 a4 r w = do {
     m \<leftarrow> put1 a1 (new_marshall g);
     m \<leftarrow> put2 a2 m;
     m \<leftarrow> put3 a3 m;
     m \<leftarrow> put4 a4 m;
     call_m net get_r proc m r w
   }"

definition call_5 :: "'w net \<Rightarrow> (nat \<Rightarrow> u8) \<Rightarrow> 'a1 writer \<Rightarrow> 'a2 writer \<Rightarrow> 'a3 writer \<Rightarrow> 'a4 writer
    \<Rightarrow> 'a5 writer \<Rightarrow> ('r \<Rightarrow> 'r reader) \<Rightarrow> u32 \<Rightarrow> 'a1 \<Rightarrow> 'a2 \<Rightarrow> 'a3 \<Rightarrow> 'a4 \<Rightarrow> 'a5 \<Rightarrow> 'r \<Rightarrow> 'w
    \<Rightarrow> (u32 \<times> 'r \<times> 'w) option" where
  "call_5 net g put1 put2 put3 put4 put5 get_r proc a1 a2 a3 a4 a5 r w = do {
     m \<leftarrow> put1 a1 (new_marshall g);
     m \<leftarrow> put2 a2 m;
     m \<leftarrow> put3 a3 m;
     m \<leftarrow> put4 a4 m;
     m \<leftarrow> put5 a5 m;
     call_m net get_r proc m r w
   }"

definition call_6 :: "'w net \<Rightarrow> (nat \<Rightarrow> u8) \<Rightarrow> 'a1 writer \<Rightarrow> 'a2 writer \<Rightarrow> 'a3 writer \<Rightarrow> 'a4 writer
    \<Rightarrow> 'a5 writer \<Rightarrow> 'a6 writer \<Rightarrow> ('r \<Rightarrow> 'r reader) \<Rightarrow> u32
    \<Rightarrow> 'a1 \<Rightarrow> 'a2 \<Rightarrow> 'a3 \<Rightarrow> 'a4 \<Rightarrow> 'a5 \<Rightarrow> 'a6 \<Rightarrow> 'r \<Rightarrow> 'w \<Rightarrow> (u32 \<times> 'r \<times> 'w) option" where
  "call_6 net g put1 put2 put3 put4 put5 put6 get_r proc a1 a2 a3 a4 a5 a6 r w = do {
     m \<leftarrow> put1 a1 (new_marshall g);
     m \<leftarrow> put2 a2 m;
     m \<leftarrow> put3 a3 m;
     m \<leftarrow> put4 a4 m;
     m \<leftarrow> put5 a5 m;
     m \<leftarrow> put6 a6 m;
     call_m net get_r proc m r w
   }"

definition call_7 :: "'w net \<Rightarrow> (nat \<Rightarrow> u8) \<Rightarrow> 'a1 writer \<Rightarrow> 'a2 writer \<Rightarrow> 'a3 writer \<Rightarrow> 'a4 writer
    \<Rightarrow> 'a5 writer \<Rightarrow> 'a6 writer \<Rightarrow> 'a7 writer \<Rightarrow> ('r \<Rightarrow> 'r reader) \<Rightarrow> u32
    \<Rightarrow> 'a1 \<Rightarrow> 'a2 \<Rightarrow> 'a3 \<Rightarrow> 'a4 \<Rightarrow> 'a5 \<Rightarrow> 'a6 \<Rightarrow> 'a7 \<Rightarrow> 'r \<Rightarrow> 'w \<Rightarrow> (u32 \<times> 'r \<times> 'w) option" where
  "call_7 net g put1 put2 put3 put4 put5 put6 put7 get_r proc a1 a2 a3 a4 a5 a6 a7 r w = do {
     m \<leftarrow> put1 a1 (new_marshall g);
     m \<leftarrow> put2 a2 m;
     m \<leftarrow> put3 a3 m;
     m \<leftarrow> put4 a4 m;
     m \<leftarrow> put5 a5 m;
     m \<leftarrow> put6 a6 m;
     m \<leftarrow> put7 a7 m;
     call_m net get_r proc m r w
   }"

section \<open>One argument is enough\<close>

text \<open>Several arguments are one argument: the nested tuple of them.\<close>

lemma handler_tuples:
  "handler2 g1 g2 p r0 m2 = handler1 (get_pair g1 g2) p r0 (\<lambda>(a, b). m2 a b)"
  "handler3 g1 g2 g3 p r0 m3 = handler2 g1 (get_pair g2 g3) p r0 (\<lambda>a (b, c). m3 a b c)"
  "handler4 g1 g2 g3 g4 p r0 m4 = handler3 g1 g2 (get_pair g3 g4) p r0 (\<lambda>a b (c, d). m4 a b c d)"
  "handler5 g1 g2 g3 g4 g5 p r0 m5
     = handler4 g1 g2 g3 (get_pair g4 g5) p r0 (\<lambda>a b c (d, e). m5 a b c d e)"
  "handler6 g1 g2 g3 g4 g5 g6 p r0 m6
     = handler5 g1 g2 g3 g4 (get_pair g5 g6) p r0 (\<lambda>a b c d (e, f). m6 a b c d e f)"
  "handler7 g1 g2 g3 g4 g5 g6 g7 p r0 m7
     = handler6 g1 g2 g3 g4 g5 (get_pair g6 g7) p r0 (\<lambda>a b c d e (f, g). m7 a b c d e f g)"
  by (intro ext; simp add: handler1_def handler2_def handler3_def handler4_def handler5_def
      handler6_def handler7_def get_pair_def split_def bind_assoc)+

lemma call_tuples:
  "call_2 net g p1 p2 gr proc a b = call_1 net g (put_pair p1 p2) gr proc (a, b)"
  "call_3 net g p1 p2 p3 gr proc a b c = call_2 net g p1 (put_pair p2 p3) gr proc a (b, c)"
  "call_4 net g p1 p2 p3 p4 gr proc a b c d = call_3 net g p1 p2 (put_pair p3 p4) gr proc a b (c, d)"
  "call_5 net g p1 p2 p3 p4 p5 gr proc a b c d e
     = call_4 net g p1 p2 p3 (put_pair p4 p5) gr proc a b c (d, e)"
  "call_6 net g p1 p2 p3 p4 p5 p6 gr proc a b c d e f
     = call_5 net g p1 p2 p3 p4 (put_pair p5 p6) gr proc a b c d (e, f)"
  "call_7 net g p1 p2 p3 p4 p5 p6 p7 gr proc a b c d e f h
     = call_6 net g p1 p2 p3 p4 p5 (put_pair p6 p7) gr proc a b c d e (f, h)"
  by (intro ext; simp add: call_1_def call_2_def call_3_def call_4_def call_5_def
      call_6_def call_7_def put_pair_def)+

section \<open>The contract of the transport\<close>

text \<open>
  What a typed call relies on of \<open>call1\<close>: the bytes of the arguments reach the handler of the
  procedure, which runs once, and the bytes of its result come back with its status. The
  transport may be able to do so a number of times only, \<open>ready k\<close> says it has \<open>k\<close> calls left,
  \<open>allowed\<close> says which procedures may be called, and \<open>fixed\<close> is what calls leave alone.
\<close>

locale rpc_transport =
  fixes net :: "'w net"
    and procs :: "'w \<Rightarrow> u32 \<rightharpoonup> 's handler"
    and app :: "'w \<Rightarrow> 's"
    and ready :: "nat \<Rightarrow> 'w \<Rightarrow> bool"
    and allowed :: "'w \<Rightarrow> u32 \<Rightarrow> bool"
    and fixed :: "'w \<Rightarrow> 'i"
  assumes delivers:
    "ready (Suc k) w \<Longrightarrow> allowed w proc \<Longrightarrow> procs w proc = Some f \<Longrightarrow>
     wf_marshall req \<Longrightarrow> m_bytes req = pre @ args \<Longrightarrow> length pre = 24 \<Longrightarrow> m_ind req \<le> msg_limit \<Longrightarrow>
     (\<And>u g. wf_unmarshall u \<Longrightarrow> u_ok u \<Longrightarrow> u_rest u = args \<Longrightarrow>
       \<exists>rep pre'. f u (new_marshall g) (app w) = Some (b, rep, s') \<and> wf_marshall rep \<and>
         m_bytes rep = pre' @ res \<and> length pre' = 24) \<Longrightarrow>
     24 + int (length res) \<le> msg_limit \<Longrightarrow> 0 \<le> sint b \<or> b = unmarshal_args_failure \<Longrightarrow>
     \<exists>u w'. net proc req w = Some (b, u, w') \<and> wf_unmarshall u \<and> u_ok u \<and> u_rest u = res \<and>
       app w' = s' \<and> procs w' = procs w \<and> ready k w' \<and> fixed w' = fixed w"
begin

lemma request_written:
  assumes "emits (put_a a) ea" "24 + int (length ea) \<le> msg_limit"
  obtains req where "put_a a (new_marshall g) = Some req" "wf_marshall req"
    "m_bytes req = m_bytes (new_marshall g) @ ea" "m_ind req \<le> msg_limit"
proof -
  obtain req where req: "put_a a (new_marshall g) = Some req" "wf_marshall req"
      "m_bytes req = m_bytes (new_marshall g) @ ea"
    by (rule emitsE [OF assms(1) wf_new_marshall]) (use assms(2) in \<open>simp add: new_marshall_ind\<close>)
  show thesis
    by (rule that [OF req]) (use m_ind_append [OF wf_new_marshall req(2,3)] assms(2) in \<open>simp add: new_marshall_ind\<close>)
qed

lemma reads_to_end:
  assumes "reads get x bs" "wf_unmarshall u" "u_ok u" "u_rest u = bs" "bs \<noteq> []"
  shows "\<exists>u'. get u = Some (x, u') \<and> u_okdone u'"
proof -
  have "get u = Some (x, u_skip (length bs) u)"
    using assms(1-4) unfolding reads_def by (metis append_Nil2)
  moreover have "u_ind u + int (length bs) = u_sz u"
    using u_rest_bound [OF assms(2)] assms(4,5) by simp
  ultimately show ?thesis
    using assms(3) by (simp add: u_okdone_def)
qed

text \<open>A typed call is a call of the method, on the state of the server.\<close>

lemma typed_call:
  assumes "ready (Suc k) w" "allowed w proc"
    and "procs w proc = Some (handler1 get_a put_r r0 meth)" "meth a r0 (app w) = Some (b, r, s')"
    and args: "emits (put_a a) ea" "reads get_a a ea" "24 + int (length ea) \<le> msg_limit" "ea \<noteq> []"
    and res: "emits (put_r r) er" "reads (get_r old) r er" "24 + int (length er) \<le> msg_limit" "er \<noteq> []"
    and "0 \<le> sint b"
  shows "\<exists>w'. call_1 net g put_a get_r proc a old w = Some (b, r, w') \<and> app w' = s' \<and>
    procs w' = procs w \<and> ready k w' \<and> fixed w' = fixed w"
proof -
  obtain req where req: "put_a a (new_marshall g) = Some req" "wf_marshall req"
      "m_bytes req = m_bytes (new_marshall g) @ ea" and ind: "m_ind req \<le> msg_limit"
    by (rule request_written [of put_a a ea g, OF args(1,3)])
  have run: "\<exists>rep pre'. handler1 get_a put_r r0 meth u (new_marshall g') (app w) = Some (b, rep, s') \<and>
      wf_marshall rep \<and> m_bytes rep = pre' @ er \<and> length pre' = 24"
    if u: "wf_unmarshall u" "u_ok u" "u_rest u = ea" for u g'
  proof -
    obtain u' where u': "get_a u = Some (a, u')" "u_okdone u'"
      using reads_to_end [OF args(2) u args(4)] by blast
    obtain rep where "put_r r (new_marshall g') = Some rep" "wf_marshall rep"
        "m_bytes rep = m_bytes (new_marshall g') @ er"
      by (rule emitsE [OF res(1) wf_new_marshall]) (use res(3) in \<open>simp add: new_marshall_ind\<close>)
    with u' assms(4) new_marshall_bytes show ?thesis
      by (auto simp: handler1_def handler_end_def)
  qed
  obtain u w' where net: "net proc req w = Some (b, u, w')" "wf_unmarshall u" "u_ok u" "u_rest u = er"
      "app w' = s'" "procs w' = procs w" "ready k w'" "fixed w' = fixed w"
    using delivers [OF assms(1-3) req(2,3) new_marshall_bytes ind run res(3) disjI1 [OF assms(13)]] by blast
  obtain u' where "get_r old u = Some (r, u')" "u_okdone u'"
    using reads_to_end [OF res(2) net(2-4) res(4)] by blast
  with net assms(13) req(1) show ?thesis
    by (simp add: call_1_def call_m_def)
qed

text \<open>
  A call whose arguments are not those of the method, too few, too many or of other types, comes
  back with a failure; the method does not run and the variable of the result is left alone.
\<close>

lemma mismatched_call:
  assumes "ready (Suc k) w" "allowed w proc" "procs w proc = Some (handler1 get_a put_r r0 meth)"
    and args: "emits (put_x x) ex" "24 + int (length ex) \<le> msg_limit"
    and bad: "\<And>u. wf_unmarshall u \<Longrightarrow> u_ok u \<Longrightarrow> u_rest u = ex \<Longrightarrow>
      \<exists>a u'. get_a u = Some (a, u') \<and> \<not> u_okdone u'"
  shows "\<exists>w'. call_1 net g put_x get_r proc x old w = Some (unmarshal_args_failure, old, w') \<and> app w' = app w \<and>
    procs w' = procs w \<and> ready k w' \<and> fixed w' = fixed w"
proof -
  obtain req where req: "put_x x (new_marshall g) = Some req" "wf_marshall req"
      "m_bytes req = m_bytes (new_marshall g) @ ex" and ind: "m_ind req \<le> msg_limit"
    by (rule request_written [of put_x x ex g, OF args])
  have run: "\<exists>rep pre'. handler1 get_a put_r r0 meth u (new_marshall g') (app w)
        = Some (unmarshal_args_failure, rep, app w) \<and>
      wf_marshall rep \<and> m_bytes rep = pre' @ [] \<and> length pre' = 24"
    if u: "wf_unmarshall u" "u_ok u" "u_rest u = ex" for u g'
  proof -
    obtain a u' where "get_a u = Some (a, u')" "\<not> u_okdone u'"
      using bad [OF u] by blast
    then show ?thesis
      by (intro exI [of _ "new_marshall g'"] exI [of _ "m_bytes (new_marshall g')"])
        (simp add: handler1_def handler_end_def wf_new_marshall new_marshall_bytes)
  qed
  have empty: "24 + int (length ([] :: u8 list)) \<le> msg_limit"
    by (simp add: msg_limit_def)
  obtain u w' where net: "net proc req w = Some (unmarshal_args_failure, u, w')"
      "app w' = app w" "procs w' = procs w" "ready k w'" "fixed w' = fixed w"
    using delivers [OF assms(1-3) req(2,3) new_marshall_bytes ind run empty disjI2 [OF refl]] by blast
  have "sint unmarshal_args_failure < 0"
    by (simp add: unmarshal_args_failure_def)
  with net req(1) show ?thesis
    by (simp add: call_1_def call_m_def)
qed

end

end
