(* ===== verification/Reply_Window.thy ===== *)
theory Reply_Window
  imports Prelude
begin

text \<open>
  The reply window of \<open>rpcs\<close> in \<open>rpc/rpc.h\<close> and \<open>rpc/rpc.cc\<close>: for each client that asks for
  at-most-once semantics, the requests the server has seen and the client has not
  acknowledged, with the replies to those it has finished. The reply buffers live in an
  explicit heap, so that freeing a buffer twice, using it after it was freed, and leaking it
  can be told.
\<close>

section \<open>State\<close>

type_synonym addr = nat
type_synonym heap = "addr \<rightharpoonup> u8 list"

datatype rpcstate_t = NEW | INPROGRESS | DONE | FORGOTTEN

record reply_t =
  rt_xid :: u32
  rt_cb_present :: bool
  rt_buf :: "addr option"
  rt_sz :: int

definition new_reply :: "u32 \<Rightarrow> reply_t" where
  "new_reply xid = \<lparr>rt_xid = xid, rt_cb_present = False, rt_buf = None, rt_sz = 0\<rparr>"

record reply_state =
  reply_window :: "u32 \<rightharpoonup> reply_t list"
  rheap :: heap

definition empty_replies :: reply_state where
  "empty_replies = \<lparr>reply_window = (\<lambda>_. None), rheap = (\<lambda>_. None)\<rparr>"

text \<open>\<open>free\<close> of a null pointer does nothing, of a pointer that is not allocated it is undefined.\<close>

definition free_buf :: "addr option \<Rightarrow> heap \<Rightarrow> heap option" where
  "free_buf p h =
     (case p of
        None \<Rightarrow> Some h
      | Some a \<Rightarrow> if h a = None then None else Some (h(a := None)))"

section \<open>Operations\<close>

text \<open>The loop that removes the entries the client has acknowledged.\<close>

fun remove_confirmed :: "u32 \<Rightarrow> reply_t list \<Rightarrow> heap \<Rightarrow> (reply_t list \<times> heap) option" where
  "remove_confirmed xid_rep [] h = Some ([], h)"
| "remove_confirmed xid_rep (r # l) h =
     (if rt_xid r < xid_rep
      then do { h \<leftarrow> free_buf (rt_buf r) h; remove_confirmed xid_rep l h }
      else do { (l, h) \<leftarrow> remove_confirmed xid_rep l h; Some (r # l, h) })"

text \<open>
  The result carries the buffer and size the code stores through \<open>b\<close> and \<open>sz\<close>, which it
  does for \<open>DONE\<close> only.
\<close>

definition checkduplicate_and_update :: "u32 \<Rightarrow> u32 \<Rightarrow> u32 \<Rightarrow> reply_state
    \<Rightarrow> (rpcstate_t \<times> (addr option \<times> int) option \<times> reply_state) option" where
  "checkduplicate_and_update clt_nonce xid xid_rep w =
     (if xid \<le> xid_rep then Some (FORGOTTEN, None, w)
      else
        let l = (case reply_window w clt_nonce of None \<Rightarrow> [] | Some l \<Rightarrow> l) in do {
          (l, h) \<leftarrow> remove_confirmed xid_rep l (rheap w);
          (case find (\<lambda>reply. rt_xid reply = xid) l of
             Some r \<Rightarrow>
               let w = w\<lparr>reply_window := (reply_window w)(clt_nonce \<mapsto> l), rheap := h\<rparr> in
               if rt_cb_present r then Some (DONE, Some (rt_buf r, rt_sz r), w)
               else Some (INPROGRESS, None, w)
           | None \<Rightarrow>
               Some (NEW, None,
                 w\<lparr>reply_window := (reply_window w)(clt_nonce \<mapsto> l @ [new_reply xid]),
                   rheap := h\<rparr>))
        })"

text \<open>The first entry with the id is filled in; without one the reply is dropped.\<close>

fun fill_reply :: "u32 \<Rightarrow> addr option \<Rightarrow> int \<Rightarrow> reply_t list \<Rightarrow> reply_t list" where
  "fill_reply xid b sz [] = []"
| "fill_reply xid b sz (r # l) =
     (if rt_xid r = xid then r\<lparr>rt_cb_present := True, rt_buf := b, rt_sz := sz\<rparr> # l
      else r # fill_reply xid b sz l)"

text \<open>\<open>at\<close> throws when the client is unknown.\<close>

definition add_reply :: "u32 \<Rightarrow> u32 \<Rightarrow> addr option \<Rightarrow> int \<Rightarrow> reply_state \<Rightarrow> reply_state option" where
  "add_reply clt_nonce xid b sz w =
     (case reply_window w clt_nonce of
        None \<Rightarrow> None
      | Some l \<Rightarrow> Some (w\<lparr>reply_window := (reply_window w)(clt_nonce \<mapsto> fill_reply xid b sz l)\<rparr>))"

text \<open>The destructor frees the buffers of all clients, in the order of the map.\<close>

fun free_replies :: "reply_t list \<Rightarrow> heap \<Rightarrow> heap option" where
  "free_replies [] h = Some h"
| "free_replies (r # l) h = do { h \<leftarrow> free_buf (rt_buf r) h; free_replies l h }"

fun free_clients :: "u32 list \<Rightarrow> (u32 \<rightharpoonup> reply_t list) \<Rightarrow> heap \<Rightarrow> heap option" where
  "free_clients [] rw h = Some h"
| "free_clients (c # cs) rw h = do {
     h \<leftarrow> free_replies (case rw c of None \<Rightarrow> [] | Some l \<Rightarrow> l) h;
     free_clients cs rw h
   }"

definition free_reply_window :: "reply_state \<Rightarrow> reply_state option" where
  "free_reply_window w = do {
     h \<leftarrow> free_clients (sorted_list_of_set (dom (reply_window w))) (reply_window w) (rheap w);
     Some \<lparr>reply_window = (\<lambda>_. None), rheap = h\<rparr>
   }"

text \<open>
  The end of a request in \<open>dispatch\<close>: the reply is taken out of its writer as a block \<open>a\<close> of
  memory nobody else uses, and recorded.
\<close>

definition save_reply :: "u32 \<Rightarrow> u32 \<Rightarrow> addr \<times> u8 list \<Rightarrow> reply_state \<Rightarrow> reply_state option" where
  "save_reply clt_nonce xid ab w =
     (if rheap w (fst ab) \<noteq> None then None
      else add_reply clt_nonce xid (Some (fst ab)) (int (length (snd ab)))
             (w\<lparr>rheap := (rheap w)(fst ab \<mapsto> snd ab)\<rparr>))"

section \<open>The contract of duplicate elimination\<close>

text \<open>
  The requests \<open>Req client xid xid_rep\<close> and the ends of requests \<open>Rep client xid reply\<close>, in
  the order in which the worker threads take the mutex of the window.
\<close>

datatype 'b window_event = Req u32 u32 u32 | Rep u32 u32 'b

locale dedup_window =
  fixes check :: "u32 \<Rightarrow> u32 \<Rightarrow> u32 \<Rightarrow> 'w \<Rightarrow> (rpcstate_t \<times> 'w) option"
    and save :: "u32 \<Rightarrow> u32 \<Rightarrow> 'b \<Rightarrow> 'w \<Rightarrow> 'w option"
    and known :: "'w \<Rightarrow> u32 \<Rightarrow> u32 \<Rightarrow> bool"
  assumes new_unknown: "check c x r w = Some (NEW, w') \<Longrightarrow> \<not> known w c x"
    and new_known: "check c x r w = Some (NEW, w') \<Longrightarrow> known w' c x"
    and check_keeps: "check c' y s w = Some (st, w') \<Longrightarrow> known w c x \<Longrightarrow>
      (c' = c \<Longrightarrow> s \<le> x) \<Longrightarrow> known w' c x"
    and check_old: "x \<le> r \<Longrightarrow> check c x r w = Some (FORGOTTEN, w)"
    and save_keeps: "save c' y b w = Some w' \<Longrightarrow> known w c x \<Longrightarrow> known w' c x"
begin

text \<open>What the window answers; a run that aborts ends there.\<close>

fun serve :: "'b window_event list \<Rightarrow> 'w \<Rightarrow> ('b window_event \<times> rpcstate_t option) list" where
  "serve [] w = []"
| "serve (Req c x r # es) w =
     (case check c x r w of None \<Rightarrow> []
      | Some (st, w') \<Rightarrow> (Req c x r, Some st) # serve es w')"
| "serve (Rep c x b # es) w =
     (case save c x b w of None \<Rightarrow> [] | Some w' \<Rightarrow> (Rep c x b, None) # serve es w')"

text \<open>A known request is not new again before its client acknowledges it.\<close>

lemma known_not_new:
  assumes "known w c x" "serve es w = mid @ (Req c x r, Some NEW) # post"
  shows "\<exists>y s st. (Req c y s, st) \<in> set mid \<and> x < s"
  using assms
proof (induction es w arbitrary: mid rule: serve.induct)
  case (2 c' y s es w)
  then obtain st w' where chk: "check c' y s w = Some (st, w')"
    and tr: "(Req c' y s, Some st) # serve es w' = mid @ (Req c x r, Some NEW) # post"
    by (auto split: option.splits)
  show ?case
  proof (cases "c' = c \<and> x < s")
    case True
    with tr chk "2.prems"(1) new_unknown show ?thesis
      by (cases mid) auto
  next
    case False
    then have kn: "known w' c x"
      using check_keeps [OF chk "2.prems"(1)] by force
    show ?thesis
    proof (cases mid)
      case Nil
      with tr chk "2.prems"(1) new_unknown show ?thesis
        by auto
    next
      case (Cons e mid')
      with tr have "serve es w' = mid' @ (Req c x r, Some NEW) # post"
        by simp
      with "2.IH" [OF chk refl kn] Cons show ?thesis
        by (metis list.set_intros(2))
    qed
  qed
next
  case (3 c' y b es w)
  then obtain w' where sv: "save c' y b w = Some w'"
    and tr: "(Rep c' y b, None) # serve es w' = mid @ (Req c x r, Some NEW) # post"
    by (auto split: option.splits)
  then obtain mid' where "mid = (Rep c' y b, None) # mid'"
      "serve es w' = mid' @ (Req c x r, Some NEW) # post"
    by (cases mid) auto
  with "3.IH" [OF sv save_keeps [OF sv "3.prems"(1)]] show ?case
    by (metis list.set_intros(2))
qed simp

lemma executed_twice:
  assumes "serve es w = pre @ (Req c x r, Some NEW) # mid @ (Req c x r', Some NEW) # post"
  shows "\<exists>y s st. (Req c y s, st) \<in> set mid \<and> x < s"
  using assms
proof (induction es w arbitrary: pre rule: serve.induct)
  case (2 c' y s es w)
  then obtain st w' where chk: "check c' y s w = Some (st, w')"
    and tr: "(Req c' y s, Some st) # serve es w'
      = pre @ (Req c x r, Some NEW) # mid @ (Req c x r', Some NEW) # post"
    by (auto split: option.splits)
  show ?case
  proof (cases pre)
    case Nil
    with tr chk have "known w' c x" "serve es w' = mid @ (Req c x r', Some NEW) # post"
      using new_known by auto
    then show ?thesis
      by (rule known_not_new)
  next
    case (Cons e pre')
    with tr "2.IH" [OF chk refl, of pre'] show ?thesis
      by simp
  qed
next
  case (3 c' y b es w)
  then obtain w' where sv: "save c' y b w = Some w'"
    and tr: "(Rep c' y b, None) # serve es w'
      = pre @ (Req c x r, Some NEW) # mid @ (Req c x r', Some NEW) # post"
    by (auto split: option.splits)
  then obtain pre' where "serve es w'
      = pre' @ (Req c x r, Some NEW) # mid @ (Req c x r', Some NEW) # post"
    by (cases pre) auto
  with "3.IH" [OF sv] show ?case
    by blast
qed simp

lemma new_above_rep:
  "(Req c x r, Some NEW) \<in> set (serve es w) \<Longrightarrow> r < x"
proof (induction es w rule: serve.induct)
  case (2 c' y s es w)
  from "2.prems" obtain st w' where chk: "check c' y s w = Some (st, w')"
    and mem: "(Req c x r, Some NEW) \<in> set ((Req c' y s, Some st) # serve es w')"
    by (cases "check c' y s w") auto
  show ?case
  proof (cases "(Req c x r, Some NEW) \<in> set (serve es w')")
    case True
    with "2.IH" [OF chk refl] show ?thesis .
  next
    case False
    with mem have "y = x" "s = r" "st = NEW"
      by auto
    with chk check_old [of x r c' w] show ?thesis
      by (cases "r < x") auto
  qed
next
  case (3 c' y b es w)
  then show ?case
    by (cases "save c' y b w") auto
qed simp

text \<open>What the window answers, it answers to the events it was given, in their order.\<close>

lemma serve_prefix: "\<exists>ys. es = map fst (serve es w) @ ys"
  by (induction es w rule: serve.induct) (auto split: option.splits)

end

section \<open>The window of the server\<close>

definition known :: "reply_state \<Rightarrow> u32 \<Rightarrow> u32 \<Rightarrow> bool" where
  "known w c x =
     (case reply_window w c of None \<Rightarrow> False | Some l \<Rightarrow> list_ex (\<lambda>r. rt_xid r = x) l)"

definition check_state :: "u32 \<Rightarrow> u32 \<Rightarrow> u32 \<Rightarrow> reply_state \<Rightarrow> (rpcstate_t \<times> reply_state) option" where
  "check_state c x r w =
     map_option (\<lambda>(st, _, w). (st, w)) (checkduplicate_and_update c x r w)"

lemma remove_confirmed_filter:
  "remove_confirmed s l h = Some (l', h') \<Longrightarrow> l' = filter (\<lambda>r. s \<le> rt_xid r) l"
  by (induction l arbitrary: l' h h')
    (auto simp: not_less split: if_splits Option.bind_splits)

text \<open>The entries of a client; a client that was never heard of has none.\<close>

definition entries :: "reply_state \<Rightarrow> u32 \<Rightarrow> reply_t list" where
  "entries w c = (case reply_window w c of None \<Rightarrow> [] | Some l \<Rightarrow> l)"

lemma known_entries: "known w c x \<longleftrightarrow> x \<in> rt_xid ` set (entries w c)"
  by (auto simp: known_def entries_def list_ex_iff split: option.splits)

lemma entries_update [simp]:
  "entries (w\<lparr>reply_window := (reply_window w)(c \<mapsto> l), rheap := h\<rparr>) c'
     = (if c' = c then l else entries w c')"
  "entries (w\<lparr>reply_window := (reply_window w)(c \<mapsto> l)\<rparr>) c'
     = (if c' = c then l else entries w c')"
  by (simp_all add: entries_def)

lemma checkduplicate_unfold:
  "s < x \<Longrightarrow> checkduplicate_and_update c x s w = do {
     (l, h) \<leftarrow> remove_confirmed s (entries w c) (rheap w);
     (case find (\<lambda>reply. rt_xid reply = x) l of
        Some r \<Rightarrow>
          let w = w\<lparr>reply_window := (reply_window w)(c \<mapsto> l), rheap := h\<rparr> in
          if rt_cb_present r then Some (DONE, Some (rt_buf r, rt_sz r), w)
          else Some (INPROGRESS, None, w)
      | None \<Rightarrow>
          Some (NEW, None,
            w\<lparr>reply_window := (reply_window w)(c \<mapsto> l @ [new_reply x]), rheap := h\<rparr>))
   }"
  by (simp add: checkduplicate_and_update_def entries_def flip: not_le)

text \<open>The three ways a request that is not too old can go.\<close>

lemma checkduplicate_cases:
  assumes "checkduplicate_and_update c x s w = Some (st, out, w')" and "s < x"
  obtains l h where
    "remove_confirmed s (entries w c) (rheap w) = Some (l, h)"
    "l = filter (\<lambda>r. s \<le> rt_xid r) (entries w c)"
    "find (\<lambda>r. rt_xid r = x) l = None" "st = NEW" "out = None"
    "w' = w\<lparr>reply_window := (reply_window w)(c \<mapsto> l @ [new_reply x]), rheap := h\<rparr>"
  | l h r where
    "remove_confirmed s (entries w c) (rheap w) = Some (l, h)"
    "l = filter (\<lambda>r. s \<le> rt_xid r) (entries w c)"
    "find (\<lambda>r. rt_xid r = x) l = Some r"
    "st = (if rt_cb_present r then DONE else INPROGRESS)"
    "out = (if rt_cb_present r then Some (rt_buf r, rt_sz r) else None)"
    "w' = w\<lparr>reply_window := (reply_window w)(c \<mapsto> l), rheap := h\<rparr>"
proof -
  have not_old: "\<not> x \<le> s"
    using assms(2) by simp
  with assms(1) obtain l h where
    rc: "remove_confirmed s (entries w c) (rheap w) = Some (l, h)"
    by (cases "remove_confirmed s (entries w c) (rheap w)")
      (auto simp: checkduplicate_and_update_def entries_def Let_def)
  with that assms show thesis
    by (cases "find (\<lambda>r. rt_xid r = x) l")
      (auto simp: checkduplicate_and_update_def entries_def [symmetric] Let_def not_le
        dest: remove_confirmed_filter split: if_splits)
qed

lemma checkduplicate_keeps_window:
  "checkduplicate_and_update c x s w = Some (st, out, w') \<Longrightarrow> reply_window w c' \<noteq> None \<Longrightarrow>
    reply_window w' c' \<noteq> None"
  by (auto simp: checkduplicate_and_update_def Let_def split: if_splits option.splits
      Option.bind_splits)

lemma checkduplicate_old:
  "x \<le> s \<Longrightarrow> checkduplicate_and_update c x s w = Some (FORGOTTEN, None, w)"
  by (simp add: checkduplicate_and_update_def)

lemma remove_confirmed_shrinks:
  "remove_confirmed s l h = Some (l', h') \<Longrightarrow> h a = None \<Longrightarrow> h' a = None"
  by (induction l arbitrary: l' h h')
    (auto simp: free_buf_def split: if_splits Option.bind_splits option.splits)

lemma checkduplicate_shrinks:
  assumes "checkduplicate_and_update c x s w = Some (st, out, w')" "rheap w a = None"
  shows "rheap w' a = None"
proof (cases "s < x")
  case True
  from assms(1) True show ?thesis
    by (cases rule: checkduplicate_cases) (use assms(2) in \<open>auto dest: remove_confirmed_shrinks\<close>)
next
  case False
  with assms checkduplicate_old [of x s c w] show ?thesis
    by auto
qed

lemma fill_reply_xids [simp]: "map rt_xid (fill_reply x b sz l) = map rt_xid l"
  by (induction l) auto

lemma fill_reply_xid_set [simp]: "rt_xid ` set (fill_reply x b sz l) = rt_xid ` set l"
  by (metis fill_reply_xids set_map)

text \<open>The ids the window knows afterwards were known before, or are that of the request.\<close>

lemma checkduplicate_known:
  assumes "checkduplicate_and_update c x s w = Some (st, out, w')" "known w' c' y"
  shows "known w c' y \<or> (c' = c \<and> y = x)"
proof (cases "s < x")
  case True
  from assms(1) True show ?thesis
    by (cases rule: checkduplicate_cases)
      (use assms(2) in \<open>auto simp: known_entries new_reply_def split: if_splits\<close>)
next
  case False
  with assms checkduplicate_old [of x s c w] show ?thesis
    by auto
qed

text \<open>The answers of the server's window to a sequence of events.\<close>

fun serve_window :: "(addr \<times> u8 list) window_event list \<Rightarrow> reply_state
    \<Rightarrow> ((addr \<times> u8 list) window_event \<times> rpcstate_t option) list" where
  "serve_window [] w = []"
| "serve_window (Req c x r # es) w =
     (case check_state c x r w of None \<Rightarrow> []
      | Some (st, w') \<Rightarrow> (Req c x r, Some st) # serve_window es w')"
| "serve_window (Rep c x b # es) w =
     (case save_reply c x b w of None \<Rightarrow> []
      | Some w' \<Rightarrow> (Rep c x b, None) # serve_window es w')"

lemma check_state_obtain:
  assumes "check_state c x s w = Some (st, w')"
  obtains out where "checkduplicate_and_update c x s w = Some (st, out, w')"
  using assms by (auto simp: check_state_def)

lemma save_reply_entries:
  assumes "save_reply c x b w = Some w'"
  shows "entries w' c' =
    (if c' = c then fill_reply x (Some (fst b)) (int (length (snd b))) (entries w c)
     else entries w c')"
  using assms
  by (auto simp: save_reply_def add_reply_def entries_def split: option.splits if_splits)

lemma save_reply_known: "save_reply c x b w = Some w' \<Longrightarrow> known w' c' y = known w c' y"
  by (simp add: known_entries save_reply_entries)

interpretation rw: dedup_window check_state save_reply known
proof
  fix c x r w w'
  assume chk: "check_state c x r w = Some (NEW, w')"
  then obtain out where cd: "checkduplicate_and_update c x r w = Some (NEW, out, w')"
    by (rule check_state_obtain)
  then have lt: "r < x"
    using checkduplicate_old [of x r c w] by (cases "r < x") auto
  from cd lt show "\<not> known w c x"
    using less_imp_le [OF lt]
    by (cases rule: checkduplicate_cases) (auto simp: known_entries find_None_iff split: if_splits)
  from cd lt show "known w' c x"
    by (cases rule: checkduplicate_cases) (auto simp: known_entries new_reply_def split: if_splits)
next
  fix c' y s w st w' c x
  assume chk: "check_state c' y s w = Some (st, w')" and kn: "known w c x"
    and ack: "c' = c \<Longrightarrow> s \<le> x"
  from chk obtain out where cd: "checkduplicate_and_update c' y s w = Some (st, out, w')"
    by (rule check_state_obtain)
  show "known w' c x"
  proof (cases "s < y")
    case True
    from cd True kn ack show ?thesis
      by (cases rule: checkduplicate_cases) (auto simp: known_entries)
  next
    case False
    with cd kn show ?thesis
      by (simp add: checkduplicate_old not_less)
  qed
next
  fix x r :: u32 and c w
  assume "x \<le> r"
  then show "check_state c x r w = Some (FORGOTTEN, w)"
    by (simp add: check_state_def checkduplicate_old)
next
  fix c' y b w w' c x
  assume "save_reply c' y b w = Some w'" "known w c x"
  then show "known w' c x"
    by (auto simp: known_entries save_reply_entries)
qed

lemma serve_window_eq: "serve_window es w = rw.serve es w"
  by (induction es w rule: serve_window.induct) (auto split: option.splits)

section \<open>Memory\<close>

definition bufs :: "reply_t list \<Rightarrow> addr list" where
  "bufs l = List.map_filter rt_buf l"

lemma bufs_simps [simp]:
  "bufs [] = []"
  "bufs (r # l) = (case rt_buf r of None \<Rightarrow> bufs l | Some a \<Rightarrow> a # bufs l)"
  "bufs (l @ m) = bufs l @ bufs m"
  by (simp_all add: bufs_def map_filter_def split: option.splits)

lemma set_bufs: "set (bufs l) = {a. \<exists>r \<in> set l. rt_buf r = Some a}"
  by (induction l) (auto split: option.splits)

text \<open>
  The invariant: an id occurs once per client; an entry has its reply exactly when it says so,
  and then the size it says; every buffer of the window is allocated and belongs to one entry.
\<close>

definition wf_entry :: "heap \<Rightarrow> reply_t \<Rightarrow> bool" where
  "wf_entry h r =
     (case rt_buf r of None \<Rightarrow> \<not> rt_cb_present r
      | Some a \<Rightarrow> rt_cb_present r \<and>
          (case h a of None \<Rightarrow> False | Some bs \<Rightarrow> rt_sz r = int (length bs)))"

definition rw_inv :: "reply_state \<Rightarrow> bool" where
  "rw_inv w \<longleftrightarrow>
     finite (dom (reply_window w)) \<and>
     (\<forall>c. distinct (map rt_xid (entries w c)) \<and> distinct (bufs (entries w c)) \<and>
        list_all (wf_entry (rheap w)) (entries w c)) \<and>
     (\<forall>c c'. c \<noteq> c' \<longrightarrow> set (bufs (entries w c)) \<inter> set (bufs (entries w c')) = {})"

text \<open>Freeing the confirmed entries frees exactly their buffers, once each.\<close>

lemma remove_confirmed_frees:
  assumes "distinct (bufs l)" and "set (bufs l) \<subseteq> dom h"
  shows "remove_confirmed s l h =
    Some (filter (\<lambda>r. s \<le> rt_xid r) l,
          h |` (- set (bufs (filter (\<lambda>r. rt_xid r < s) l))))"
  using assms
proof (induction l arbitrary: h)
  case (Cons r l)
  show ?case
  proof (cases "rt_xid r < s")
    case True
    show ?thesis
    proof (cases "rt_buf r")
      case None
      with True Cons show ?thesis
        by (simp add: free_buf_def not_le)
    next
      case (Some a)
      with Cons.prems have "distinct (bufs l)" "set (bufs l) \<subseteq> dom (h(a := None))"
        by auto
      from Cons.IH [OF this] have "remove_confirmed s l (h(a := None)) =
        Some (filter (\<lambda>r. s \<le> rt_xid r) l,
          (h(a := None)) |` (- set (bufs (filter (\<lambda>r. rt_xid r < s) l))))" .
      moreover have "(h(a := None)) |` (- A) = h |` (- insert a A)" for A
        by (auto simp: restrict_map_def)
      moreover have "h a \<noteq> None"
        using Cons.prems(2) Some by auto
      ultimately show ?thesis
        using Some True by (simp add: free_buf_def not_le)
    qed
  next
    case False
    with Cons show ?thesis
      by (auto simp: not_less split: option.splits)
  qed
qed (simp add: restrict_map_def)

lemma rw_invD:
  assumes "rw_inv w"
  shows "finite (dom (reply_window w))"
    and "distinct (map rt_xid (entries w c))" and "distinct (bufs (entries w c))"
    and "list_all (wf_entry (rheap w)) (entries w c)"
    and "c \<noteq> c' \<Longrightarrow> set (bufs (entries w c)) \<inter> set (bufs (entries w c')) = {}"
  using assms by (simp_all add: rw_inv_def)

lemma wf_entry_alloc: "list_all (wf_entry h) l \<Longrightarrow> set (bufs l) \<subseteq> dom h"
  by (fastforce simp: set_bufs list_all_iff wf_entry_def split: option.splits)

text \<open>An entry stays well formed when its own buffer is left alone.\<close>

lemma wf_entries_cong:
  assumes "list_all (wf_entry h) l" and "\<And>a. a \<in> set (bufs l) \<Longrightarrow> h' a = h a"
  shows "list_all (wf_entry h') l"
  using assms by (fastforce simp: set_bufs list_all_iff wf_entry_def split: option.splits)

lemma rw_inv_update:
  assumes "rw_inv w"
    and "distinct (map rt_xid l)" "distinct (bufs l)" "list_all (wf_entry h) l"
    and "\<And>c' a. c' \<noteq> c \<Longrightarrow> a \<in> set (bufs (entries w c')) \<Longrightarrow>
      a \<notin> set (bufs l) \<and> h a = rheap w a"
  shows "rw_inv (w\<lparr>reply_window := (reply_window w)(c \<mapsto> l), rheap := h\<rparr>)"
proof -
  have "list_all (wf_entry h) (entries w c')" if "c' \<noteq> c" for c'
    by (rule wf_entries_cong [OF rw_invD(4) [OF assms(1)]]) (use assms(5) that in blast)
  moreover have "set (bufs l) \<inter> set (bufs (entries w c')) = {}" if "c' \<noteq> c" for c'
    using assms(5) that by blast
  ultimately show ?thesis
    using assms(1-4) unfolding rw_inv_def by (auto simp: Int_commute)
qed

lemma bufs_filter_partition:
  "set (bufs l) = set (bufs (filter P l)) \<union> set (bufs (filter (\<lambda>r. \<not> P r) l))"
  by (auto simp: set_bufs)

lemma bufs_filter_disjoint:
  "distinct (bufs l) \<Longrightarrow> set (bufs (filter P l)) \<inter> set (bufs (filter (\<lambda>r. \<not> P r) l)) = {}"
  by (induction l) (auto simp: set_bufs split: option.splits)

lemma distinct_bufs_filter: "distinct (bufs l) \<Longrightarrow> distinct (bufs (filter P l))"
  by (induction l) (auto simp: set_bufs split: option.splits)

text \<open>The window after the confirmed entries of one client are gone.\<close>

lemma rw_inv_remove:
  assumes "rw_inv w"
  obtains h where
    "remove_confirmed s (entries w c) (rheap w) = Some (filter (\<lambda>r. s \<le> rt_xid r) (entries w c), h)"
    "rw_inv (w\<lparr>reply_window := (reply_window w)(c \<mapsto> filter (\<lambda>r. s \<le> rt_xid r) (entries w c)),
       rheap := h\<rparr>)"
proof -
  let ?l = "filter (\<lambda>r. s \<le> rt_xid r) (entries w c)"
  let ?gone = "set (bufs (filter (\<lambda>r. \<not> s \<le> rt_xid r) (entries w c)))"
  let ?h = "rheap w |` (- ?gone)"
  note inv = rw_invD [OF assms]
  have "remove_confirmed s (entries w c) (rheap w) = Some (?l, ?h)"
    using remove_confirmed_frees [OF inv(3) wf_entry_alloc [OF inv(4)], of s] by (simp add: not_le)
  moreover have "rw_inv (w\<lparr>reply_window := (reply_window w)(c \<mapsto> ?l), rheap := ?h\<rparr>)"
  proof (rule rw_inv_update [OF assms])
    show "distinct (map rt_xid ?l)" "distinct (bufs ?l)"
      using inv(2,3) by (simp_all add: distinct_map_filter distinct_bufs_filter)
    have "list_all (wf_entry (rheap w)) ?l"
      using inv(4) [of c] by (simp add: list_all_iff)
    then show "list_all (wf_entry ?h) ?l"
    proof (rule wf_entries_cong)
      fix a
      assume "a \<in> set (bufs ?l)"
      with bufs_filter_disjoint [OF inv(3), of "\<lambda>r. s \<le> rt_xid r" c] have "a \<notin> ?gone"
        by blast
      then show "?h a = rheap w a"
        by simp
    qed
    fix c' a
    assume "c' \<noteq> c" "a \<in> set (bufs (entries w c'))"
    then have "a \<notin> set (bufs (entries w c))"
      using inv(5) [of c' c] by auto
    then show "a \<notin> set (bufs ?l) \<and> ?h a = rheap w a"
      using bufs_filter_partition [of "entries w c" "\<lambda>r. s \<le> rt_xid r"] by auto
  qed
  ultimately show thesis
    by (rule that)
qed

text \<open>A check never frees what it does not own, and a \<open>DONE\<close> hands out an allocated reply.\<close>

lemma checkduplicate_safe:
  assumes "rw_inv w"
  obtains st out w' where
    "checkduplicate_and_update c x s w = Some (st, out, w')" "rw_inv w'"
    "st = DONE \<longleftrightarrow> out \<noteq> None"
    "\<And>p sz. out = Some (p, sz) \<Longrightarrow>
      \<exists>a bs. p = Some a \<and> rheap w' a = Some bs \<and> sz = int (length bs)"
proof (cases "s < x")
  case False
  with that [of FORGOTTEN None w] assms show thesis
    by (simp add: checkduplicate_old not_less)
next
  case True
  let ?l = "filter (\<lambda>r. s \<le> rt_xid r) (entries w c)"
  obtain h where rc: "remove_confirmed s (entries w c) (rheap w) = Some (?l, h)"
    and inv: "rw_inv (w\<lparr>reply_window := (reply_window w)(c \<mapsto> ?l), rheap := h\<rparr>)" (is "rw_inv ?w")
    by (rule rw_inv_remove [OF assms])
  have chk: "checkduplicate_and_update c x s w =
    (case find (\<lambda>r. rt_xid r = x) ?l of
       Some r \<Rightarrow> if rt_cb_present r then Some (DONE, Some (rt_buf r, rt_sz r), ?w)
                else Some (INPROGRESS, None, ?w)
     | None \<Rightarrow> Some (NEW, None,
         w\<lparr>reply_window := (reply_window w)(c \<mapsto> ?l @ [new_reply x]), rheap := h\<rparr>))"
    using rc True by (simp add: checkduplicate_unfold Let_def split: option.splits)
  show thesis
  proof (cases "find (\<lambda>r. rt_xid r = x) ?l")
    case None
    then have "x \<notin> rt_xid ` set ?l"
      by (auto simp: find_None_iff)
    then have "rw_inv (?w\<lparr>reply_window := (reply_window ?w)(c \<mapsto> ?l @ [new_reply x]), rheap := h\<rparr>)"
    proof (intro rw_inv_update [OF inv])
      fix c' a
      assume "c' \<noteq> c" "a \<in> set (bufs (entries ?w c'))"
      with rw_invD(5) [OF inv, of c' c]
      show "a \<notin> set (bufs (?l @ [new_reply x])) \<and> h a = rheap ?w a"
        by (auto simp: new_reply_def)
    qed (use rw_invD(2-4) [OF inv, of c] in \<open>auto simp: new_reply_def wf_entry_def\<close>)
    with that chk None show thesis
      by simp
  next
    case (Some r)
    then have "r \<in> set ?l"
      by (blast dest: find_SomeD)
    then have "wf_entry h r"
      using rw_invD(4) [OF inv, of c] by (simp add: list_all_iff)
    with that [of _ _ ?w] chk Some inv show thesis
      by (cases "rt_cb_present r") (auto simp: wf_entry_def split: option.splits)
  qed
qed

text \<open>
  Recording a reply succeeds for a client that is known, and gives the new block to the window.
\<close>

lemma fill_reply_distinct:
  "distinct (bufs l) \<Longrightarrow> a \<notin> set (bufs l) \<Longrightarrow> distinct (bufs (fill_reply x (Some a) sz l))"
  "set (bufs (fill_reply x (Some a) sz l)) \<subseteq> insert a (set (bufs l))"
  by (induction l) (auto simp: set_bufs split: option.splits)

lemma fill_reply_wf:
  "list_all (wf_entry h) l \<Longrightarrow> h a = Some bs \<Longrightarrow>
    list_all (wf_entry h) (fill_reply x (Some a) (int (length bs)) l)"
  by (induction l) (auto simp: wf_entry_def)

lemma save_reply_safe:
  assumes "rw_inv w" "reply_window w c \<noteq> None" "rheap w a = None"
  shows "\<exists>w'. save_reply c x (a, bs) w = Some w' \<and> rw_inv w'"
proof -
  note inv = rw_invD [OF assms(1)]
  let ?h = "(rheap w)(a \<mapsto> bs)"
  let ?l = "fill_reply x (Some a) (int (length bs)) (entries w c)"
  have fresh: "a \<notin> set (bufs (entries w c'))" for c'
    using wf_entry_alloc [OF inv(4)] assms(3) by blast
  have wf: "list_all (wf_entry ?h) (entries w c')" for c'
    by (rule wf_entries_cong [OF inv(4)]) (use fresh in auto)
  have "rw_inv (w\<lparr>reply_window := (reply_window w)(c \<mapsto> ?l), rheap := ?h\<rparr>)"
  proof (rule rw_inv_update [OF assms(1)])
    show "distinct (map rt_xid ?l)" "distinct (bufs ?l)" "list_all (wf_entry ?h) ?l"
      using inv(2,3) fresh wf by (simp_all add: fill_reply_distinct(1) fill_reply_wf)
    fix c' b
    assume "c' \<noteq> c" "b \<in> set (bufs (entries w c'))"
    then show "b \<notin> set (bufs ?l) \<and> ?h b = rheap w b"
      using inv(5) [of c' c] fresh [of c'] fill_reply_distinct(2) [of x a] by fastforce
  qed
  moreover have "save_reply c x (a, bs) w =
    Some (w\<lparr>reply_window := (reply_window w)(c \<mapsto> ?l), rheap := ?h\<rparr>)"
    using assms(2,3) by (cases w) (auto simp: save_reply_def add_reply_def entries_def)
  ultimately show ?thesis
    by blast
qed

text \<open>A reply that was saved is what a retransmission gets, until it is acknowledged.\<close>

lemma fill_reply_find:
  "find (\<lambda>r. rt_xid r = x) l = Some r \<Longrightarrow>
    find (\<lambda>r. rt_xid r = x) (fill_reply x b sz l)
      = Some (r\<lparr>rt_cb_present := True, rt_buf := b, rt_sz := sz\<rparr>)"
  by (induction l) (auto split: if_splits)

lemma find_filter_xid:
  "s \<le> x \<Longrightarrow> find (\<lambda>r. rt_xid r = x) (filter (\<lambda>r. s \<le> rt_xid r) l) = find (\<lambda>r. rt_xid r = x) l"
  by (induction l) auto

lemma find_xid_known: "x \<in> rt_xid ` set l \<Longrightarrow> \<exists>r. find (\<lambda>r. rt_xid r = x) l = Some r"
  by (induction l) auto

text \<open>The destructor: every buffer of the window is freed, once.\<close>

lemma free_replies_frees:
  assumes "distinct (bufs l)" "set (bufs l) \<subseteq> dom h"
  shows "free_replies l h = Some (h |` (- set (bufs l)))"
  using assms
proof (induction l arbitrary: h)
  case (Cons r l)
  show ?case
  proof (cases "rt_buf r")
    case (Some a)
    with Cons.prems have "distinct (bufs l)" "set (bufs l) \<subseteq> dom (h(a := None))"
      by auto
    from Cons.IH [OF this] have "free_replies l (h(a := None)) =
      Some ((h(a := None)) |` (- set (bufs l)))" .
    moreover have "(h(a := None)) |` (- A) = h |` (- insert a A)" for A
      by (auto simp: restrict_map_def)
    moreover have "h a \<noteq> None"
      using Cons.prems(2) Some by auto
    ultimately show ?thesis
      using Some by (simp add: free_buf_def)
  qed (use Cons in \<open>simp add: free_buf_def\<close>)
qed (simp add: restrict_map_def)

lemma free_clients_frees:
  assumes "distinct cs"
    and "\<And>c. c \<in> set cs \<Longrightarrow> distinct (bufs (f c)) \<and> set (bufs (f c)) \<subseteq> dom h"
    and "\<And>c c'. c \<noteq> c' \<Longrightarrow> set (bufs (f c)) \<inter> set (bufs (f c')) = {}"
    and "f = (\<lambda>c. case rw c of None \<Rightarrow> [] | Some l \<Rightarrow> l)"
  shows "free_clients cs rw h = Some (h |` (- (\<Union>c \<in> set cs. set (bufs (f c)))))"
  using assms(1,2)
proof (induction cs arbitrary: h)
  case (Cons c cs)
  let ?h = "h |` (- set (bufs (f c)))"
  have "free_replies (f c) h = Some ?h"
    using Cons.prems(2) [of c] by (intro free_replies_frees) auto
  moreover have "free_clients cs rw ?h = Some (?h |` (- (\<Union>c \<in> set cs. set (bufs (f c)))))"
  proof (rule Cons.IH)
    fix c'
    assume "c' \<in> set cs"
    then have "c' \<noteq> c"
      using Cons.prems(1) by auto
    then show "distinct (bufs (f c')) \<and> set (bufs (f c')) \<subseteq> dom ?h"
      using Cons.prems(2) [of c'] assms(3) [of c' c] \<open>c' \<in> set cs\<close> by auto
  qed (use Cons.prems(1) in simp)
  ultimately show ?case
    by (simp add: assms(4) restrict_restrict Un_commute)
qed (simp add: restrict_map_def)

lemma free_reply_window_safe:
  assumes "rw_inv w"
  shows "free_reply_window w =
    Some \<lparr>reply_window = (\<lambda>_. None), rheap = rheap w |` (- (\<Union>c. set (bufs (entries w c))))\<rparr>"
proof -
  note inv = rw_invD [OF assms]
  have "c \<in> dom (reply_window w)" if "a \<in> set (bufs (entries w c))" for a c
    using that by (auto simp: entries_def split: option.splits)
  then have "(\<Union>c \<in> dom (reply_window w). set (bufs (entries w c))) = (\<Union>c. set (bufs (entries w c)))"
    by blast
  moreover have "free_clients (sorted_list_of_set (dom (reply_window w))) (reply_window w) (rheap w) =
    Some (rheap w |` (- (\<Union>c \<in> set (sorted_list_of_set (dom (reply_window w))). set (bufs (entries w c)))))"
  proof (rule free_clients_frees)
    show "entries w = (\<lambda>c. case reply_window w c of None \<Rightarrow> [] | Some l \<Rightarrow> l)"
      by (simp add: entries_def fun_eq_iff)
  qed (simp_all add: inv(3,5) wf_entry_alloc [OF inv(4)])
  moreover have "set (sorted_list_of_set (dom (reply_window w))) = dom (reply_window w)"
    by (rule set_sorted_list_of_set [OF inv(1)])
  ultimately show ?thesis
    by (simp only: free_reply_window_def bind.bind_lunit)
qed

section \<open>Runs\<close>

fun run_window :: "(addr \<times> u8 list) window_event list \<Rightarrow> reply_state \<Rightarrow> reply_state option" where
  "run_window [] w = Some w"
| "run_window (Req c x r # es) w = do { (st, w) \<leftarrow> check_state c x r w; run_window es w }"
| "run_window (Rep c x b # es) w = do { w \<leftarrow> save_reply c x b w; run_window es w }"

text \<open>
  What the server and \<open>malloc\<close> guarantee of the events: a reply is written to a block that is
  not in use, and it is the reply to a client the window has an entry for.
\<close>

fun events_ok :: "(addr \<times> u8 list) window_event list \<Rightarrow> reply_state \<Rightarrow> bool" where
  "events_ok [] w = True"
| "events_ok (Req c x r # es) w =
     (case check_state c x r w of None \<Rightarrow> True | Some (st, w) \<Rightarrow> events_ok es w)"
| "events_ok (Rep c x b # es) w =
     (rheap w (fst b) = None \<and> reply_window w c \<noteq> None \<and>
      (case save_reply c x b w of None \<Rightarrow> True | Some w \<Rightarrow> events_ok es w))"

lemma empty_replies_inv: "rw_inv empty_replies"
  by (simp add: rw_inv_def empty_replies_def entries_def)

lemma check_state_safe:
  assumes "rw_inv w"
  obtains st w' where "check_state c x s w = Some (st, w')" "rw_inv w'"
  by (rule checkduplicate_safe [OF assms, of c x s]) (auto simp: check_state_def)

lemma run_window_safe:
  "rw_inv w \<Longrightarrow> events_ok es w \<Longrightarrow> \<exists>w'. run_window es w = Some w' \<and> rw_inv w'"
proof (induction es w rule: run_window.induct)
  case (2 c x r es w)
  obtain st w' where "check_state c x r w = Some (st, w')" "rw_inv w'"
    by (rule check_state_safe [OF "2.prems"(1)])
  with 2 show ?case
    by simp
next
  case (3 c x b es w)
  then obtain w' where "save_reply c x b w = Some w'" "rw_inv w'"
    using save_reply_safe [of w c "fst b" x "snd b"] by auto
  with 3 show ?case
    by simp
qed simp

text \<open>The reply a request has in the window.\<close>

definition answered :: "reply_state \<Rightarrow> u32 \<Rightarrow> u32 \<Rightarrow> addr \<Rightarrow> u8 list \<Rightarrow> bool" where
  "answered w c x a bs \<longleftrightarrow>
     (case find (\<lambda>r. rt_xid r = x) (entries w c) of
        None \<Rightarrow> False
      | Some r \<Rightarrow> rt_cb_present r \<and> rt_buf r = Some a \<and> rt_sz r = int (length bs)) \<and>
     rheap w a = Some bs"

lemma answered_owner:
  assumes "answered w c x a bs"
  shows "a \<in> set (bufs (entries w c))"
  using assms by (auto simp: answered_def set_bufs dest: find_SomeD split: option.splits)

lemma answered_check:
  assumes "rw_inv w" "answered w c x a bs" "check_state c' y s w = Some (st, w')"
    and "c' = c \<Longrightarrow> s \<le> x"
  shows "answered w' c x a bs"
proof -
  from assms(3) obtain out where cd: "checkduplicate_and_update c' y s w = Some (st, out, w')"
    by (rule check_state_obtain)
  show ?thesis
  proof (cases "s < y")
    case False
    with cd assms(2) show ?thesis
      by (simp add: checkduplicate_old not_less)
  next
    case True
    let ?l = "filter (\<lambda>r. s \<le> rt_xid r) (entries w c')"
    note inv = rw_invD [OF assms(1)]
    obtain h where rc: "remove_confirmed s (entries w c') (rheap w) = Some (?l, h)"
      and h: "h = rheap w |` (- set (bufs (filter (\<lambda>r. \<not> s \<le> rt_xid r) (entries w c'))))"
      using remove_confirmed_frees [OF inv(3) wf_entry_alloc [OF inv(4)], of s c']
      by (simp add: not_le)
    have ent: "find (\<lambda>r. rt_xid r = x) (entries w' c) = find (\<lambda>r. rt_xid r = x) (entries w c)"
      if "find (\<lambda>r. rt_xid r = x) (entries w c) \<noteq> None"
      using cd True
    proof (cases rule: checkduplicate_cases)
      case (1 l h)
      with that assms(4) show ?thesis
        by (auto simp: find_append find_filter_xid)
    next
      case (2 l h r)
      with assms(4) show ?thesis
        by (auto simp: find_filter_xid)
    qed
    have "rheap w' = h"
      using cd True rc by (cases rule: checkduplicate_cases) auto
    moreover have "a \<notin> set (bufs (filter (\<lambda>r. \<not> s \<le> rt_xid r) (entries w c')))"
    proof (cases "c' = c")
      case True
      from assms(2) obtain r where r: "find (\<lambda>r. rt_xid r = x) (entries w c) = Some r"
        "rt_buf r = Some a"
        by (auto simp: answered_def split: option.splits)
      then have "a \<in> set (bufs (filter (\<lambda>r. s \<le> rt_xid r) (entries w c)))"
        using find_SomeD [OF r(1)] assms(4) True by (auto simp: set_bufs)
      with bufs_filter_disjoint [OF inv(3), of "\<lambda>r. s \<le> rt_xid r" c] True show ?thesis
        by blast
    next
      case False
      with inv(5) [of c' c] answered_owner [OF assms(2)]
        bufs_filter_partition [of "entries w c'" "\<lambda>r. s \<le> rt_xid r"] show ?thesis
        by blast
    qed
    ultimately show ?thesis
      using assms(2) ent h by (auto simp: answered_def split: option.splits)
  qed
qed

lemma fill_reply_find_other:
  "x \<noteq> y \<Longrightarrow> find (\<lambda>r. rt_xid r = x) (fill_reply y b sz l) = find (\<lambda>r. rt_xid r = x) l"
  by (induction l) auto

lemma save_reply_heap:
  "save_reply c x b w = Some w' \<Longrightarrow>
    rheap w (fst b) = None \<and> rheap w' = (rheap w)(fst b \<mapsto> snd b)"
  by (auto simp: save_reply_def add_reply_def split: option.splits if_splits)

lemma answered_save:
  assumes "answered w c x a bs" "save_reply c' y b w = Some w'" "(c', y) \<noteq> (c, x)"
  shows "answered w' c x a bs"
  using assms save_reply_heap [OF assms(2)] save_reply_entries [OF assms(2), of c]
  by (auto simp: answered_def fill_reply_find_other split: option.splits)

lemma answered_new:
  assumes "known w c x" "save_reply c x (a, bs) w = Some w'"
  shows "answered w' c x a bs"
  using assms find_xid_known [of x "entries w c"] fill_reply_find [of x "entries w c"]
    save_reply_heap [OF assms(2)] save_reply_entries [OF assms(2), of c]
  by (auto simp: answered_def known_entries)

text \<open>A retransmission of an answered request that is not acknowledged gets the answer.\<close>

lemma answered_done:
  assumes "rw_inv w" "answered w c x a bs" "s < x"
  shows "\<exists>w'. checkduplicate_and_update c x s w = Some (DONE, Some (Some a, int (length bs)), w') \<and>
    answered w' c x a bs \<and> rw_inv w'"
proof -
  obtain st out w' where cd: "checkduplicate_and_update c x s w = Some (st, out, w')" "rw_inv w'"
    by (rule checkduplicate_safe [OF assms(1)])
  then have "check_state c x s w = Some (st, w')"
    by (simp add: check_state_def)
  then have "answered w' c x a bs"
    by (rule answered_check [OF assms(1,2)]) (use assms(3) in auto)
  moreover have "st = DONE \<and> out = Some (Some a, int (length bs))"
    using cd(1) assms(3)
  proof (cases rule: checkduplicate_cases)
    case (1 l h)
    with assms(2) less_imp_le [OF assms(3)] show ?thesis
      by (auto simp: answered_def find_filter_xid)
  next
    case (2 l h r)
    with assms(2) less_imp_le [OF assms(3)] show ?thesis
      by (auto simp: answered_def find_filter_xid)
  qed
  ultimately show ?thesis
    using cd by blast
qed

lemma answered_run:
  assumes "answered w c x a bs" "rw_inv w" "events_ok es w" "run_window es w = Some w'"
    and "list_all (\<lambda>e. case e of Req c' y s \<Rightarrow> c' \<noteq> c \<or> s \<le> x | Rep c' y b \<Rightarrow> (c', y) \<noteq> (c, x)) es"
  shows "answered w' c x a bs"
  using assms
proof (induction es w rule: run_window.induct)
  case (2 c' y s es w)
  obtain st w1 where w1: "check_state c' y s w = Some (st, w1)" "rw_inv w1"
    by (rule check_state_safe [OF "2.prems"(2)])
  have "answered w1 c x a bs"
    by (rule answered_check [OF "2.prems"(2,1) w1(1)]) (use "2.prems"(5) in auto)
  with "2.IH" [OF w1(1) refl this w1(2)] "2.prems" w1 show ?case
    by simp
next
  case (3 c' y b es w)
  then obtain w1 where w1: "save_reply c' y b w = Some w1" "rw_inv w1"
    using save_reply_safe [of w c' "fst b" y "snd b"] by auto
  have "answered w1 c x a bs"
    by (rule answered_save [OF "3.prems"(1) w1(1)]) (use "3.prems"(5) in auto)
  with 3 w1 show ?case
    by simp
qed simp

section \<open>Counting executions\<close>

text \<open>How often a trace of answers shows the request \<open>x\<close> of client \<open>c\<close> executed.\<close>

fun executions :: "u32 \<Rightarrow> u32 \<Rightarrow> ('b window_event \<times> rpcstate_t option) list \<Rightarrow> nat" where
  "executions c x [] = 0"
| "executions c x ((Req c' x' r, st) # tr) =
     (if c' = c \<and> x' = x \<and> st = Some NEW then 1 else 0) + executions c x tr"
| "executions c x ((Rep c' x' b, st) # tr) = executions c x tr"

lemma one_execution:
  "0 < executions c x tr \<Longrightarrow> \<exists>pre r post. tr = pre @ (Req c x r, Some NEW) # post"
proof (induction c x tr rule: executions.induct)
  case (2 c x c' x' r st tr)
  show ?case
  proof (cases "c' = c \<and> x' = x \<and> st = Some NEW")
    case True
    then show ?thesis
      by blast
  next
    case False
    with 2 obtain pre q post where "tr = pre @ (Req c x q, Some NEW) # post"
      by auto
    then show ?thesis
      by (metis append_Cons)
  qed
next
  case (3 c x c' x' b st tr)
  then obtain pre q post where "tr = pre @ (Req c x q, Some NEW) # post"
    by auto
  then show ?case
    by (metis append_Cons)
qed simp

lemma two_executions:
  "1 < executions c x tr \<Longrightarrow>
    \<exists>pre r mid r' post. tr = pre @ (Req c x r, Some NEW) # mid @ (Req c x r', Some NEW) # post"
proof (induction c x tr rule: executions.induct)
  case (2 c x c' x' r st tr)
  show ?case
  proof (cases "c' = c \<and> x' = x \<and> st = Some NEW")
    case True
    with "2.prems" obtain mid q post where "tr = mid @ (Req c x q, Some NEW) # post"
      using one_execution [of c x tr] by auto
    with True show ?thesis
      by blast
  next
    case False
    with 2 obtain pre q mid r' post where
      "tr = pre @ (Req c x q, Some NEW) # mid @ (Req c x r', Some NEW) # post"
      by auto
    then show ?thesis
      by (metis append_Cons)
  qed
next
  case (3 c x c' x' b st tr)
  then obtain pre q mid r' post where
    "tr = pre @ (Req c x q, Some NEW) # mid @ (Req c x r', Some NEW) # post"
    by auto
  then show ?case
    by (metis append_Cons)
qed simp

lemma acks_in_order_once:
  assumes "sorted [s. Req c' y s \<leftarrow> es, c' = c]"
  shows "serve_window es w \<noteq> pre @ (Req c x r, Some NEW) # mid @ (Req c x r', Some NEW) # post"
proof
  assume tr: "serve_window es w = pre @ (Req c x r, Some NEW) # mid @ (Req c x r', Some NEW) # post"
  then obtain y s st where ack: "(Req c y s, st) \<in> set mid" "x < s"
    using rw.executed_twice unfolding serve_window_eq by blast
  have "r' < x"
    by (rule rw.new_above_rep [of c x r' es w]) (use tr serve_window_eq in auto)
  obtain ys where "es = map fst (serve_window es w) @ ys"
    using rw.serve_prefix unfolding serve_window_eq by blast
  moreover obtain m1 m2 where "mid = m1 @ (Req c y s, st) # m2"
    using split_list [OF ack(1)] by blast
  ultimately have es: "es = map fst pre @ Req c x r # map fst m1 @ Req c y s # map fst m2
      @ Req c x r' # map fst post @ ys"
    using tr by simp
  have "s \<le> r'"
    using assms(1) unfolding es by (simp add: sorted_append)
  with \<open>r' < x\<close> ack(2) show False
    by simp
qed

section \<open>Properties\<close>

text \<open>
  C24. At most once, as far as the code gives it: when a server executes the same request of a
  client twice, a request with a higher acknowledgement of that client was served in between.
\<close>

theorem executed_twice_acked:
  assumes "serve_window es w = pre @ (Req c x r, Some NEW) # mid @ (Req c x r', Some NEW) # post"
  shows "\<exists>y s st. (Req c y s, st) \<in> set mid \<and> x < s"
  using assms unfolding serve_window_eq by (rule rw.executed_twice)

text \<open>
  C3. At most once: when the acknowledgements of each client arrive in order, no request is
  executed twice, whatever the retransmissions and the interleaving with other clients.
\<close>

theorem at_most_once:
  assumes "sorted [s. Req c' y s \<leftarrow> es, c' = c]"
  shows "executions c x (serve_window es w) \<le> 1"
proof (rule ccontr)
  assume "\<not> ?thesis"
  then obtain pre r mid r' post where
    tr: "serve_window es w = pre @ (Req c x r, Some NEW) # mid @ (Req c x r', Some NEW) # post"
    using two_executions [of c x "serve_window es w"] by (auto simp: not_le)
  from tr show False
    using acks_in_order_once [OF assms] by blast
qed

text \<open>Two clients, retransmissions, and acknowledgements that arrive in order.\<close>

definition window_demo :: "(addr \<times> u8 list) window_event list" where
  "window_demo =
     [Req 7 1 0, Req 9 1 0, Req 7 1 0, Rep 7 1 (10, [1, 2]), Req 7 1 0, Req 7 2 1,
      Rep 9 1 (11, [3]), Rep 7 2 (12, []), Req 7 3 2, Req 7 1 2]"

text \<open>The same request of client 7 again, delayed until after it was acknowledged.\<close>

definition stale_demo :: "(addr \<times> u8 list) window_event list" where
  "stale_demo =
     [Req 7 1 0, Rep 7 1 (10, [1, 2]), Req 7 2 1, Rep 7 2 (11, []), Req 7 3 2, Req 7 1 0]"

theorem executed_twice_acked_witness:
  "\<exists>y s st. (Req 7 y s, st) \<in> set [(Rep 7 1 (10, [1, 2]) :: (addr \<times> u8 list) window_event, None),
     (Req 7 2 1, Some NEW), (Rep 7 2 (11, []), None), (Req 7 3 2, Some NEW)] \<and> (1::u32) < s"
  by (rule executed_twice_acked [of stale_demo empty_replies "[]" 7 1 0 _ 0 "[]"])
    code_simp

theorem at_most_once_witness:
  "executions 7 1 (serve_window window_demo empty_replies) \<le> 1"
  by (rule at_most_once) code_simp

text \<open>
  The window is not enough when acknowledgements can be overtaken: a duplicate that arrives
  after its request was acknowledged, but carries the acknowledgement of the time it was sent,
  is executed again. \<open>checkduplicate_and_update\<close> compares the id with the acknowledgement of
  the same message only, and does not remember the highest one.
\<close>

theorem stale_duplicate_executed_again:
  "executions 7 1 (serve_window stale_demo empty_replies) = 2 \<and>
   events_ok stale_demo empty_replies"
  by code_simp

text \<open>
  C25. Memory: whatever sequence of requests and replies the window serves, it never frees a
  block that is not allocated, keeps its invariant, and its destructor then frees each buffer
  it holds exactly once and nothing else.
\<close>

theorem window_memory_safe:
  assumes "events_ok es empty_replies"
  shows "\<exists>w. run_window es empty_replies = Some w \<and> rw_inv w \<and>
    free_reply_window w =
      Some \<lparr>reply_window = (\<lambda>_. None),
            rheap = rheap w |` (- (\<Union>c. set (bufs (entries w c))))\<rparr>"
  using run_window_safe [OF empty_replies_inv assms] free_reply_window_safe by blast

theorem window_memory_safe_witness:
  "\<exists>w. run_window window_demo empty_replies = Some w \<and> rw_inv w \<and>
    free_reply_window w =
      Some \<lparr>reply_window = (\<lambda>_. None),
            rheap = rheap w |` (- (\<Union>c. set (bufs (entries w c))))\<rparr>"
  by (rule window_memory_safe) code_simp

text \<open>
  C15. Retransmissions: once the reply of a request is saved, every retransmission of it is
  answered \<open>DONE\<close> with exactly the bytes saved, whatever the window served in between, as long
  as the client has not acknowledged the request.
\<close>

theorem retransmission_gets_reply:
  assumes "rw_inv w" "known w c x" "events_ok (Rep c x (a, bs) # es) w"
    and "run_window (Rep c x (a, bs) # es) w = Some w'"
    and "list_all (\<lambda>e. case e of Req c' y s \<Rightarrow> c' \<noteq> c \<or> s \<le> x
           | Rep c' y b \<Rightarrow> (c', y) \<noteq> (c, x)) es"
    and "s < x"
  shows "\<exists>w''. checkduplicate_and_update c x s w' =
      Some (DONE, Some (Some a, int (length bs)), w'') \<and> rheap w'' a = Some bs"
proof -
  obtain w1 where sv: "save_reply c x (a, bs) w = Some w1" and inv: "rw_inv w1"
    using save_reply_safe [OF assms(1), of c a x bs] assms(3) by auto
  have inv': "rw_inv w'"
    using run_window_safe [OF assms(1,3)] assms(4) by auto
  have ans: "answered w' c x a bs"
    by (rule answered_run [OF answered_new [OF assms(2) sv] inv _ _ assms(5)])
      (use assms(3,4) sv in auto)
  show ?thesis
    using answered_done [OF inv' ans assms(6)] by (auto simp: answered_def)
qed

theorem retransmission_gets_reply_witness:
  "\<exists>w''. checkduplicate_and_update 7 1 0
      (the (run_window [Rep 7 1 (10, [1, 2]), Req 7 2 1, Req 9 5 4]
        (the (run_window [Req 7 1 0] empty_replies)))) =
      Some (DONE, Some (Some 10, int (length [1 :: u8, 2])), w'') \<and> rheap w'' 10 = Some [1, 2]"
proof (rule retransmission_gets_reply [of _ 7 1 10 "[1, 2]" "[Req 7 2 1, Req 9 5 4]" _ 0])
  show "rw_inv (the (run_window [Req 7 1 0] empty_replies))"
  proof -
    have "events_ok [Req 7 1 0] empty_replies"
      by code_simp
    from run_window_safe [OF empty_replies_inv this] show ?thesis
      by (metis option.sel)
  qed
  show "run_window (Rep 7 1 (10, [1, 2]) # [Req 7 2 1, Req 9 5 4])
      (the (run_window [Req 7 1 0] empty_replies)) =
    Some (the (run_window [Rep 7 1 (10, [1, 2]), Req 7 2 1, Req 9 5 4]
      (the (run_window [Req 7 1 0] empty_replies))))"
    by (rule option.collapse [symmetric]) code_simp
qed code_simp+

text \<open>
  \<open>dispatch\<close> sends the saved reply of a \<open>DONE\<close> duplicate after the mutex is released; an
  acknowledgement that another worker serves in between frees that buffer under it.
\<close>

theorem done_reply_freed_before_send:
  "do { w \<leftarrow> run_window [Req 7 1 0, Rep 7 1 (10, [1, 2])] empty_replies;
        (st, out, w) \<leftarrow> checkduplicate_and_update 7 1 0 w;
        w' \<leftarrow> run_window [Req 7 3 2] w;
        Some (st, out, rheap w 10, rheap w' 10) }
   = Some (DONE, Some (Some 10, 2), Some [1, 2], None)"
  by code_simp

text \<open>
  \<open>add_reply\<close> drops the reply of a request whose entry is gone, without freeing it: the
  block stays allocated and no entry of the window owns it.
\<close>

theorem dropped_reply_leaks:
  "\<exists>w. run_window [Req 7 1 0, Req 7 3 2, Rep 7 1 (10, [1, 2])] empty_replies = Some w \<and>
    rheap w 10 = Some [1, 2] \<and> 10 \<notin> (\<Union>c. set (bufs (entries w c)))"
proof -
  let ?w = "\<lparr>reply_window = [7 \<mapsto> [new_reply 3]], rheap = [10 \<mapsto> [1, 2]]\<rparr>"
  have "check_state 7 1 0 empty_replies =
    Some (NEW, \<lparr>reply_window = [7 \<mapsto> [new_reply 1]], rheap = Map.empty\<rparr>)"
    by (simp add: check_state_def checkduplicate_and_update_def empty_replies_def)
  moreover have "check_state 7 3 2 \<lparr>reply_window = [7 \<mapsto> [new_reply 1]], rheap = Map.empty\<rparr> =
    Some (NEW, \<lparr>reply_window = [7 \<mapsto> [new_reply 3]], rheap = Map.empty\<rparr>)"
    by (simp add: check_state_def checkduplicate_and_update_def new_reply_def free_buf_def
        word_less_nat_alt word_le_nat_alt)
  moreover have "save_reply 7 1 (10, [1, 2])
    \<lparr>reply_window = [7 \<mapsto> [new_reply 3]], rheap = Map.empty\<rparr> = Some ?w"
    by (simp add: save_reply_def add_reply_def new_reply_def)
  ultimately have "run_window [Req 7 1 0, Req 7 3 2, Rep 7 1 (10, [1, 2])] empty_replies = Some ?w"
    by simp
  moreover have "10 \<notin> (\<Union>c. set (bufs (entries ?w c)))"
    by (auto simp: entries_def new_reply_def split: if_splits)
  ultimately show ?thesis
    by auto
qed

end
