(* ===== verification/Connection_Refs.thy ===== *)
theory Connection_Refs
  imports Prelude
begin

text \<open>
  The life of the \<open>connection\<close> objects of \<open>rpc/connection.cc\<close>, as far as the users of a connection
  see it: its reference count, whether it is dead, and the messages handed to \<open>send\<close>. An object
  that was deleted is no longer in the map of reference counts, and using it is undefined.
\<close>

type_synonym conn = nat

record conn_table =
  refno :: "conn \<rightharpoonup> int"
  dead :: "conn \<Rightarrow> bool"
  sent :: "(conn \<times> u8 list) list"

definition incref :: "conn \<Rightarrow> conn_table \<Rightarrow> conn_table option" where
  "incref c t =
     (case refno t c of
        None \<Rightarrow> None
      | Some n \<Rightarrow> Some (t\<lparr>refno := (refno t)(c \<mapsto> n + 1)\<rparr>))"

text \<open>The assertion fails below zero; a dead connection is deleted at zero, a live one stays.\<close>

definition decref :: "conn \<Rightarrow> conn_table \<Rightarrow> conn_table option" where
  "decref c t =
     (case refno t c of
        None \<Rightarrow> None
      | Some n \<Rightarrow>
          if n - 1 < 0 then None
          else if n - 1 = 0 \<and> dead t c then Some (t\<lparr>refno := (refno t)(c := None)\<rparr>)
          else Some (t\<lparr>refno := (refno t)(c \<mapsto> n - 1)\<rparr>))"

text \<open>\<open>writepdu\<close> stores the length in network order over the first four bytes.\<close>

definition framed :: "u8 list \<Rightarrow> u8 list" where
  "framed b = overwrite b 0
     (let n = word_of_nat (length b) :: u32
      in [ucast (drop_bit 24 n), ucast (drop_bit 16 n), ucast (drop_bit 8 n), ucast n])"

text \<open>Nothing is sent on a dead connection; a live one takes the message.\<close>

definition conn_send :: "conn \<Rightarrow> u8 list \<Rightarrow> conn_table \<Rightarrow> conn_table option" where
  "conn_send c b t =
     (case refno t c of
        None \<Rightarrow> None
      | Some _ \<Rightarrow> Some (if dead t c then t else t\<lparr>sent := sent t @ [(c, framed b)]\<rparr>))"

definition isdead :: "conn \<Rightarrow> conn_table \<Rightarrow> bool option" where
  "isdead c t = (if refno t c = None then None else Some (dead t c))"

text \<open>What the constructor does to the table.\<close>

definition construct :: "conn \<Rightarrow> conn_table \<Rightarrow> conn_table" where
  "construct c t = t\<lparr>refno := (refno t)(c \<mapsto> 1), dead := (dead t)(c := False)\<rparr>"

definition closeconn :: "conn \<Rightarrow> conn_table \<Rightarrow> conn_table option" where
  "closeconn c t = do {
     d \<leftarrow> isdead c t;
     Some (if \<not> d then t\<lparr>dead := (dead t)(c := True)\<rparr> else t)
   }"

section \<open>Counting references\<close>

text \<open>
  \<open>h\<close> gives the references somebody holds, as a number per connection. The table is in order
  when every connection that is held exists, with that count.
\<close>

definition refs_ok :: "(conn \<Rightarrow> int) \<Rightarrow> conn_table \<Rightarrow> bool" where
  "refs_ok h t \<longleftrightarrow> (\<forall>c. 0 \<le> h c \<and> (case refno t c of None \<Rightarrow> h c = 0 | Some n \<Rightarrow> h c = n))"

lemma refs_okI:
  "(\<And>c. 0 \<le> h c) \<Longrightarrow> (\<And>c. case refno t c of None \<Rightarrow> h c = 0 | Some n \<Rightarrow> h c = n) \<Longrightarrow> refs_ok h t"
  by (simp add: refs_ok_def)

lemma refs_okD:
  assumes "refs_ok h t"
  shows "0 \<le> h c" "case refno t c of None \<Rightarrow> h c = 0 | Some n \<Rightarrow> h c = n"
    "0 < h c \<Longrightarrow> refno t c = Some (h c)"
proof -
  from assms have "0 \<le> h c \<and> (case refno t c of None \<Rightarrow> h c = 0 | Some n \<Rightarrow> h c = n)"
    unfolding refs_ok_def by blast
  then show "0 \<le> h c" "case refno t c of None \<Rightarrow> h c = 0 | Some n \<Rightarrow> h c = n"
    "0 < h c \<Longrightarrow> refno t c = Some (h c)"
    by (auto split: option.splits)
qed

lemma refs_ok_update:
  assumes "refs_ok h t" "0 \<le> k" "case n of None \<Rightarrow> k = 0 | Some n \<Rightarrow> k = n"
  shows "refs_ok (h(c := k)) (t\<lparr>refno := (refno t)(c := n)\<rparr>)"
proof (rule refs_okI)
  show "0 \<le> (h(c := k)) d" for d
    using assms(2) refs_okD(1) [OF assms(1), of d] by simp
  show "case refno (t\<lparr>refno := (refno t)(c := n)\<rparr>) d of None \<Rightarrow> (h(c := k)) d = 0
      | Some m \<Rightarrow> (h(c := k)) d = m" for d
    using assms(3) refs_okD(2) [OF assms(1), of d] by (cases "d = c") (simp_all split: option.splits)
qed

lemma incref_ok:
  assumes "refs_ok h t" "0 < h c"
  shows "\<exists>t'. incref c t = Some t' \<and> refs_ok (h(c := h c + 1)) t' \<and> dead t' = dead t \<and> sent t' = sent t"
  using refs_okD(3) [OF assms] assms(2) refs_ok_update [OF assms(1), of "h c + 1" "Some (h c + 1)" c]
  by (simp add: incref_def)

lemma decref_ok:
  assumes "refs_ok h t" "0 < h c"
  shows "\<exists>t'. decref c t = Some t' \<and> refs_ok (h(c := h c - 1)) t' \<and> dead t' = dead t \<and> sent t' = sent t"
  using refs_okD(3) [OF assms] assms(2) refs_ok_update [OF assms(1), of "h c - 1" "Some (h c - 1)" c]
    refs_ok_update [OF assms(1), of "h c - 1" None c]
  by (simp add: decref_def)

lemma conn_send_ok:
  assumes "refs_ok h t" "0 < h c"
  shows "\<exists>t'. conn_send c b t = Some t' \<and> refs_ok h t' \<and> dead t' = dead t \<and>
    sent t' = sent t @ (if dead t c then [] else [(c, framed b)])"
proof -
  have "refs_ok h (t\<lparr>sent := sent t @ [(c, framed b)]\<rparr>)"
    using refs_okD(1,2) [OF assms(1)] by (intro refs_okI) simp_all
  then show ?thesis
    using refs_okD(3) [OF assms] assms(1) by (simp add: conn_send_def)
qed

text \<open>The reference of one pointer, and a pointer to an object that is new.\<close>

definition one :: "conn option \<Rightarrow> conn \<Rightarrow> int" where
  "one p c = (if p = Some c then 1 else 0)"

text \<open>A new object is one that never was.\<close>

definition fresh :: "conn option \<Rightarrow> conn_table \<Rightarrow> bool" where
  "fresh p t \<longleftrightarrow> (case p of None \<Rightarrow> True | Some c \<Rightarrow> refno t c = None \<and> \<not> dead t c \<and> c \<notin> fst ` set (sent t))"

lemma one_simps [simp]: "one None c = 0" "one (Some d) c = (if c = d then 1 else 0)"
  by (auto simp: one_def)

lemma one_nonneg [simp]: "0 \<le> one p c"
  by (simp add: one_def)

lemma refs_ok_cong: "refs_ok h t \<Longrightarrow> h = h' \<Longrightarrow> refs_ok h' t"
  by simp

lemma refs_ok_fields [simp]:
  "refs_ok h (t\<lparr>dead := d\<rparr>) = refs_ok h t" "refs_ok h (t\<lparr>sent := m\<rparr>) = refs_ok h t"
  by (simp_all add: refs_ok_def)

lemma incref_Some_ok:
  assumes "refs_ok h t" "0 < h c" "incref c t = Some t'"
  shows "refs_ok (\<lambda>d. h d + one (Some c) d) t'" "dead t' = dead t" "sent t' = sent t"
proof -
  have "h(c := h c + 1) = (\<lambda>d. h d + one (Some c) d)"
    by (rule ext) simp
  then show "refs_ok (\<lambda>d. h d + one (Some c) d) t'" "dead t' = dead t" "sent t' = sent t"
    using incref_ok [OF assms(1,2)] assms(3) by (simp_all add: fun_upd_def)
qed

lemma decref_Some_ok:
  assumes "refs_ok (\<lambda>d. h d + one (Some c) d) t" "\<And>d. 0 \<le> h d"
  shows "\<exists>t'. decref c t = Some t' \<and> refs_ok h t' \<and> dead t' = dead t \<and> sent t' = sent t"
proof -
  let ?h = "\<lambda>d. h d + one (Some c) d"
  have "?h(c := ?h c - 1) = h"
    by (rule ext) simp
  moreover have "0 < ?h c"
    using assms(2) [of c] by simp
  note decref_ok [OF assms(1) this]
  ultimately show ?thesis
    by simp
qed

lemma release_ok:
  assumes "refs_ok (\<lambda>d. h d + one p d) t" "\<And>d. 0 \<le> h d"
  shows "\<exists>t'. (case p of None \<Rightarrow> Some t | Some c \<Rightarrow> decref c t) = Some t' \<and> refs_ok h t' \<and>
    dead t' = dead t \<and> sent t' = sent t"
  using assms decref_Some_ok [of h _ t] by (cases p) simp_all

lemma construct_ok:
  assumes "refs_ok h t" "fresh (Some c) t"
  shows "refs_ok (\<lambda>d. h d + one (Some c) d) (construct c t) \<and> dead (construct c t) = dead t \<and>
    sent (construct c t) = sent t"
proof -
  have f: "refno t c = None" "\<not> dead t c"
    using assms(2) by (simp_all add: fresh_def)
  have zero: "h c = 0"
    using refs_okD(2) [OF assms(1), of c] f(1) by simp
  have "refs_ok (h(c := 1)) (t\<lparr>refno := (refno t)(c := Some 1)\<rparr>)"
    by (rule refs_ok_update [OF assms(1)]) simp_all
  then have "refs_ok (\<lambda>d. h d + one (Some c) d) (t\<lparr>refno := (refno t)(c := Some 1)\<rparr>)"
    by (rule refs_ok_cong) (use zero in \<open>auto simp: fun_upd_def\<close>)
  moreover have "(dead t)(c := False) = dead t"
    using f(2) by (intro fun_upd_idem) simp
  ultimately show ?thesis
    by (simp add: construct_def del: one_simps)
qed

lemma incref_held_ok:
  assumes "refs_ok h t" "0 < h c"
  shows "\<exists>t'. incref c t = Some t' \<and> refs_ok (\<lambda>d. h d + one (Some c) d) t' \<and> dead t' = dead t \<and> sent t' = sent t"
  using incref_ok [OF assms] incref_Some_ok [OF assms] by blast

lemma decref_last: "refno t c = Some 1 \<Longrightarrow> dead t c \<Longrightarrow> decref c t = Some (t\<lparr>refno := (refno t)(c := None)\<rparr>)"
  by (simp add: decref_def)

lemma closeconn_ok:
  assumes "refs_ok h t" "0 < h c"
  shows "\<exists>t'. closeconn c t = Some t' \<and> refs_ok h t' \<and> dead t' = (dead t)(c := True) \<and> refno t' = refno t"
proof -
  have "isdead c t = Some (dead t c)"
    using refs_okD(3) [OF assms] by (simp add: isdead_def)
  moreover have "(dead t)(c := True) = dead t" if "dead t c"
    using that by (intro fun_upd_idem) simp
  ultimately show ?thesis
    using assms(1) by (cases "dead t c") (simp_all add: closeconn_def)
qed

end
