(* ===== verification/Rpc_Server.thy ===== *)
theory Rpc_Server
  imports Rpc_Stubs Reply_Window Connection_Refs
begin

text \<open>
  The server endpoint \<open>rpcs\<close> of \<open>rpc/rpc.h\<close> and \<open>rpc/rpc.cc\<close>: registration of handlers, the
  queueing of a received message as a job, and \<open>dispatch\<close>, which a worker thread runs on the job.
  \<open>None\<close> is a failed assertion, undefined behaviour, or a handler that waits. The state of the
  application behind the handlers is of type \<open>'s\<close>.
\<close>

section \<open>State\<close>

record 's rpc_server =
  rs_nonce :: u32
  rs_procs :: "u32 \<rightharpoonup> 's handler"
  rs_replies :: reply_state
  rs_conns :: "u32 \<rightharpoonup> conn"
  rs_counting :: int
  rs_curr_counts :: int
  rs_counts :: "u32 \<Rightarrow> int"
  rs_net :: conn_table
  rs_app :: 's

section \<open>Operations\<close>

definition reg1 :: "u32 \<Rightarrow> 's handler \<Rightarrow> 's rpc_server \<Rightarrow> 's rpc_server option" where
  "reg1 proc f s =
     (case rs_procs s proc of
        Some _ \<Rightarrow> None
      | None \<Rightarrow> Some (s\<lparr>rs_procs := (rs_procs s)(proc \<mapsto> f)\<rparr>))"

definition rpcbind :: "u32 \<Rightarrow> u32 \<Rightarrow> u32 \<Rightarrow> 's \<Rightarrow> (u32 \<times> u32 \<times> 's) option" where
  "rpcbind nonce a r s = Some (0, nonce, s)"

text \<open>A server starts with the handler of \<open>bind\<close>; \<open>r0\<close> is what its result variable holds.\<close>

definition new_rpc_server :: "u32 \<Rightarrow> u32 \<Rightarrow> int \<Rightarrow> conn_table \<Rightarrow> 's \<Rightarrow> 's rpc_server option" where
  "new_rpc_server nonce r0 count net app =
     reg1 rpc_bind (handler1 get_int put_int r0 (rpcbind nonce))
       \<lparr>rs_nonce = nonce, rs_procs = (\<lambda>_. None), rs_replies = empty_replies, rs_conns = (\<lambda>_. None),
        rs_counting = count, rs_curr_counts = count, rs_counts = (\<lambda>_. 0), rs_net = net, rs_app = app\<rparr>"

text \<open>The statistics; what they print is left out.\<close>

definition updatestat :: "u32 \<Rightarrow> 's rpc_server \<Rightarrow> 's rpc_server" where
  "updatestat proc s =
     (let s = s\<lparr>rs_counts := (rs_counts s)(proc := rs_counts s proc + 1),
                rs_curr_counts := rs_curr_counts s - 1\<rparr>
      in if rs_curr_counts s = 0 then s\<lparr>rs_curr_counts := rs_counting s\<rparr> else s)"

definition on_net :: "(conn_table \<Rightarrow> conn_table option) \<Rightarrow> 's rpc_server \<Rightarrow> 's rpc_server option" where
  "on_net f s = map_option (\<lambda>t. s\<lparr>rs_net := t\<rparr>) (f (rs_net s))"

text \<open>
  The two critical sections of \<open>dispatch\<close> for a client that wants at-most-once semantics: its
  window is created, and the connection becomes the latest one to the client.
\<close>

definition with_window :: "u32 \<Rightarrow> reply_state \<Rightarrow> reply_state" where
  "with_window clt w =
     (case reply_window w clt of
        Some _ \<Rightarrow> w
      | None \<Rightarrow> w\<lparr>reply_window := (reply_window w)(clt \<mapsto> [])\<rparr>)"

definition remember_conn :: "conn \<Rightarrow> u32 \<Rightarrow> 's rpc_server \<Rightarrow> 's rpc_server option" where
  "remember_conn c clt s =
     (case rs_conns s clt of
        None \<Rightarrow> do {
          s \<leftarrow> on_net (incref c) s;
          Some (s\<lparr>rs_conns := (rs_conns s)(clt \<mapsto> c)\<rparr>)
        }
      | Some c0 \<Rightarrow>
          if c0 \<noteq> c then do {
            s \<leftarrow> on_net (decref c0) s;
            s \<leftarrow> on_net (incref c) s;
            Some (s\<lparr>rs_conns := (rs_conns s)(clt \<mapsto> c)\<rparr>)
          }
          else Some s)"

definition note_client :: "conn \<Rightarrow> u32 \<Rightarrow> 's rpc_server \<Rightarrow> 's rpc_server option" where
  "note_client c clt s = remember_conn c clt (s\<lparr>rs_replies := with_window clt (rs_replies s)\<rparr>)"

text \<open>The duplicate check, or \<open>NEW\<close> for a client that does not want it.\<close>

definition check_request :: "conn \<Rightarrow> req_header \<Rightarrow> 's rpc_server
    \<Rightarrow> (rpcstate_t \<times> (addr option \<times> int) option \<times> 's rpc_server) option" where
  "check_request c h s =
     (if rq_clt_nonce h \<noteq> 0 then do {
        s \<leftarrow> note_client c (rq_clt_nonce h) s;
        (stat, out, w) \<leftarrow> checkduplicate_and_update (rq_clt_nonce h) (rq_xid h) (rq_xid_rep h) (rs_replies s);
        Some (stat, out, s\<lparr>rs_replies := w\<rparr>)
      }
      else Some (NEW, None, s))"

text \<open>
  The connection the reply goes to: another one if this one is dead and no longer the latest.
  The lookup in \<open>conns_\<close> gives a null pointer when the client has no connection there.
\<close>

definition latest_conn :: "conn \<Rightarrow> u32 \<Rightarrow> 's rpc_server \<Rightarrow> (conn \<times> 's rpc_server) option" where
  "latest_conn c clt s =
     (if dead (rs_net s) c \<and> rs_conns s clt \<noteq> Some c then do {
        s \<leftarrow> on_net (decref c) s;
        (case rs_conns s clt of
           None \<Rightarrow> None
         | Some c' \<Rightarrow> do { s \<leftarrow> on_net (incref c') s; Some (c', s) })
      }
      else Some (c, s))"

text \<open>
  A new request: the handler runs, its reply goes into the window as the block \<open>a\<close> (or, without
  at-most-once semantics, is freed after it was sent), and is sent.
\<close>

definition execute_request :: "(nat \<Rightarrow> u8) \<Rightarrow> addr \<Rightarrow> conn \<Rightarrow> req_header \<Rightarrow> 's handler \<Rightarrow> unmarshall
    \<Rightarrow> 's rpc_server \<Rightarrow> 's rpc_server option" where
  "execute_request g a c h f req s =
     (let s = (if rs_counting s \<noteq> 0 then updatestat (rq_proc h) s else s) in do {
        (ret, rep, app) \<leftarrow> f req (new_marshall g) (rs_app s);
        (if 0 \<le> sint ret \<or> ret = unmarshal_args_failure then do {
           rep \<leftarrow> pack_reply_header \<lparr>rp_xid = rq_xid h, rp_ret = ret\<rparr> rep;
           let b1 = m_bytes rep;
           let s = s\<lparr>rs_app := app\<rparr>;
           s \<leftarrow> (if rq_clt_nonce h > 0
                then map_option (\<lambda>w. s\<lparr>rs_replies := w\<rparr>)
                       (save_reply (rq_clt_nonce h) (rq_xid h) (a, b1) (rs_replies s))
                else Some s);
           (c, s) \<leftarrow> latest_conn c (rq_clt_nonce h) s;
           s \<leftarrow> on_net (conn_send c b1) s;
           on_net (decref c) s
         }
         else None)
      })"

text \<open>A reply that is a header only.\<close>

definition send_failure :: "(nat \<Rightarrow> u8) \<Rightarrow> conn \<Rightarrow> req_header \<Rightarrow> u32 \<Rightarrow> 's rpc_server
    \<Rightarrow> 's rpc_server option" where
  "send_failure g c h ret s = do {
     rep \<leftarrow> pack_reply_header \<lparr>rp_xid = rq_xid h, rp_ret = ret\<rparr> (new_marshall g);
     on_net (conn_send c (m_bytes rep)) s
   }"

definition dispatch :: "(nat \<Rightarrow> u8) \<Rightarrow> addr \<Rightarrow> conn \<Rightarrow> u8 list \<Rightarrow> 's rpc_server
    \<Rightarrow> 's rpc_server option" where
  "dispatch g a c buf s = do {
     (h, req) \<leftarrow> unpack_req_header (new_unmarshall buf (int (length buf)));
     (if \<not> u_ok req then on_net (decref c) s
      else if rq_srv_nonce h \<noteq> 0 \<and> rq_srv_nonce h \<noteq> rs_nonce s
      then send_failure g c h oldsrv_failure s
      else case rs_procs s (rq_proc h) of
        None \<Rightarrow> on_net (decref c) s
      | Some f \<Rightarrow> do {
          (stat, out, s) \<leftarrow> check_request c h s;
          (case stat of
             NEW \<Rightarrow> execute_request g a c h f req s
           | INPROGRESS \<Rightarrow> on_net (decref c) s
           | DONE \<Rightarrow>
               (case out of
                  Some (Some p, sz) \<Rightarrow> do {
                    b1 \<leftarrow> rheap (rs_replies s) p;
                    s \<leftarrow> on_net (conn_send c (take (nat sz) b1)) s;
                    on_net (decref c) s
                  }
                | _ \<Rightarrow> None)
           | FORGOTTEN \<Rightarrow> do {
               s \<leftarrow> send_failure g c h atmostonce_failure s;
               on_net (decref c) s
             })
        })
   }"

text \<open>
  The callback of the connection: the job takes a reference on the connection, and gives it back
  when the queue of the pool does not accept the job.
\<close>

definition rpcs_got_pdu :: "bool \<Rightarrow> conn \<Rightarrow> 's rpc_server \<Rightarrow> (bool \<times> 's rpc_server) option" where
  "rpcs_got_pdu accepted c s = do {
     s \<leftarrow> on_net (incref c) s;
     s \<leftarrow> (if accepted then Some s else on_net (decref c) s);
     Some (accepted, s)
   }"

section \<open>References and memory\<close>

text \<open>
  \<open>J\<close> counts the references to a connection that are held outside the server's table: by the
  listener and by the jobs, one each. The count of a connection is those and its entries in the
  table of latest connections.
\<close>

definition table_refs :: "(u32 \<rightharpoonup> conn) \<Rightarrow> conn \<Rightarrow> int" where
  "table_refs m c = int (card {clt. m clt = Some c})"

definition refs_inv :: "(conn \<Rightarrow> int) \<Rightarrow> 's rpc_server \<Rightarrow> bool" where
  "refs_inv J s \<longleftrightarrow> (\<forall>c. 0 \<le> J c) \<and> refs_ok (\<lambda>c. J c + table_refs (rs_conns s) c) (rs_net s)"

lemma finite_clients [simp]: "finite (A :: u32 set)"
  by (rule finite_subset [OF subset_UNIV]) simp

lemma table_refs_nonneg [simp]: "0 \<le> table_refs m c"
  by (simp add: table_refs_def)

lemma table_refs_pos: "m clt = Some c \<Longrightarrow> 0 < table_refs m c"
  by (auto simp: table_refs_def card_gt_0_iff)

lemma table_refs_add:
  assumes "m clt = None"
  shows "table_refs (m(clt \<mapsto> c)) = (table_refs m)(c := table_refs m c + 1)"
proof
  fix d
  have "{k. (m(clt \<mapsto> c)) k = Some d} = (if d = c then insert clt {k. m k = Some d} else {k. m k = Some d})"
    using assms by auto
  then show "table_refs (m(clt \<mapsto> c)) d = ((table_refs m)(c := table_refs m c + 1)) d"
    using assms by (simp add: table_refs_def)
qed

lemma table_refs_drop:
  assumes "m clt = Some c"
  shows "table_refs (m(clt := None)) = (table_refs m)(c := table_refs m c - 1)"
proof -
  have "m = (m(clt := None))(clt \<mapsto> c)"
    using assms by auto
  then have "table_refs m = (table_refs (m(clt := None)))(c := table_refs (m(clt := None)) c + 1)"
    using table_refs_add [of "m(clt := None)" clt c] by simp
  then show ?thesis
    by (simp add: fun_eq_iff)
qed

lemma table_refs_change:
  assumes "m clt = Some c0"
  shows "table_refs (m(clt \<mapsto> c))
    = ((table_refs m)(c0 := table_refs m c0 - 1))
        (c := ((table_refs m)(c0 := table_refs m c0 - 1)) c + 1)"
  using table_refs_add [of "m(clt := None)" clt c] table_refs_drop [of m clt c0, OF assms] by simp

text \<open>The operations on the references, as steps of the invariant.\<close>

lemma refs_ok_pos: "refs_inv J s \<Longrightarrow> 0 < J c \<or> rs_conns s clt = Some c \<Longrightarrow>
    0 < J c + table_refs (rs_conns s) c"
  using table_refs_pos [of "rs_conns s" clt c] by (auto simp: refs_inv_def add_pos_nonneg add_nonneg_pos)

text \<open>What a step leaves alone, apart from references and sent messages.\<close>

definition same_but_net :: "'s rpc_server \<Rightarrow> 's rpc_server \<Rightarrow> bool" where
  "same_but_net s s' \<longleftrightarrow> (\<exists>t. s' = s\<lparr>rs_net := t\<rparr> \<and> dead t = dead (rs_net s))"

lemma same_but_netD:
  assumes "same_but_net s s'"
  shows "rs_nonce s' = rs_nonce s" "rs_procs s' = rs_procs s" "rs_replies s' = rs_replies s"
    "rs_conns s' = rs_conns s" "rs_counting s' = rs_counting s" "rs_app s' = rs_app s"
    "rs_counts s' = rs_counts s" "rs_curr_counts s' = rs_curr_counts s"
    "dead (rs_net s') = dead (rs_net s)"
  using assms by (auto simp: same_but_net_def)

lemma drop_job:
  assumes "refs_inv J s" "0 < J c"
  shows "\<exists>s'. on_net (decref c) s = Some s' \<and> refs_inv (J(c := J c - 1)) s' \<and> same_but_net s s' \<and>
    sent (rs_net s') = sent (rs_net s)"
proof -
  let ?h = "\<lambda>d. J d + table_refs (rs_conns s) d"
  have "0 < ?h c"
    using refs_ok_pos [OF assms(1)] assms(2) by blast
  then obtain t where t: "decref c (rs_net s) = Some t" "refs_ok (?h(c := ?h c - 1)) t"
      "dead t = dead (rs_net s)" "sent t = sent (rs_net s)"
    using decref_ok [of ?h "rs_net s" c] assms(1) by (auto simp: refs_inv_def)
  have "?h(c := ?h c - 1) = (\<lambda>d. (J(c := J c - 1)) d + table_refs (rs_conns s) d)"
    by auto
  with t assms show ?thesis
    by (auto simp: on_net_def refs_inv_def same_but_net_def)
qed

lemma take_job:
  assumes "refs_inv J s" "0 < J c"
  shows "\<exists>s'. on_net (incref c) s = Some s' \<and> refs_inv (J(c := J c + 1)) s' \<and> same_but_net s s'"
proof -
  let ?h = "\<lambda>d. J d + table_refs (rs_conns s) d"
  have "0 < ?h c"
    using refs_ok_pos [OF assms(1)] assms(2) by blast
  then obtain t where t: "incref c (rs_net s) = Some t" "refs_ok (?h(c := ?h c + 1)) t"
      "dead t = dead (rs_net s)"
    using incref_ok [of ?h "rs_net s" c] assms(1) by (auto simp: refs_inv_def)
  have "?h(c := ?h c + 1) = (\<lambda>d. (J(c := J c + 1)) d + table_refs (rs_conns s) d)"
    by auto
  with t assms show ?thesis
    by (auto simp: on_net_def refs_inv_def same_but_net_def add_nonneg_pos)
qed

lemma send_job:
  assumes "refs_inv J s" "0 < J c"
  shows "\<exists>s'. on_net (conn_send c b) s = Some s' \<and> refs_inv J s' \<and> same_but_net s s' \<and>
    sent (rs_net s') = sent (rs_net s) @ (if dead (rs_net s) c then [] else [(c, framed b)])"
proof -
  let ?h = "\<lambda>d. J d + table_refs (rs_conns s) d"
  have "0 < ?h c"
    using refs_ok_pos [OF assms(1)] assms(2) by blast
  then show ?thesis
    using conn_send_ok [of ?h "rs_net s" c b] assms(1)
    by (auto simp: on_net_def refs_inv_def same_but_net_def)
qed

text \<open>The state apart from the replies, the connections and the statistics.\<close>

definition frame :: "'s rpc_server \<Rightarrow> 's rpc_server \<Rightarrow> bool" where
  "frame s s' \<longleftrightarrow> rs_nonce s' = rs_nonce s \<and> rs_procs s' = rs_procs s \<and>
     rs_counting s' = rs_counting s \<and> rs_app s' = rs_app s \<and> dead (rs_net s') = dead (rs_net s)"

lemma same_frame: "same_but_net s s' \<Longrightarrow> frame s s'"
  by (simp add: frame_def same_but_netD)

lemma frame_trans: "frame s s' \<Longrightarrow> frame s' s'' \<Longrightarrow> frame s s''"
  by (simp add: frame_def)

text \<open>Creating an empty window adds no entry.\<close>

lemma with_window_simps [simp]:
  "reply_window (with_window clt w) clt \<noteq> None" "rheap (with_window clt w) = rheap w"
  "entries (with_window clt w) c = entries w c"
  by (auto simp: with_window_def entries_def split: option.splits)

lemma with_window_inv [simp]: "rw_inv w \<Longrightarrow> rw_inv (with_window clt w)"
  unfolding rw_inv_def by (auto simp: with_window_def split: option.splits)

lemma replies_refs_inv [simp]:
  "refs_inv J (s\<lparr>rs_replies := w\<rparr>) = refs_inv J s" "refs_inv J (s\<lparr>rs_app := a\<rparr>) = refs_inv J s"
  "refs_inv J (updatestat p s) = refs_inv J s"
  by (simp_all add: refs_inv_def updatestat_def Let_def)

lemma remember_conn_ok:
  assumes inv: "refs_inv J s" and c: "0 < J c"
  shows "\<exists>s'. remember_conn c clt s = Some s' \<and> refs_inv J s' \<and> frame s s' \<and>
    rs_conns s' = (rs_conns s)(clt \<mapsto> c) \<and> rs_replies s' = rs_replies s \<and>
    sent (rs_net s') = sent (rs_net s)"
proof -
  let ?T = "table_refs (rs_conns s)"
  let ?h = "\<lambda>d. J d + ?T d"
  have ok: "refs_ok ?h (rs_net s)" and J: "\<And>d. 0 \<le> J d"
    using inv by (simp_all add: refs_inv_def)
  have pos: "0 < ?h c"
    using refs_ok_pos [OF inv] c by blast
  show ?thesis
  proof (cases "rs_conns s clt")
    case None
    obtain t where t: "incref c (rs_net s) = Some t" "refs_ok (?h(c := ?h c + 1)) t"
        "dead t = dead (rs_net s)" "sent t = sent (rs_net s)"
      using incref_ok [OF ok pos] by blast
    have "?h(c := ?h c + 1) = (\<lambda>d. J d + table_refs ((rs_conns s)(clt \<mapsto> c)) d)"
      by (auto simp: table_refs_add [of "rs_conns s" clt, OF None])
    with t None J show ?thesis
      by (simp add: remember_conn_def on_net_def refs_inv_def frame_def)
  next
    case (Some c0)
    show ?thesis
    proof (cases "c0 = c")
      case True
      with Some inv show ?thesis
        by (auto simp: remember_conn_def frame_def)
    next
      case False
      have "0 < ?h c0"
        using refs_ok_pos [OF inv] Some by blast
      then obtain t0 where t0: "decref c0 (rs_net s) = Some t0" "refs_ok (?h(c0 := ?h c0 - 1)) t0"
          "dead t0 = dead (rs_net s)" "sent t0 = sent (rs_net s)"
        using decref_ok [OF ok] by blast
      let ?h0 = "?h(c0 := ?h c0 - 1)"
      have "0 < ?h0 c"
        using pos False by simp
      then obtain t where t: "incref c t0 = Some t" "refs_ok (?h0(c := ?h0 c + 1)) t"
          "dead t = dead t0" "sent t = sent t0"
        using incref_ok [OF t0(2)] by blast
      have "?h0(c := ?h0 c + 1) = (\<lambda>d. J d + table_refs ((rs_conns s)(clt \<mapsto> c)) d)"
        using False by (auto simp: table_refs_change [of "rs_conns s" clt, OF Some])
      with t0 t Some False J show ?thesis
        by (simp add: remember_conn_def on_net_def refs_inv_def frame_def)
    qed
  qed
qed

lemma note_client_ok:
  assumes "refs_inv J s" "0 < J c"
  shows "\<exists>s'. note_client c clt s = Some s' \<and> refs_inv J s' \<and> frame s s' \<and>
    rs_conns s' = (rs_conns s)(clt \<mapsto> c) \<and> rs_replies s' = with_window clt (rs_replies s) \<and>
    sent (rs_net s') = sent (rs_net s)"
  using remember_conn_ok [of J "s\<lparr>rs_replies := with_window clt (rs_replies s)\<rparr>" c clt] assms
  by (simp add: note_client_def frame_def)

lemma check_request_ok:
  assumes "refs_inv J s" "0 < J c" "rw_inv (rs_replies s)"
  obtains st out s' where "check_request c h s = Some (st, out, s')" "refs_inv J s'" "frame s s'"
    "rw_inv (rs_replies s')" "sent (rs_net s') = sent (rs_net s)"
    "rq_clt_nonce h \<noteq> 0 \<Longrightarrow> rs_conns s' (rq_clt_nonce h) = Some c"
    "rq_clt_nonce h \<noteq> 0 \<Longrightarrow> reply_window (rs_replies s') (rq_clt_nonce h) \<noteq> None"
    "rq_clt_nonce h = 0 \<Longrightarrow> st = NEW \<and> s' = s"
    "st = DONE \<Longrightarrow> \<exists>a bs. out = Some (Some a, int (length bs)) \<and> rheap (rs_replies s') a = Some bs"
    "\<And>a. rheap (rs_replies s) a = None \<Longrightarrow> rheap (rs_replies s') a = None"
proof (cases "rq_clt_nonce h = 0")
  case True
  with that [of NEW None s] assms show thesis
    by (simp add: check_request_def frame_def)
next
  case False
  let ?clt = "rq_clt_nonce h"
  obtain s1 where s1: "note_client c ?clt s = Some s1" "refs_inv J s1" "frame s s1"
      "rs_conns s1 = (rs_conns s)(?clt \<mapsto> c)" "rs_replies s1 = with_window ?clt (rs_replies s)"
      "sent (rs_net s1) = sent (rs_net s)"
    using note_client_ok [OF assms(1,2)] by blast
  obtain st out w where w: "checkduplicate_and_update ?clt (rq_xid h) (rq_xid_rep h) (rs_replies s1)
        = Some (st, out, w)" "rw_inv w" "st = DONE \<longleftrightarrow> out \<noteq> None"
      "\<And>p sz. out = Some (p, sz) \<Longrightarrow> \<exists>a bs. p = Some a \<and> rheap w a = Some bs \<and> sz = int (length bs)"
    using checkduplicate_safe [of "rs_replies s1" ?clt "rq_xid h" "rq_xid_rep h"] assms(3) s1(5)
    by (metis with_window_inv)
  have win: "reply_window w ?clt \<noteq> None"
    using checkduplicate_keeps_window [OF w(1), of ?clt] s1(5) with_window_simps(1) by metis
  have "check_request c h s = Some (st, out, s1\<lparr>rs_replies := w\<rparr>)"
    using False s1(1) w(1) by (simp add: check_request_def)
  then show thesis
  proof (rule that)
    show "frame s (s1\<lparr>rs_replies := w\<rparr>)"
      using s1(3) by (simp add: frame_def)
    show "\<exists>a bs. out = Some (Some a, int (length bs)) \<and> rheap (rs_replies (s1\<lparr>rs_replies := w\<rparr>)) a = Some bs"
      if "st = DONE"
      using w(3,4) that by (cases out) auto
    show "rheap (rs_replies (s1\<lparr>rs_replies := w\<rparr>)) b = None" if "rheap (rs_replies s) b = None" for b
      using checkduplicate_shrinks [OF w(1), of b] s1(5) that by simp
  qed (use False s1 w(2) win in simp_all)
qed

text \<open>The reference of the job moves to the connection the reply is sent on.\<close>

definition move_ref :: "conn \<Rightarrow> conn \<Rightarrow> (conn \<Rightarrow> int) \<Rightarrow> conn \<Rightarrow> int" where
  "move_ref c c' J = (J(c := J c - 1))(c' := (J(c := J c - 1)) c' + 1)"

lemma move_ref_drop [simp]: "(move_ref c c' J)(c' := move_ref c c' J c' - 1) = J(c := J c - 1)"
  by (auto simp: move_ref_def)

lemma move_ref_same [simp]: "move_ref c c J = J"
  by (auto simp: move_ref_def)

lemma latest_conn_ok:
  assumes "refs_inv J s" "0 < J c" "dead (rs_net s) c \<Longrightarrow> rs_conns s clt \<noteq> None"
  obtains c' s' where "latest_conn c clt s = Some (c', s')" "refs_inv (move_ref c c' J) s'"
    "0 < move_ref c c' J c'" "same_but_net s s'" "sent (rs_net s') = sent (rs_net s)"
    "c' = (if dead (rs_net s) c then the (rs_conns s clt) else c) \<or> c' = c"
proof (cases "dead (rs_net s) c \<and> rs_conns s clt \<noteq> Some c")
  case False
  then have "latest_conn c clt s = Some (c, s)"
    unfolding latest_conn_def by (rule if_not_P)
  moreover have "same_but_net s s"
    unfolding same_but_net_def by (intro exI [of _ "rs_net s"]) simp
  ultimately show thesis
    using assms(1,2) by - (rule that [of c s], simp_all)
next
  case True
  with assms(3) obtain c' where c': "rs_conns s clt = Some c'"
    by blast
  obtain s1 where s1: "on_net (decref c) s = Some s1" "refs_inv (J(c := J c - 1)) s1"
      "same_but_net s s1" "sent (rs_net s1) = sent (rs_net s)"
    using drop_job [OF assms(1,2)] by blast
  note same = same_but_netD [OF s1(3)]
  let ?J = "J(c := J c - 1)"
  let ?h = "\<lambda>d. ?J d + table_refs (rs_conns s1) d"
  have "0 < ?h c'"
    using refs_ok_pos [OF s1(2)] c' same(4) by metis
  then obtain t where t: "incref c' (rs_net s1) = Some t" "refs_ok (?h(c' := ?h c' + 1)) t"
      "dead t = dead (rs_net s1)" "sent t = sent (rs_net s1)"
    using incref_ok [of ?h "rs_net s1" c'] s1(2) unfolding refs_inv_def by blast
  have J: "0 \<le> ?J d" for d
    using s1(2) unfolding refs_inv_def by blast
  have "?h(c' := ?h c' + 1) = (\<lambda>d. move_ref c c' J d + table_refs (rs_conns s1) d)"
    by (auto simp: move_ref_def)
  moreover have "0 \<le> move_ref c c' J d" for d
    using J [of d] J [of c'] by (simp add: move_ref_def)
  ultimately have "refs_inv (move_ref c c' J) (s1\<lparr>rs_net := t\<rparr>)"
    using t(2) by (simp add: refs_inv_def)
  moreover have "0 < move_ref c c' J c'"
    using J [of c'] by (simp add: move_ref_def)
  moreover have "same_but_net s (s1\<lparr>rs_net := t\<rparr>)"
    using s1(3) t(3) same(9) by (auto simp: same_but_net_def)
  moreover have "latest_conn c clt s = Some (c', s1\<lparr>rs_net := t\<rparr>)"
  proof -
    have "on_net (incref c') s1 = Some (s1\<lparr>rs_net := t\<rparr>)"
      using t(1) by (simp add: on_net_def)
    then show ?thesis
      using True c' s1(1) same(4) by (simp add: latest_conn_def)
  qed
  moreover have "sent (rs_net (s1\<lparr>rs_net := t\<rparr>)) = sent (rs_net s)"
    using t(4) s1(4) by simp
  moreover have "c' = (if dead (rs_net s) c then the (rs_conns s clt) else c) \<or> c' = c"
    using True c' by simp
  ultimately show thesis
    by - (rule that)
qed

text \<open>What dispatch relies on of a handler: it returns, with a status it may return.\<close>

definition handler_returns :: "'s handler \<Rightarrow> unmarshall \<Rightarrow> (nat \<Rightarrow> u8) \<Rightarrow> 's \<Rightarrow> bool" where
  "handler_returns f u g a \<longleftrightarrow>
     (\<exists>ret rep a'. f u (new_marshall g) a = Some (ret, rep, a') \<and> wf_marshall rep \<and>
       (0 \<le> sint ret \<or> ret = unmarshal_args_failure))"

definition handler_ok :: "'s handler \<Rightarrow> bool" where
  "handler_ok f \<longleftrightarrow> (\<forall>u g a. wf_unmarshall u \<longrightarrow> handler_returns f u g a)"

lemma pack_reply_ok:
  assumes "wf_marshall m"
  shows "pack_reply_header h m = Some (m\<lparr>m_buf := Some (overwrite (the (m_buf m)) 4 (enc_reply_header h))\<rparr>)"
    "m_bytes (m\<lparr>m_buf := Some (overwrite (the (m_buf m)) 4 (enc_reply_header h))\<rparr>)
       = overwrite (m_bytes m) 4 (enc_reply_header h)"
proof -
  obtain b where b: "m_buf m = Some b" "int (length b) = m_capa m" "DEFAULT_RPC_SZ \<le> m_capa m"
    using assms by (auto simp: wf_marshall_def wf_buf_def)
  then show "pack_reply_header h m = Some (m\<lparr>m_buf := Some (overwrite (the (m_buf m)) 4 (enc_reply_header h))\<rparr>)"
    using pack_reply_header_eq [OF b] by simp
  show "m_bytes (m\<lparr>m_buf := Some (overwrite (the (m_buf m)) 4 (enc_reply_header h))\<rparr>)
       = overwrite (m_bytes m) 4 (enc_reply_header h)"
    using wf_header_update(2) [OF assms b(1), of "enc_reply_header h"] b(1) by simp
qed

lemma send_failure_ok:
  assumes "refs_inv J s" "0 < J c"
  shows "\<exists>s'. send_failure g c h ret s = Some s' \<and> refs_inv J s' \<and> same_but_net s s'"
proof -
  obtain rep where "pack_reply_header \<lparr>rp_xid = rq_xid h, rp_ret = ret\<rparr> (new_marshall g) = Some rep"
    using pack_reply_ok(1) [OF wf_new_marshall] by blast
  with send_job [OF assms, of "m_bytes rep"] show ?thesis
    by (simp add: send_failure_def) blast
qed

lemma execute_request_ok:
  assumes "refs_inv J s" "0 < J c" "rw_inv (rs_replies s)" "handler_returns f req g (rs_app s)"
    and "rq_clt_nonce h \<noteq> 0 \<Longrightarrow> reply_window (rs_replies s) (rq_clt_nonce h) \<noteq> None"
    and "dead (rs_net s) c \<Longrightarrow> rs_conns s (rq_clt_nonce h) \<noteq> None"
    and "rheap (rs_replies s) a = None"
  shows "\<exists>s'. execute_request g a c h f req s = Some s' \<and> refs_inv (J(c := J c - 1)) s' \<and>
    rw_inv (rs_replies s') \<and> rs_procs s' = rs_procs s \<and> rs_nonce s' = rs_nonce s"
proof -
  let ?clt = "rq_clt_nonce h"
  define s1 where "s1 = (if rs_counting s \<noteq> 0 then updatestat (rq_proc h) s else s)"
  have s1: "refs_inv J s1" "rs_replies s1 = rs_replies s" "rs_conns s1 = rs_conns s"
    "rs_net s1 = rs_net s" "rs_procs s1 = rs_procs s" "rs_nonce s1 = rs_nonce s" "rs_app s1 = rs_app s"
    using assms(1) by (auto simp: s1_def) (simp_all add: updatestat_def Let_def)
  obtain ret rep app where f: "f req (new_marshall g) (rs_app s1) = Some (ret, rep, app)"
      "wf_marshall rep" "0 \<le> sint ret \<or> ret = unmarshal_args_failure"
    using assms(4) s1(7) unfolding handler_returns_def by auto
  obtain rep' where rep': "pack_reply_header \<lparr>rp_xid = rq_xid h, rp_ret = ret\<rparr> rep = Some rep'"
    using pack_reply_ok(1) [OF f(2)] by blast
  let ?s2 = "s1\<lparr>rs_app := app\<rparr>"
  obtain s3 where s3: "(if 0 < ?clt then map_option (\<lambda>w. ?s2\<lparr>rs_replies := w\<rparr>)
        (save_reply ?clt (rq_xid h) (a, m_bytes rep') (rs_replies ?s2)) else Some ?s2) = Some s3"
      "refs_inv J s3" "rw_inv (rs_replies s3)" "rs_conns s3 = rs_conns s" "rs_net s3 = rs_net s"
      "rs_procs s3 = rs_procs s" "rs_nonce s3 = rs_nonce s"
  proof (cases "?clt = 0")
    case True
    with that [of ?s2] s1 assms(3) show ?thesis
      by simp
  next
    case False
    then obtain w where "save_reply ?clt (rq_xid h) (a, m_bytes rep') (rs_replies s) = Some w" "rw_inv w"
      using save_reply_safe [OF assms(3,5,7), of "rq_xid h" "m_bytes rep'"] by blast
    with that [of "?s2\<lparr>rs_replies := w\<rparr>"] s1 False show ?thesis
      by (simp add: word_gt_0)
  qed
  obtain c' s4 where s4: "latest_conn c ?clt s3 = Some (c', s4)" "refs_inv (move_ref c c' J) s4"
      "0 < move_ref c c' J c'" "same_but_net s3 s4"
    using latest_conn_ok [OF s3(2) assms(2), of ?clt] assms(6) s3(4,5) by metis
  obtain s5 where s5: "on_net (conn_send c' (m_bytes rep')) s4 = Some s5"
      "refs_inv (move_ref c c' J) s5" "same_but_net s4 s5"
    using send_job [OF s4(2,3)] by blast
  obtain s6 where s6: "on_net (decref c') s5 = Some s6" "refs_inv (J(c := J c - 1)) s6" "same_but_net s5 s6"
    using drop_job [OF s5(2) s4(3)] by auto
  have "execute_request g a c h f req s = Some s6"
    using f(1,3) rep' s3(1) s4(1) s5(1) s6(1) by (auto simp: execute_request_def s1_def Let_def)
  then show ?thesis
    using s6(2) s3(3,6,7) same_but_netD [OF s4(4)] same_but_netD [OF s5(3)] same_but_netD [OF s6(3)]
    by simp
qed

text \<open>All of it: a job for a connection \<open>c\<close>, which holds one of the references \<open>J c\<close>.\<close>

definition request_header :: "u8 list \<Rightarrow> req_header" where
  "request_header buf = fst (the (unpack_req_header (new_unmarshall buf (int (length buf)))))"

definition old_server_request :: "u8 list \<Rightarrow> 's rpc_server \<Rightarrow> bool" where
  "old_server_request buf s \<longleftrightarrow> RPC_HEADER_SZ \<le> int (length buf) \<and>
     rq_srv_nonce (request_header buf) \<noteq> 0 \<and> rq_srv_nonce (request_header buf) \<noteq> rs_nonce s"

definition server_ok :: "(conn \<Rightarrow> int) \<Rightarrow> 's rpc_server \<Rightarrow> bool" where
  "server_ok J s \<longleftrightarrow> refs_inv J s \<and> rw_inv (rs_replies s)"

text \<open>The handler of the request, if there is one, returns.\<close>

definition job_returns :: "(nat \<Rightarrow> u8) \<Rightarrow> u8 list \<Rightarrow> 's rpc_server \<Rightarrow> bool" where
  "job_returns g buf s \<longleftrightarrow>
     (case (unpack_req_header (new_unmarshall buf (int (length buf))),
            rs_procs s (rq_proc (request_header buf))) of
        (Some (h, req), Some f) \<Rightarrow> handler_returns f req g (rs_app s)
      | _ \<Rightarrow> True)"

lemma request_header_obtain:
  assumes "fits_int (int (length buf))"
  obtains req where
    "unpack_req_header (new_unmarshall buf (int (length buf))) = Some (request_header buf, req)"
    "wf_unmarshall req" "u_ok req \<longleftrightarrow> RPC_HEADER_SZ \<le> int (length buf)"
    "u_buf req = Some buf" "u_sz req = int (length buf)" "u_ind req = RPC_HEADER_SZ"
proof -
  have "wf_reader (new_unmarshall buf (int (length buf)))"
    using assms by (simp add: wf_reader_def new_unmarshall_def)
  then show thesis
    by (rule unpack_req_header_any) (use that in \<open>simp add: request_header_def new_unmarshall_def\<close>)
qed

text \<open>The steps of \<open>dispatch\<close> once the procedure of the request is found.\<close>

lemma dispatch_known:
  assumes "unpack_req_header (new_unmarshall buf (int (length buf))) = Some (h, req)" "u_ok req"
    and "\<not> (rq_srv_nonce h \<noteq> 0 \<and> rq_srv_nonce h \<noteq> rs_nonce s)" "rs_procs s (rq_proc h) = Some f"
  shows "dispatch g a c buf s = do {
      (stat, out, s) \<leftarrow> check_request c h s;
      (case stat of
         NEW \<Rightarrow> execute_request g a c h f req s
       | INPROGRESS \<Rightarrow> on_net (decref c) s
       | DONE \<Rightarrow>
           (case out of
              Some (Some p, sz) \<Rightarrow> do {
                b1 \<leftarrow> rheap (rs_replies s) p;
                s \<leftarrow> on_net (conn_send c (take (nat sz) b1)) s;
                on_net (decref c) s
              }
            | _ \<Rightarrow> None)
       | FORGOTTEN \<Rightarrow> do {
           s \<leftarrow> send_failure g c h atmostonce_failure s;
           on_net (decref c) s
         })
    }"
  using assms by (auto simp: dispatch_def)

lemma send_then_drop:
  assumes "refs_inv J s" "0 < J c"
  obtains s3 s4 where "on_net (conn_send c bs) s = Some s3" "on_net (decref c) s3 = Some s4"
    "refs_inv (J(c := J c - 1)) s4" "same_but_net s3 s4" "same_but_net s s3"
proof -
  obtain s3 where s3: "on_net (conn_send c bs) s = Some s3" "refs_inv J s3" "same_but_net s s3"
    using send_job [OF assms] by blast
  obtain s4 where "on_net (decref c) s3 = Some s4" "refs_inv (J(c := J c - 1)) s4" "same_but_net s3 s4"
    using drop_job [OF s3(2) assms(2)] by blast
  with s3 that show thesis
    by blast
qed

lemma dispatch_known_ok:
  assumes refs: "refs_inv J s" and replies: "rw_inv (rs_replies s)" and c: "0 < J c"
    and runs: "handler_returns f req g (rs_app s)"
    and live: "dead (rs_net s) c \<Longrightarrow> rq_clt_nonce h \<noteq> 0"
    and fresh: "rheap (rs_replies s) a = None"
    and req: "unpack_req_header (new_unmarshall buf (int (length buf))) = Some (h, req)" "u_ok req"
    and proc: "\<not> (rq_srv_nonce h \<noteq> 0 \<and> rq_srv_nonce h \<noteq> rs_nonce s)" "rs_procs s (rq_proc h) = Some f"
  shows "\<exists>s'. dispatch g a c buf s = Some s' \<and> server_ok (J(c := J c - 1)) s'"
proof -
  obtain st out s1 where chk: "check_request c h s = Some (st, out, s1)" "refs_inv J s1" "frame s s1"
      "rw_inv (rs_replies s1)"
      "rq_clt_nonce h \<noteq> 0 \<Longrightarrow> rs_conns s1 (rq_clt_nonce h) = Some c"
      "rq_clt_nonce h \<noteq> 0 \<Longrightarrow> reply_window (rs_replies s1) (rq_clt_nonce h) \<noteq> None"
      "st = DONE \<Longrightarrow> \<exists>a bs. out = Some (Some a, int (length bs)) \<and> rheap (rs_replies s1) a = Some bs"
      "\<And>a. rheap (rs_replies s) a = None \<Longrightarrow> rheap (rs_replies s1) a = None"
    by (rule check_request_ok [OF refs c replies, where h = h]) (rule that)
  note run = dispatch_known [OF req proc, where g = g and a = a and c = c, unfolded chk(1), simplified]
  show ?thesis
  proof (cases st)
    case NEW
    have "handler_returns f req g (rs_app s1)"
      using runs chk(3) by (simp add: frame_def)
    moreover have "rs_conns s1 (rq_clt_nonce h) \<noteq> None" if "dead (rs_net s1) c"
      using that live chk(3,5) by (simp add: frame_def)
    ultimately have "\<exists>s'. execute_request g a c h f req s1 = Some s' \<and> refs_inv (J(c := J c - 1)) s' \<and>
        rw_inv (rs_replies s') \<and> rs_procs s' = rs_procs s1 \<and> rs_nonce s' = rs_nonce s1"
      by (intro execute_request_ok [OF chk(2) c chk(4) _ chk(6)] chk(8) fresh)
    with NEW run show ?thesis
      by (auto simp: server_ok_def)
  next
    case INPROGRESS
    obtain s2 where "on_net (decref c) s1 = Some s2" "refs_inv (J(c := J c - 1)) s2" "same_but_net s1 s2"
      using drop_job [OF chk(2) c] by blast
    with INPROGRESS run chk(4) show ?thesis
      by (simp add: server_ok_def same_but_netD)
  next
    case DONE
    obtain p bs where out: "out = Some (Some p, int (length bs))" "rheap (rs_replies s1) p = Some bs"
      using chk(7) [OF DONE] by blast
    show ?thesis
      by (rule send_then_drop [OF chk(2) c, of bs])
        (use DONE run out chk(4) in \<open>simp add: server_ok_def same_but_netD\<close>)
  next
    case FORGOTTEN
    obtain s3 where s3: "send_failure g c h atmostonce_failure s1 = Some s3" "refs_inv J s3" "same_but_net s1 s3"
      using send_failure_ok [OF chk(2) c] by blast
    obtain s4 where s4: "on_net (decref c) s3 = Some s4" "refs_inv (J(c := J c - 1)) s4" "same_but_net s3 s4"
      using drop_job [OF s3(2) c] by blast
    from FORGOTTEN run s3 s4 chk(4) show ?thesis
      by (simp add: server_ok_def same_but_netD [OF s3(3)] same_but_netD [OF s4(3)])
  qed
qed

lemma dispatch_ok:
  assumes inv: "server_ok J s" and ret: "job_returns g buf s"
    and c: "0 < J c" and buf: "fits_int (int (length buf))"
    and live: "dead (rs_net s) c \<Longrightarrow> rq_clt_nonce (request_header buf) \<noteq> 0"
    and fresh: "rheap (rs_replies s) a = None"
  shows "\<exists>s'. dispatch g a c buf s = Some s' \<and>
    server_ok (if old_server_request buf s then J else J(c := J c - 1)) s'"
proof -
  let ?h = "request_header buf"
  have refs: "refs_inv J s" and replies: "rw_inv (rs_replies s)"
    using inv by (auto simp: server_ok_def)
  obtain req where req: "unpack_req_header (new_unmarshall buf (int (length buf))) = Some (?h, req)"
      "wf_unmarshall req" "u_ok req \<longleftrightarrow> RPC_HEADER_SZ \<le> int (length buf)"
    by (rule request_header_obtain [OF buf])
  obtain s0 where s0: "on_net (decref c) s = Some s0" "refs_inv (J(c := J c - 1)) s0" "same_but_net s s0"
    using drop_job [OF refs c] by blast
  have s0_ok: "server_ok (J(c := J c - 1)) s0"
    using s0(2) replies same_but_netD [OF s0(3)] by (simp add: server_ok_def)
  consider (short) "\<not> u_ok req" | (old) "u_ok req" "old_server_request buf s"
    | (bad) "u_ok req" "\<not> old_server_request buf s" "rs_procs s (rq_proc ?h) = None"
    | (good) f where "u_ok req" "\<not> old_server_request buf s" "rs_procs s (rq_proc ?h) = Some f"
    by blast
  then show ?thesis
  proof cases
    case short
    with req s0(1) s0_ok show ?thesis
      by (simp add: dispatch_def old_server_request_def)
  next
    case old
    obtain s1 where "send_failure g c ?h oldsrv_failure s = Some s1" "refs_inv J s1" "same_but_net s s1"
      using send_failure_ok [OF refs c] by blast
    with old req replies show ?thesis
      by (simp add: dispatch_def old_server_request_def server_ok_def same_but_netD)
  next
    case bad
    with req s0(1) s0_ok show ?thesis
      by (auto simp: dispatch_def old_server_request_def)
  next
    case good
    have "handler_returns f req g (rs_app s)"
      using ret req(1) good(3) by (simp add: job_returns_def)
    moreover have "\<not> (rq_srv_nonce ?h \<noteq> 0 \<and> rq_srv_nonce ?h \<noteq> rs_nonce s)"
      using good(1,2) req(3) by (auto simp: old_server_request_def)
    ultimately show ?thesis
      using dispatch_known_ok [OF refs replies c _ live fresh req(1)] good by simp
  qed
qed

section \<open>A request and its retransmission\<close>

lemma with_window_id: "reply_window w clt \<noteq> None \<Longrightarrow> with_window clt w = w"
  by (auto simp: with_window_def)

text \<open>A request the window does not know is new, and is known afterwards.\<close>

lemma checkduplicate_new:
  assumes "rw_inv w" "\<not> known w c x" "s < x"
  shows "\<exists>w'. checkduplicate_and_update c x s w = Some (NEW, None, w') \<and> known w' c x \<and> rw_inv w'"
proof -
  obtain st out w' where cd: "checkduplicate_and_update c x s w = Some (st, out, w')" "rw_inv w'"
    by (rule checkduplicate_safe [OF assms(1)])
  from cd(1) assms(3) have "st = NEW \<and> out = None \<and> known w' c x"
  proof (cases rule: checkduplicate_cases)
    case (1 l h)
    then show ?thesis
      by (simp add: known_entries new_reply_def)
  next
    case (2 l h r)
    with find_SomeD [OF 2(3)] assms(2) show ?thesis
      by (auto simp: known_entries)
  qed
  with cd show ?thesis
    by blast
qed

lemma check_request_eq:
  assumes "note_client c (rq_clt_nonce h) s = Some s1" "rq_clt_nonce h \<noteq> 0"
    and "checkduplicate_and_update (rq_clt_nonce h) (rq_xid h) (rq_xid_rep h) (rs_replies s1) = Some (st, out, w)"
  shows "check_request c h s = Some (st, out, s1\<lparr>rs_replies := w\<rparr>)"
  using assms by (simp add: check_request_def)

lemma execute_request_alive:
  assumes refs: "refs_inv J s" "0 < J c" and inv: "rw_inv (rs_replies s)" and f: "handler_returns f req g (rs_app s)"
    and clt: "rq_clt_nonce h \<noteq> 0"
    and kn: "known (rs_replies s) (rq_clt_nonce h) (rq_xid h)"
    and fresh: "rheap (rs_replies s) a = None" and alive: "\<not> dead (rs_net s) c"
  obtains b s' where "execute_request g a c h f req s = Some s'" "refs_inv (J(c := J c - 1)) s'"
    "rw_inv (rs_replies s')" "answered (rs_replies s') (rq_clt_nonce h) (rq_xid h) a b"
    "sent (rs_net s') = sent (rs_net s) @ [(c, framed b)]"
    "dead (rs_net s') = dead (rs_net s)" "rs_procs s' = rs_procs s" "rs_nonce s' = rs_nonce s"
    "\<And>ret rep app. f req (new_marshall g) (rs_app s) = Some (ret, rep, app) \<Longrightarrow>
       rs_app s' = app \<and> b = overwrite (m_bytes rep) 4 (enc_reply_header \<lparr>rp_xid = rq_xid h, rp_ret = ret\<rparr>)"
    "\<And>clt y. known (rs_replies s') clt y = known (rs_replies s) clt y"
    "\<And>d. d \<noteq> a \<Longrightarrow> rheap (rs_replies s') d = rheap (rs_replies s) d"
proof -
  define s1 where "s1 = (if rs_counting s \<noteq> 0 then updatestat (rq_proc h) s else s)"
  have s1: "refs_inv J s1" "rs_replies s1 = rs_replies s" "rs_net s1 = rs_net s"
      "rs_procs s1 = rs_procs s" "rs_nonce s1 = rs_nonce s" "rs_app s1 = rs_app s"
    using refs(1) by (auto simp: s1_def) (simp_all add: updatestat_def Let_def)
  obtain ret rep app where run: "f req (new_marshall g) (rs_app s1) = Some (ret, rep, app)"
      "wf_marshall rep" "0 \<le> sint ret \<or> ret = unmarshal_args_failure"
    using f s1(6) unfolding handler_returns_def by auto
  obtain rep' where rep': "pack_reply_header \<lparr>rp_xid = rq_xid h, rp_ret = ret\<rparr> rep = Some rep'"
      "m_bytes rep' = overwrite (m_bytes rep) 4 (enc_reply_header \<lparr>rp_xid = rq_xid h, rp_ret = ret\<rparr>)"
    using pack_reply_ok [OF run(2)] by blast
  have win: "reply_window (rs_replies s) (rq_clt_nonce h) \<noteq> None"
    using kn by (auto simp: known_def split: option.splits)
  obtain w where w: "save_reply (rq_clt_nonce h) (rq_xid h) (a, m_bytes rep') (rs_replies s) = Some w" "rw_inv w"
    using save_reply_safe [OF inv win fresh, of "rq_xid h" "m_bytes rep'"] by blast
  let ?s2 = "s1\<lparr>rs_app := app, rs_replies := w\<rparr>"
  obtain s3 where s3: "on_net (conn_send c (m_bytes rep')) ?s2 = Some s3" "refs_inv J s3"
      "same_but_net ?s2 s3" "sent (rs_net s3) = sent (rs_net s) @ [(c, framed (m_bytes rep'))]"
    using send_job [of J ?s2 c "m_bytes rep'"] s1 refs(2) alive by auto
  obtain s4 where s4: "on_net (decref c) s3 = Some s4" "refs_inv (J(c := J c - 1)) s4"
      "same_but_net s3 s4" "sent (rs_net s4) = sent (rs_net s3)"
    using drop_job [OF s3(2) refs(2)] by blast
  note same = same_but_netD [OF s3(3)] same_but_netD [OF s4(3)]
  have "latest_conn c (rq_clt_nonce h) ?s2 = Some (c, ?s2)"
    using alive s1(3) by (simp add: latest_conn_def)
  then have ex: "execute_request g a c h f req s = Some s4"
    using run(1,3) rep'(1) w(1) s3(1) s4(1) clt s1(2)
    by (simp add: execute_request_def word_gt_0 flip: s1_def)
  have "answered (rs_replies s4) (rq_clt_nonce h) (rq_xid h) a (m_bytes rep')"
    using answered_new [OF kn w(1)] same by simp
  then show thesis
    by (intro that [OF ex])
      (use s4 s3(4) w(2) same s1 run(1) rep'(2) save_reply_known [OF w(1)] save_reply_heap [OF w(1)] in simp_all)
qed

lemma answered_request_resent:
  assumes refs: "refs_inv J s" "0 < J c" and inv: "rw_inv (rs_replies s)"
    and buf: "fits_int (int (length buf))" "RPC_HEADER_SZ \<le> int (length buf)"
    and new: "\<not> old_server_request buf s" "rs_procs s (rq_proc (request_header buf)) \<noteq> None"
    and clt: "rq_clt_nonce (request_header buf) \<noteq> 0"
    and ack: "rq_xid_rep (request_header buf) < rq_xid (request_header buf)"
    and ans: "answered (rs_replies s) (rq_clt_nonce (request_header buf)) (rq_xid (request_header buf)) a b"
    and alive: "\<not> dead (rs_net s) c"
  shows "\<exists>s'. dispatch g a' c buf s = Some s' \<and> rs_app s' = rs_app s \<and>
    sent (rs_net s') = sent (rs_net s) @ [(c, framed b)]"
proof -
  let ?h = "request_header buf"
  obtain f where f: "rs_procs s (rq_proc ?h) = Some f"
    using new(2) by blast
  obtain req where req: "unpack_req_header (new_unmarshall buf (int (length buf))) = Some (?h, req)" "u_ok req"
    using request_header_obtain [OF buf(1)] buf(2) by metis
  obtain s1 where s1: "note_client c (rq_clt_nonce ?h) s = Some s1" "refs_inv J s1" "frame s s1"
      "rs_replies s1 = with_window (rq_clt_nonce ?h) (rs_replies s)" "sent (rs_net s1) = sent (rs_net s)"
    using note_client_ok [OF refs] by blast
  have ans1: "answered (rs_replies s1) (rq_clt_nonce ?h) (rq_xid ?h) a b"
    using ans s1(4) by (simp add: answered_def)
  obtain w where w: "checkduplicate_and_update (rq_clt_nonce ?h) (rq_xid ?h) (rq_xid_rep ?h) (rs_replies s1)
      = Some (DONE, Some (Some a, int (length b)), w)" "answered w (rq_clt_nonce ?h) (rq_xid ?h) a b"
    using answered_done [OF _ ans1 ack] inv s1(4) by auto
  let ?s2 = "s1\<lparr>rs_replies := w\<rparr>"
  have chk: "check_request c ?h s = Some (DONE, Some (Some a, int (length b)), ?s2)"
    by (rule check_request_eq [OF s1(1) clt w(1)])
  have refs2: "refs_inv J ?s2"
    using s1(2) by simp
  obtain s3 where s3: "on_net (conn_send c b) ?s2 = Some s3" "refs_inv J s3" "same_but_net ?s2 s3"
      "sent (rs_net s3) = sent (rs_net s) @ [(c, framed b)]"
    using send_job [OF refs2 refs(2), of b] alive s1(3,5) by (auto simp: frame_def)
  obtain s4 where s4: "on_net (decref c) s3 = Some s4" "same_but_net s3 s4" "sent (rs_net s4) = sent (rs_net s3)"
    using drop_job [OF s3(2) refs(2)] by blast
  have "rheap w a = Some b"
    using w(2) by (simp add: answered_def)
  then have "dispatch g a' c buf s = Some s4"
    using req f chk s3(1) s4(1) new(1) buf(2) by (auto simp: dispatch_def old_server_request_def)
  moreover have "rs_app s4 = rs_app s"
    using same_but_netD(6) [OF s3(3)] same_but_netD(6) [OF s4(2)] s1(3) by (simp add: frame_def)
  ultimately show ?thesis
    using s4(3) s3(4) by auto
qed

lemma new_request_answered:
  assumes ok: "server_ok J s" and ret: "job_returns g buf s" and c: "0 < J c"
    and buf: "fits_int (int (length buf))" "RPC_HEADER_SZ \<le> int (length buf)"
    and new: "\<not> old_server_request buf s" "rs_procs s (rq_proc (request_header buf)) \<noteq> None"
    and clt: "rq_clt_nonce (request_header buf) \<noteq> 0"
    and ack: "rq_xid_rep (request_header buf) < rq_xid (request_header buf)"
    and unk: "\<not> known (rs_replies s) (rq_clt_nonce (request_header buf)) (rq_xid (request_header buf))"
    and fresh: "rheap (rs_replies s) a = None" and alive: "\<not> dead (rs_net s) c"
  obtains b s' where "dispatch g a c buf s = Some s'" "refs_inv (J(c := J c - 1)) s'"
    "rw_inv (rs_replies s')"
    "answered (rs_replies s') (rq_clt_nonce (request_header buf)) (rq_xid (request_header buf)) a b"
    "sent (rs_net s') = sent (rs_net s) @ [(c, framed b)]"
    "dead (rs_net s') = dead (rs_net s)" "rs_procs s' = rs_procs s" "rs_nonce s' = rs_nonce s"
    "\<And>f req ret rep app. rs_procs s (rq_proc (request_header buf)) = Some f \<Longrightarrow>
       unpack_req_header (new_unmarshall buf (int (length buf))) = Some (request_header buf, req) \<Longrightarrow>
       f req (new_marshall g) (rs_app s) = Some (ret, rep, app) \<Longrightarrow> rs_app s' = app \<and>
       b = overwrite (m_bytes rep) 4 (enc_reply_header \<lparr>rp_xid = rq_xid (request_header buf), rp_ret = ret\<rparr>)"
    "\<And>clt y. known (rs_replies s') clt y \<Longrightarrow> known (rs_replies s) clt y \<or>
       clt = rq_clt_nonce (request_header buf) \<and> y = rq_xid (request_header buf)"
    "\<And>d. d \<noteq> a \<Longrightarrow> rheap (rs_replies s) d = None \<Longrightarrow> rheap (rs_replies s') d = None"
proof -
  let ?h = "request_header buf"
  have refs: "refs_inv J s" and inv: "rw_inv (rs_replies s)"
    using ok by (simp_all add: server_ok_def)
  obtain f where f: "rs_procs s (rq_proc ?h) = Some f"
    using new(2) by blast
  obtain req where req: "unpack_req_header (new_unmarshall buf (int (length buf))) = Some (?h, req)" "u_ok req"
      "wf_unmarshall req"
    using request_header_obtain [OF buf(1)] buf(2) by metis
  have runs: "handler_returns f req g (rs_app s)"
    using ret req(1) f by (simp add: job_returns_def)
  obtain s1 where s1: "note_client c (rq_clt_nonce ?h) s = Some s1" "refs_inv J s1" "frame s s1"
      "rs_replies s1 = with_window (rq_clt_nonce ?h) (rs_replies s)" "sent (rs_net s1) = sent (rs_net s)"
    using note_client_ok [OF refs c] by blast
  have "rw_inv (rs_replies s1)" "\<not> known (rs_replies s1) (rq_clt_nonce ?h) (rq_xid ?h)"
    using inv unk s1(4) by (simp_all add: known_entries)
  then obtain w where w: "checkduplicate_and_update (rq_clt_nonce ?h) (rq_xid ?h) (rq_xid_rep ?h) (rs_replies s1)
      = Some (NEW, None, w)" "known w (rq_clt_nonce ?h) (rq_xid ?h)" "rw_inv w"
    using checkduplicate_new ack by blast
  let ?s2 = "s1\<lparr>rs_replies := w\<rparr>"
  have chk: "check_request c ?h s = Some (NEW, None, ?s2)"
    by (rule check_request_eq [OF s1(1) clt w(1)])
  have p: "refs_inv J ?s2" "rw_inv (rs_replies ?s2)" "known (rs_replies ?s2) (rq_clt_nonce ?h) (rq_xid ?h)"
      "rheap (rs_replies ?s2) a = None" "\<not> dead (rs_net ?s2) c"
    using s1(2,3,4) w(2,3) alive checkduplicate_shrinks [OF w(1), of a] fresh by (simp_all add: frame_def)
  have runs': "handler_returns f req g (rs_app ?s2)"
    using runs s1(3) by (simp add: frame_def)
  obtain b s' where s': "execute_request g a c ?h f req ?s2 = Some s'" "refs_inv (J(c := J c - 1)) s'"
      "rw_inv (rs_replies s')" "answered (rs_replies s') (rq_clt_nonce ?h) (rq_xid ?h) a b"
      "sent (rs_net s') = sent (rs_net ?s2) @ [(c, framed b)]"
      "dead (rs_net s') = dead (rs_net ?s2)" "rs_procs s' = rs_procs ?s2" "rs_nonce s' = rs_nonce ?s2"
      "\<And>ret rep app. f req (new_marshall g) (rs_app ?s2) = Some (ret, rep, app) \<Longrightarrow> rs_app s' = app \<and>
         b = overwrite (m_bytes rep) 4 (enc_reply_header \<lparr>rp_xid = rq_xid ?h, rp_ret = ret\<rparr>)"
      "\<And>clt y. known (rs_replies s') clt y = known (rs_replies ?s2) clt y"
      "\<And>d. d \<noteq> a \<Longrightarrow> rheap (rs_replies s') d = rheap (rs_replies ?s2) d"
    by (rule execute_request_alive [OF p(1) c p(2) runs' clt p(3-5)]) (rule that)
  have "dispatch g a c buf s = Some s'"
    using req f chk s'(1) new(1) buf(2) by (auto simp: dispatch_def old_server_request_def)
  then show thesis
  proof (rule that)
    show "known (rs_replies s) k y \<or> k = rq_clt_nonce ?h \<and> y = rq_xid ?h"
      if "known (rs_replies s') k y" for k y
      using checkduplicate_known [OF w(1), of k y] that s'(10) s1(4) by (simp add: known_entries)
    show "rheap (rs_replies s') d = None" if "d \<noteq> a" "rheap (rs_replies s) d = None" for d
      using checkduplicate_shrinks [OF w(1), of d] that s'(11) s1(4) by simp
    show "rs_app s' = app \<and> b = overwrite (m_bytes rep) 4 (enc_reply_header \<lparr>rp_xid = rq_xid ?h, rp_ret = ret\<rparr>)"
      if "rs_procs s (rq_proc ?h) = Some f'"
        "unpack_req_header (new_unmarshall buf (int (length buf))) = Some (?h, req')"
        "f' req' (new_marshall g) (rs_app s) = Some (ret, rep, app)" for f' req' ret rep app
      using that f req(1) s'(9) s1(3) by (simp add: frame_def)
  qed (use s' s1(3,5) in \<open>simp_all add: frame_def\<close>)
qed

section \<open>A server with only the handler of bind\<close>

lemma handler1_ok:
  assumes "safe_read get1" "\<And>r. emits (put_r r) (enc r)" "\<And>r. 24 + int (length (enc r)) \<le> msg_limit"
    and "\<And>a r s. \<exists>b r' s'. meth a r s = Some (b, r', s') \<and> (0 \<le> sint b \<or> b = unmarshal_args_failure)"
  shows "handler_ok (handler1 get1 put_r r0 meth)"
  unfolding handler_ok_def handler_returns_def
proof (intro allI impI)
  fix u g a
  assume "wf_unmarshall u"
  then obtain x u' where u': "get1 u = Some (x, u')"
    using assms(1) unfolding safe_read_def by blast
  obtain b r s where m: "meth x r0 a = Some (b, r, s)" "0 \<le> sint b \<or> b = unmarshal_args_failure"
    using assms(4) by blast
  obtain rep where "put_r r (new_marshall g) = Some rep" "wf_marshall rep"
    by (rule emitsE [OF assms(2) wf_new_marshall]) (use assms(3) in \<open>simp add: new_marshall_ind\<close>)
  then show "\<exists>ret rep a'. handler1 get1 put_r r0 meth u (new_marshall g) a = Some (ret, rep, a') \<and>
      wf_marshall rep \<and> (0 \<le> sint ret \<or> ret = unmarshal_args_failure)"
    using u' m wf_new_marshall by (auto simp: handler1_def handler_end_def)
qed

lemma rpcbind_ok: "handler_ok (handler1 get_int put_int r0 (rpcbind nonce))"
  by (rule handler1_ok [OF cint.get_safe cint.put_emits]) (simp_all add: rpcbind_def msg_limit_def)

text \<open>Connection 3 has been accepted and holds two references: the listener's and a job's.\<close>

definition demo_net :: "bool \<Rightarrow> conn_table" where
  "demo_net d = \<lparr>refno = [3 \<mapsto> 2], dead = (\<lambda>_. d), sent = []\<rparr>"

definition demo_server :: "bool \<Rightarrow> unit rpc_server" where
  "demo_server d = the (new_rpc_server 42 0 0 (demo_net d) ())"

definition demo_jobs :: "conn \<Rightarrow> int" where
  "demo_jobs c = (if c = 3 then 2 else 0)"

text \<open>The message of a call of bind by client \<open>clt\<close> to the server instance \<open>srv\<close>.\<close>

definition bind_message :: "u32 \<Rightarrow> u32 \<Rightarrow> u8 list" where
  "bind_message clt srv = replicate 4 0 @
     enc_req_header \<lparr>rq_xid = 1, rq_proc = 1, rq_clt_nonce = clt, rq_srv_nonce = srv, rq_xid_rep = 0\<rparr> @
     be32 0"

lemma demo_server_eq:
  "demo_server d = \<lparr>rs_nonce = 42, rs_procs = [1 \<mapsto> handler1 get_int put_int 0 (rpcbind 42)],
     rs_replies = empty_replies, rs_conns = (\<lambda>_. None), rs_counting = 0, rs_curr_counts = 0,
     rs_counts = (\<lambda>_. 0), rs_net = demo_net d, rs_app = ()\<rparr>"
  by (simp add: demo_server_def new_rpc_server_def reg1_def rpc_bind_def)

lemma demo_server_returns:
  assumes "fits_int (int (length buf))"
  shows "job_returns g buf (demo_server d)"
proof -
  obtain req where "unpack_req_header (new_unmarshall buf (int (length buf))) = Some (request_header buf, req)"
      "wf_unmarshall req"
    by (rule request_header_obtain [OF assms])
  then show ?thesis
    using rpcbind_ok [of 0 42, unfolded handler_ok_def, rule_format, of req g "()"]
    by (simp add: job_returns_def demo_server_eq)
qed

lemma demo_server_ok: "server_ok demo_jobs (demo_server d)"
proof -
  have "refs_ok (\<lambda>c. demo_jobs c + table_refs (\<lambda>_. None) c) (demo_net d)"
    by (rule refs_okI) (auto simp: demo_jobs_def demo_net_def table_refs_def split: if_splits)
  then show ?thesis
    by (auto simp: server_ok_def refs_inv_def demo_server_eq demo_jobs_def empty_replies_inv split: if_splits)
qed

lemma bind_message_header:
  "request_header (bind_message clt srv) =
     \<lparr>rq_xid = 1, rq_proc = 1, rq_clt_nonce = clt, rq_srv_nonce = srv, rq_xid_rep = 0\<rparr>"
  "length (bind_message clt srv) = 28"
proof -
  show len: "length (bind_message clt srv) = 28"
    by (simp add: bind_message_def)
  let ?u = "new_unmarshall (bind_message clt srv) 28"
  have "unpack_req_header ?u = Some (\<lparr>rq_xid = 1, rq_proc = 1, rq_clt_nonce = clt, rq_srv_nonce = srv,
      rq_xid_rep = 0\<rparr>, ?u\<lparr>u_ind := RPC_HEADER_SZ\<rparr>)"
    by (rule unpack_req_header_eq [of _ "bind_message clt srv"])
      (use len in \<open>auto simp: new_unmarshall_def wf_reader_def fits_int_def int_max_def bind_message_def\<close>)
  then show "request_header (bind_message clt srv) =
     \<lparr>rq_xid = 1, rq_proc = 1, rq_clt_nonce = clt, rq_srv_nonce = srv, rq_xid_rep = 0\<rparr>"
    using len by (simp add: request_header_def)
qed

section \<open>Properties\<close>

text \<open>
  \<open>dispatch\<close> on any message whose handler returns, in any state the server can be in: no
  assertion fails, nothing
  that was deleted or freed is used, the window keeps its invariant, and every reference count
  stays the number of references held. The job gives its reference back, except when it answers
  a request for an old instance of the server. (A dead connection of a client without
  at-most-once semantics is excluded.)
\<close>

theorem dispatch_safe:
  assumes "server_ok J s" "job_returns g buf s" "0 < J c" "fits_int (int (length buf))"
    and "dead (rs_net s) c \<longrightarrow> rq_clt_nonce (request_header buf) \<noteq> 0"
    and "rheap (rs_replies s) a = None"
  shows "\<exists>s'. dispatch g a c buf s = Some s' \<and>
    server_ok (if old_server_request buf s then J else J(c := J c - 1)) s'"
  using assms by (intro dispatch_ok) auto

theorem dispatch_safe_witness:
  "\<exists>s'. dispatch (\<lambda>_. 0) 10 3 (bind_message 7 0) (demo_server True) = Some s' \<and>
    server_ok (if old_server_request (bind_message 7 0) (demo_server True) then demo_jobs
      else demo_jobs(3 := demo_jobs 3 - 1)) s'"
  by (rule dispatch_safe [OF demo_server_ok demo_server_returns])
    (simp_all add: bind_message_header demo_jobs_def fits_int_def int_max_def demo_server_eq empty_replies_def)

text \<open>
  A copy of a request that is dispatched right after the first, on the same living connection: it does
  not run the handler, and is answered with exactly the message that answered the first. For copies
  among other requests, in any number of threads, see \<open>Dispatch_Replies\<close>.
\<close>

theorem dispatch_twice:
  assumes "server_ok J s" "job_returns g buf s" "1 < J c" "\<not> dead (rs_net s) c"
    and "fits_int (int (length buf))" "RPC_HEADER_SZ \<le> int (length buf)"
    and "\<not> old_server_request buf s" "rs_procs s (rq_proc (request_header buf)) \<noteq> None"
    and "rq_clt_nonce (request_header buf) \<noteq> 0"
    and "rq_xid_rep (request_header buf) < rq_xid (request_header buf)"
    and "\<not> known (rs_replies s) (rq_clt_nonce (request_header buf)) (rq_xid (request_header buf))"
    and "rheap (rs_replies s) a = None"
  shows "\<exists>s1 s2 msg. dispatch g a c buf s = Some s1 \<and> dispatch g' a' c buf s1 = Some s2 \<and>
    rs_app s2 = rs_app s1 \<and> sent (rs_net s1) = sent (rs_net s) @ [(c, msg)] \<and>
    sent (rs_net s2) = sent (rs_net s) @ [(c, msg), (c, msg)]"
proof -
  have c: "0 < J c"
    using assms(3) by simp
  obtain b s1 where s1: "dispatch g a c buf s = Some s1" "refs_inv (J(c := J c - 1)) s1"
      "rw_inv (rs_replies s1)"
      "answered (rs_replies s1) (rq_clt_nonce (request_header buf)) (rq_xid (request_header buf)) a b"
      "sent (rs_net s1) = sent (rs_net s) @ [(c, framed b)]"
      "dead (rs_net s1) = dead (rs_net s)" "rs_procs s1 = rs_procs s" "rs_nonce s1 = rs_nonce s"
    by (rule new_request_answered [OF assms(1,2) c assms(5-12,4)])
  have "\<exists>s2. dispatch g' a' c buf s1 = Some s2 \<and> rs_app s2 = rs_app s1 \<and>
      sent (rs_net s2) = sent (rs_net s1) @ [(c, framed b)]"
    by (rule answered_request_resent [OF s1(2) _ s1(3) assms(5,6) _ _ assms(9,10) s1(4)])
      (use assms(3,4,7,8) s1(6-8) in \<open>simp_all add: old_server_request_def\<close>)
  with s1 show ?thesis
    by auto
qed

theorem dispatch_twice_witness:
  "\<exists>s1 s2 msg. dispatch (\<lambda>_. 0) 10 3 (bind_message 7 0) (demo_server False) = Some s1 \<and>
    dispatch (\<lambda>_. 1) 11 3 (bind_message 7 0) s1 = Some s2 \<and> rs_app s2 = rs_app s1 \<and>
    sent (rs_net s1) = sent (rs_net (demo_server False)) @ [(3, msg)] \<and>
    sent (rs_net s2) = sent (rs_net (demo_server False)) @ [(3, msg), (3, msg)]"
  by (rule dispatch_twice [OF demo_server_ok demo_server_returns])
    (simp_all add: bind_message_header demo_jobs_def fits_int_def int_max_def demo_server_eq demo_net_def
      empty_replies_def known_def old_server_request_def)

text \<open>
  A message the server cannot serve has no effect on the application or on the window of
  replies: one that is too short for a header, one for another instance of the server, one for
  a procedure that is not registered.
\<close>

theorem rejected_without_effect:
  assumes "fits_int (int (length buf))" "dispatch g a c buf s = Some s'"
    and "int (length buf) < RPC_HEADER_SZ \<or> old_server_request buf s
       \<or> rs_procs s (rq_proc (request_header buf)) = None"
  shows "rs_app s' = rs_app s \<and> rs_replies s' = rs_replies s \<and> rs_conns s' = rs_conns s"
proof -
  obtain req where req: "unpack_req_header (new_unmarshall buf (int (length buf))) = Some (request_header buf, req)"
      "u_ok req \<longleftrightarrow> RPC_HEADER_SZ \<le> int (length buf)"
    by (rule request_header_obtain [OF assms(1)])
  then have "\<exists>f. on_net f s = Some s'"
    using assms(2,3)
    by (auto simp: dispatch_def send_failure_def old_server_request_def split: if_splits option.splits
        Option.bind_splits)
  then show ?thesis
    by (auto simp: on_net_def)
qed

theorem rejected_without_effect_witness:
  "rs_app (the (dispatch (\<lambda>_. 0) 10 3 [1, 2, 3] (demo_server False))) = rs_app (demo_server False) \<and>
   rs_replies (the (dispatch (\<lambda>_. 0) 10 3 [1, 2, 3] (demo_server False))) = rs_replies (demo_server False) \<and>
   rs_conns (the (dispatch (\<lambda>_. 0) 10 3 [1, 2, 3] (demo_server False))) = rs_conns (demo_server False)"
proof (rule rejected_without_effect)
  show "fits_int (int (length [1 :: u8, 2, 3]))"
    by (simp add: fits_int_def int_max_def)
  show "dispatch (\<lambda>_. 0) 10 3 [1, 2, 3] (demo_server False)
      = Some (the (dispatch (\<lambda>_. 0) 10 3 [1, 2, 3] (demo_server False)))"
    by (rule option.collapse [symmetric]) code_simp
qed simp

text \<open>
  The reply to a request for an old instance of the server does not give the reference of
  its job back: with two references before, one of them the job's, two are left.
\<close>

theorem old_server_reply_leaks_reference:
  "map_option (\<lambda>s. refno (rs_net s) 3) (dispatch (\<lambda>_. 0) 10 3 (bind_message 7 41) (demo_server False))
     = Some (Some 2) \<and>
   map_option (\<lambda>s. refno (rs_net s) 3) (dispatch (\<lambda>_. 0) 10 3 [] (demo_server False)) = Some (Some 1)"
  by code_simp

text \<open>
  A client without at-most-once semantics has no entry in \<open>conns_\<close>: when its connection dies
  while its request runs, \<open>dispatch\<close> looks for another one and uses a null pointer.
\<close>

theorem dead_connection_without_nonce:
  "dispatch (\<lambda>_. 0) 10 3 (bind_message 0 0) (demo_server True) = None"
proof -
  have "Option.is_none (dispatch (\<lambda>_. 0) 10 3 (bind_message 0 0) (demo_server True))"
    by code_simp
  then show ?thesis
    by (simp add: Option.is_none_def split: option.splits)
qed

end
