(* ===== verification/Dispatch_Steps.thy ===== *)
theory Dispatch_Steps
  imports Rpc_Server
begin

text \<open>
  \<open>rpcs::dispatch\<close> of \<open>rpc/rpc.cc\<close> as the steps a worker thread takes: the function is cut where
  it takes a mutex, runs the handler, uses a connection or reads a buffer, so that other threads
  can run between any two of them. What the function holds in its local variables between two
  cuts is the phase of its job. Run without interruption, the steps are \<open>dispatch\<close>.
\<close>

section \<open>Phases\<close>

text \<open>The message a job is about to send: in memory of its own, or a block of the reply window.\<close>

datatype msg_buf = Own "u8 list" | Saved addr int

definition read_msg :: "msg_buf \<Rightarrow> heap \<Rightarrow> u8 list option" where
  "read_msg m h =
     (case m of Own b \<Rightarrow> Some b | Saved a n \<Rightarrow> map_option (take (nat n)) (h a))"

datatype 's job_phase =
    Start "u8 list"
  | Opens req_header "'s handler" unmarshall
  | Remembers req_header "'s handler" unmarshall
  | Checks req_header "'s handler" unmarshall
  | Runs req_header "'s handler" unmarshall
  | Saves req_header "u8 list"
  | Picks req_header msg_buf
  | Sends req_header msg_buf
  | Sends_old "u8 list"
  | Drops
  | Finished

type_synonym 's job = "conn \<times> 's job_phase"

section \<open>Steps\<close>

text \<open>The header is read, the instance of the server compared, and the handler looked up.\<close>

definition begin_job :: "(nat \<Rightarrow> u8) \<Rightarrow> u8 list \<Rightarrow> 's rpc_server \<Rightarrow> 's job_phase option" where
  "begin_job g buf s = do {
     (h, req) \<leftarrow> unpack_req_header (new_unmarshall buf (int (length buf)));
     (if \<not> u_ok req then Some Drops
      else if rq_srv_nonce h \<noteq> 0 \<and> rq_srv_nonce h \<noteq> rs_nonce s then do {
        rep \<leftarrow> pack_reply_header \<lparr>rp_xid = rq_xid h, rp_ret = oldsrv_failure\<rparr> (new_marshall g);
        Some (Sends_old (m_bytes rep))
      }
      else case rs_procs s (rq_proc h) of
        None \<Rightarrow> Some Drops
      | Some f \<Rightarrow> Some (if rq_clt_nonce h \<noteq> 0 then Opens h f req else Runs h f req))
   }"

text \<open>What the duplicate check decides.\<close>

definition decide :: "(nat \<Rightarrow> u8) \<Rightarrow> req_header \<Rightarrow> 's handler \<Rightarrow> unmarshall
    \<Rightarrow> rpcstate_t \<Rightarrow> (addr option \<times> int) option \<Rightarrow> 's job_phase option" where
  "decide g h f req st out =
     (case st of
        NEW \<Rightarrow> Some (Runs h f req)
      | INPROGRESS \<Rightarrow> Some Drops
      | DONE \<Rightarrow> (case out of Some (Some p, sz) \<Rightarrow> Some (Sends h (Saved p sz)) | _ \<Rightarrow> None)
      | FORGOTTEN \<Rightarrow> do {
          rep \<leftarrow> pack_reply_header \<lparr>rp_xid = rq_xid h, rp_ret = atmostonce_failure\<rparr> (new_marshall g);
          Some (Sends h (Own (m_bytes rep)))
        })"

text \<open>
  The handler runs and its reply is packed. The statistics have a mutex of their own and nobody
  else looks at them, so they are updated in the same step.
\<close>

definition run_handler :: "(nat \<Rightarrow> u8) \<Rightarrow> req_header \<Rightarrow> 's handler \<Rightarrow> unmarshall \<Rightarrow> 's rpc_server
    \<Rightarrow> (u8 list \<times> 's rpc_server) option" where
  "run_handler g h f req s =
     (let s = (if rs_counting s \<noteq> 0 then updatestat (rq_proc h) s else s) in do {
        (ret, rep, app) \<leftarrow> f req (new_marshall g) (rs_app s);
        (if 0 \<le> sint ret \<or> ret = unmarshal_args_failure then do {
           rep \<leftarrow> pack_reply_header \<lparr>rp_xid = rq_xid h, rp_ret = ret\<rparr> rep;
           Some (m_bytes rep, s\<lparr>rs_app := app\<rparr>)
         }
         else None)
      })"

text \<open>One step; \<open>g\<close> is what new memory holds, \<open>a\<close> is where the reply was allocated.\<close>

fun job_step :: "(nat \<Rightarrow> u8) \<Rightarrow> addr \<Rightarrow> conn \<Rightarrow> 's job_phase \<Rightarrow> 's rpc_server
    \<Rightarrow> (conn \<times> 's job_phase \<times> 's rpc_server) option" where
  "job_step g a c (Start buf) s = do { p \<leftarrow> begin_job g buf s; Some (c, p, s) }"
| "job_step g a c (Opens h f req) s =
     Some (c, Remembers h f req, s\<lparr>rs_replies := with_window (rq_clt_nonce h) (rs_replies s)\<rparr>)"
| "job_step g a c (Remembers h f req) s = do {
     s \<leftarrow> remember_conn c (rq_clt_nonce h) s;
     Some (c, Checks h f req, s)
   }"
| "job_step g a c (Checks h f req) s = do {
     (st, out, w) \<leftarrow> checkduplicate_and_update (rq_clt_nonce h) (rq_xid h) (rq_xid_rep h) (rs_replies s);
     p \<leftarrow> decide g h f req st out;
     Some (c, p, s\<lparr>rs_replies := w\<rparr>)
   }"
| "job_step g a c (Runs h f req) s = do {
     (b1, s) \<leftarrow> run_handler g h f req s;
     Some (c, if rq_clt_nonce h > 0 then Saves h b1 else Picks h (Own b1), s)
   }"
| "job_step g a c (Saves h b1) s = do {
     w \<leftarrow> save_reply (rq_clt_nonce h) (rq_xid h) (a, b1) (rs_replies s);
     Some (c, Picks h (Saved a (int (length b1))), s\<lparr>rs_replies := w\<rparr>)
   }"
| "job_step g a c (Picks h m) s = do {
     (c, s) \<leftarrow> latest_conn c (rq_clt_nonce h) s;
     Some (c, Sends h m, s)
   }"
| "job_step g a c (Sends h m) s = do {
     b \<leftarrow> read_msg m (rheap (rs_replies s));
     s \<leftarrow> on_net (conn_send c b) s;
     Some (c, Drops, s)
   }"
| "job_step g a c (Sends_old b) s = do { s \<leftarrow> on_net (conn_send c b) s; Some (c, Finished, s) }"
| "job_step g a c Drops s = do { s \<leftarrow> on_net (decref c) s; Some (c, Finished, s) }"
| "job_step g a c Finished s = None"

text \<open>The steps of one job without interruption, at most \<open>n\<close> of them.\<close>

fun run_job :: "(nat \<Rightarrow> u8) \<Rightarrow> addr \<Rightarrow> nat \<Rightarrow> 's job \<Rightarrow> 's rpc_server \<Rightarrow> 's rpc_server option" where
  "run_job g a n (c, Finished) s = Some s"
| "run_job g a 0 (c, p) s = None"
| "run_job g a (Suc n) (c, p) s = do {
     (c', p', s') \<leftarrow> job_step g a c p s;
     run_job g a n (c', p') s'
   }"

text \<open>How many steps a job has left at most.\<close>

fun steps_left :: "'s job_phase \<Rightarrow> nat" where
  "steps_left (Start _) = 9"
| "steps_left (Opens _ _ _) = 8"
| "steps_left (Remembers _ _ _) = 7"
| "steps_left (Checks _ _ _) = 6"
| "steps_left (Runs _ _ _) = 5"
| "steps_left (Saves _ _) = 4"
| "steps_left (Picks _ _) = 3"
| "steps_left (Sends _ _) = 2"
| "steps_left (Sends_old _) = 1"
| "steps_left Drops = 1"
| "steps_left Finished = 0"

lemma steps_left_zero [simp]: "steps_left p = 0 \<longleftrightarrow> p = Finished"
  by (cases p) simp_all

lemma begin_job_left: "begin_job g buf s = Some p \<Longrightarrow> steps_left p < 9"
  by (auto simp: begin_job_def split: if_splits option.splits Option.bind_splits)

lemma decide_left: "decide g h f req st out = Some p \<Longrightarrow> steps_left p < 6"
  by (auto simp: decide_def split: rpcstate_t.splits option.splits Option.bind_splits)

lemma job_step_left: "job_step g a c p s = Some (c', p', s') \<Longrightarrow> steps_left p' < steps_left p"
  by (cases p) (auto dest: begin_job_left decide_left split: Option.bind_splits)

section \<open>The steps of a job are \<open>dispatch\<close>\<close>

lemma run_job_step:
  "p \<noteq> Finished \<Longrightarrow> run_job g a (Suc n) (c, p) s = do {
     (c', p', s') \<leftarrow> job_step g a c p s;
     run_job g a n (c', p') s'
   }"
  by (cases p) simp_all

lemma run_job_Finished: "run_job g a n (c, Finished) s = Some s"
  by (cases n) simp_all

declare run_job.simps [simp del]
declare run_job_Finished [simp]

lemma run_job_Drops [simp]: "run_job g a (Suc n) (c, Drops) s = on_net (decref c) s"
  by (cases "on_net (decref c) s") (simp_all add: run_job_step)

lemma run_job_Sends_old [simp]: "run_job g a (Suc n) (c, Sends_old b) s = on_net (conn_send c b) s"
  by (cases "on_net (conn_send c b) s") (simp_all add: run_job_step)

lemma run_job_Sends [simp]:
  "run_job g a (Suc (Suc n)) (c, Sends h m) s = do {
     b \<leftarrow> read_msg m (rheap (rs_replies s));
     s \<leftarrow> on_net (conn_send c b) s;
     on_net (decref c) s
   }"
  by (simp add: bind_assoc run_job_step)

lemma read_saved:
  assumes "save_reply clt x (a, b) w = Some w'"
  shows "read_msg (Saved a (int (length b))) (rheap w') = Some b"
  using save_reply_heap [OF assms] by (simp add: read_msg_def)

lemma latest_conn_replies:
  assumes "latest_conn c clt s = Some (c', s')"
  shows "rs_replies s' = rs_replies s"
  using assms by (auto simp: latest_conn_def on_net_def split: if_splits option.splits Option.bind_splits)

lemma run_job_Picks:
  assumes "read_msg m (rheap (rs_replies s)) = Some b"
  shows "run_job g a (Suc (Suc (Suc n))) (c, Picks h m) s = do {
     (c, s) \<leftarrow> latest_conn c (rq_clt_nonce h) s;
     s \<leftarrow> on_net (conn_send c b) s;
     on_net (decref c) s
   }"
proof (cases "latest_conn c (rq_clt_nonce h) s")
  case None
  then show ?thesis
    by (simp add: run_job_step)
next
  case (Some r)
  then obtain c' s' where r: "latest_conn c (rq_clt_nonce h) s = Some (c', s')"
    by (cases r) simp
  show ?thesis
    using assms by (simp add: run_job_step r latest_conn_replies [OF r])
qed

lemma run_job_Saves:
  assumes "0 < rq_clt_nonce h"
  shows "run_job g a (Suc (Suc (Suc (Suc n)))) (c, Saves h b) s = do {
     s \<leftarrow> map_option (\<lambda>w. s\<lparr>rs_replies := w\<rparr>)
           (save_reply (rq_clt_nonce h) (rq_xid h) (a, b) (rs_replies s));
     (c, s) \<leftarrow> latest_conn c (rq_clt_nonce h) s;
     s \<leftarrow> on_net (conn_send c b) s;
     on_net (decref c) s
   }"
proof (cases "save_reply (rq_clt_nonce h) (rq_xid h) (a, b) (rs_replies s)")
  case None
  then show ?thesis
    by (simp add: run_job_step)
next
  case (Some w)
  show ?thesis
    using read_saved [OF Some] by (subst run_job_step) (simp_all add: Some run_job_Picks)
qed

lemma execute_request_run:
  "execute_request g a c h f req s = do {
     (b1, s) \<leftarrow> run_handler g h f req s;
     s \<leftarrow> (if rq_clt_nonce h > 0
          then map_option (\<lambda>w. s\<lparr>rs_replies := w\<rparr>)
                 (save_reply (rq_clt_nonce h) (rq_xid h) (a, b1) (rs_replies s))
          else Some s);
     (c, s) \<leftarrow> latest_conn c (rq_clt_nonce h) s;
     s \<leftarrow> on_net (conn_send c b1) s;
     on_net (decref c) s
   }"
proof -
  let ?s = "if rs_counting s \<noteq> 0 then updatestat (rq_proc h) s else s"
  show ?thesis
  proof (cases "f req (new_marshall g) (rs_app ?s)")
    case None
    then show ?thesis
      unfolding execute_request_def run_handler_def Let_def by (simp only: bind.bind_lzero)
  next
    case (Some r)
    obtain ret rep app where r: "r = (ret, rep, app)"
      by (cases r) auto
    show ?thesis
      unfolding execute_request_def run_handler_def Let_def
      by (simp only: Some r bind.bind_lunit prod.case)
        (cases "pack_reply_header \<lparr>rp_xid = rq_xid h, rp_ret = ret\<rparr> rep"; simp)
  qed
qed

lemma run_job_Runs:
  "run_job g a (Suc (Suc (Suc (Suc (Suc n))))) (c, Runs h f req) s = execute_request g a c h f req s"
proof (cases "run_handler g h f req s")
  case None
  then show ?thesis
    by (simp add: run_job_step execute_request_run)
next
  case (Some r)
  obtain b1 s1 where r: "r = (b1, s1)"
    by (cases r) auto
  have own: "read_msg (Own b1) k = Some b1" for k
    by (simp add: read_msg_def)
  show ?thesis
    by (subst run_job_step)
      (simp_all add: Some r execute_request_run run_job_Saves run_job_Picks [OF own])
qed

lemma run_job_decided:
  assumes "decide g h f req st out = Some p"
  shows "run_job g a (Suc (Suc (Suc (Suc (Suc n))))) (c, p) s = (case st of
      NEW \<Rightarrow> execute_request g a c h f req s
    | INPROGRESS \<Rightarrow> on_net (decref c) s
    | DONE \<Rightarrow>
        (case out of
           Some (Some p, sz) \<Rightarrow> do {
             b1 \<leftarrow> rheap (rs_replies s) p;
             s \<leftarrow> on_net (conn_send c (take (nat sz) b1)) s;
             on_net (decref c) s
           }
         | _ \<Rightarrow> None)
    | FORGOTTEN \<Rightarrow> do {
        s \<leftarrow> send_failure g c h atmostonce_failure s;
        on_net (decref c) s
      })"
proof (cases st)
  case NEW
  with assms show ?thesis
    by (auto simp: decide_def run_job_Runs)
next
  case INPROGRESS
  with assms show ?thesis
    by (simp add: decide_def)
next
  case DONE
  with assms show ?thesis
    by (auto simp: decide_def read_msg_def bind_map_option comp_def split: option.splits prod.splits)
next
  case FORGOTTEN
  with assms show ?thesis
    by (auto simp: decide_def read_msg_def send_failure_def split: Option.bind_splits)
qed

lemma run_job_Checks:
  "run_job g a (Suc (Suc (Suc (Suc (Suc (Suc n)))))) (c, Checks h f req) s = do {
     (st, out, w) \<leftarrow> checkduplicate_and_update (rq_clt_nonce h) (rq_xid h) (rq_xid_rep h) (rs_replies s);
     let s = s\<lparr>rs_replies := w\<rparr> in
     (case st of
        NEW \<Rightarrow> execute_request g a c h f req s
      | INPROGRESS \<Rightarrow> on_net (decref c) s
      | DONE \<Rightarrow>
          (case out of
             Some (Some p, sz) \<Rightarrow> do {
               b1 \<leftarrow> rheap (rs_replies s) p;
               s \<leftarrow> on_net (conn_send c (take (nat sz) b1)) s;
               on_net (decref c) s
             }
           | _ \<Rightarrow> None)
      | FORGOTTEN \<Rightarrow> do {
          s \<leftarrow> send_failure g c h atmostonce_failure s;
          on_net (decref c) s
        })
   }"
proof (cases "checkduplicate_and_update (rq_clt_nonce h) (rq_xid h) (rq_xid_rep h) (rs_replies s)")
  case None
  then show ?thesis
    by (simp add: run_job_step)
next
  case (Some r)
  obtain st out w where r: "r = (st, out, w)"
    by (cases r) auto
  show ?thesis
  proof (cases "decide g h f req st out")
    case None
    then show ?thesis
      by (subst run_job_step, simp, cases st)
        (auto simp: Some r decide_def send_failure_def split: option.splits Option.bind_splits prod.splits)
  next
    case (Some p)
    note decided = run_job_decided [OF this]
    show ?thesis
      by (subst run_job_step, simp)
        (simp add: \<open>checkduplicate_and_update _ _ _ _ = Some r\<close> r Some decided Let_def del: bind.bind_lunit
          add: bind.bind_lunit)
  qed
qed

text \<open>A request whose procedure is found takes the steps of its client and its check.\<close>

lemma run_job_known:
  assumes req: "unpack_req_header (new_unmarshall buf (int (length buf))) = Some (h, req)" "u_ok req"
    and proc: "\<not> (rq_srv_nonce h \<noteq> 0 \<and> rq_srv_nonce h \<noteq> rs_nonce s)" "rs_procs s (rq_proc h) = Some f"
  shows "run_job g a (Suc (Suc (Suc (Suc (Suc (Suc (Suc (Suc (Suc 0))))))))) (c, Start buf) s = dispatch g a c buf s"
proof -
  note d = dispatch_known [OF req proc, where g = g and a = a and c = c]
  have b: "begin_job g buf s = Some (if rq_clt_nonce h \<noteq> 0 then Opens h f req else Runs h f req)"
    using assms by (auto simp: begin_job_def)
  show ?thesis
  proof (cases "rq_clt_nonce h = 0")
    case True
    then show ?thesis
      unfolding d by (subst run_job_step) (simp_all add: b check_request_def run_job_Runs)
  next
    case False
    then have start: "run_job g a (Suc (Suc (Suc (Suc (Suc (Suc (Suc (Suc (Suc 0))))))))) (c, Start buf) s = do {
        s \<leftarrow> note_client c (rq_clt_nonce h) s;
        run_job g a (Suc (Suc (Suc (Suc (Suc (Suc 0)))))) (c, Checks h f req) s
      }"
      by (simp add: run_job_step [of "Start _"] run_job_step [of "Opens _ _ _"]
          run_job_step [of "Remembers _ _ _"] b note_client_def bind_assoc)
    show ?thesis
    proof (cases "note_client c (rq_clt_nonce h) s")
      case None
      with False show ?thesis
        unfolding start d by (simp add: check_request_def)
    next
      case (Some s1)
      with False show ?thesis
        unfolding start d run_job_Checks
        by (cases "checkduplicate_and_update (rq_clt_nonce h) (rq_xid h) (rq_xid_rep h) (rs_replies s1)")
          (auto simp: check_request_def Let_def)
    qed
  qed
qed

text \<open>
  The steps of a job, when no other thread runs in between, are the function \<open>dispatch\<close>: they
  end after at most nine, with the same result, failures included.
\<close>

theorem dispatch_is_its_steps:
  "run_job g a 9 (c, Start buf) s = dispatch g a c buf s"
proof (cases "unpack_req_header (new_unmarshall buf (int (length buf)))")
  case None
  then show ?thesis
    by (simp add: eval_nat_numeral run_job_step begin_job_def dispatch_def)
next
  case (Some r)
  obtain h req where r: "r = (h, req)"
    by (cases r) auto
  have nine: "9 = Suc (Suc (Suc (Suc (Suc (Suc (Suc (Suc (Suc 0))))))))"
    by simp
  consider (short) "\<not> u_ok req" | (old) "u_ok req" "rq_srv_nonce h \<noteq> 0 \<and> rq_srv_nonce h \<noteq> rs_nonce s"
    | (bad) "u_ok req" "\<not> (rq_srv_nonce h \<noteq> 0 \<and> rq_srv_nonce h \<noteq> rs_nonce s)" "rs_procs s (rq_proc h) = None"
    | (good) f where "u_ok req" "\<not> (rq_srv_nonce h \<noteq> 0 \<and> rq_srv_nonce h \<noteq> rs_nonce s)" "rs_procs s (rq_proc h) = Some f"
    by blast
  then show ?thesis
  proof cases
    case short
    then show ?thesis
      unfolding nine by (subst run_job_step) (simp_all add: Some r begin_job_def dispatch_def)
  next
    case old
    then show ?thesis
      unfolding nine
      by (subst run_job_step) (auto simp: Some r begin_job_def dispatch_def send_failure_def
          split: Option.bind_splits)
  next
    case bad
    then show ?thesis
      unfolding nine by (subst run_job_step) (auto simp: Some r begin_job_def dispatch_def)
  next
    case good
    then show ?thesis
      unfolding nine by (intro run_job_known) (simp add: Some r)
  qed
qed

end
