(* ===== verification/Dispatch_Threads.thy ===== *)
theory Dispatch_Threads
  imports Dispatch_Steps
begin

text \<open>
  The worker threads of the server together: any number of jobs at any phase of \<open>dispatch\<close>, whose
  steps interleave with each other, with messages that arrive, and with connections that are
  accepted, die and are let go. A run is a list of actions; what the threads do to the reply
  window, which handlers they run and which replies they send, is recorded as a list of events.
\<close>

section \<open>State and actions\<close>

text \<open>
  \<open>wk_ext\<close> counts the references the listener and the poll manager hold on a connection,
  \<open>wk_lost\<close> those that a finished job did not give back.
\<close>

record 's workers =
  wk_jobs :: "'s job list"
  wk_ext :: "conn \<Rightarrow> int"
  wk_lost :: "conn \<Rightarrow> int"
  wk_server :: "'s rpc_server"

text \<open>
  An event names the client and the request it is about. \<open>Replied\<close> is a reply handed to the
  connection, with its bytes, \<open>Refused\<close> the reply to a request for another instance of the server.
\<close>

datatype server_event =
    Window "(addr \<times> u8 list) window_event \<times> rpcstate_t option"
  | Ran u32 u32
  | Replied conn u32 u32 "u8 list"
  | Refused conn

fun job_events :: "addr \<Rightarrow> conn \<Rightarrow> 's job_phase \<Rightarrow> 's rpc_server \<Rightarrow> server_event list" where
  "job_events a c (Checks h f req) s =
     (case check_state (rq_clt_nonce h) (rq_xid h) (rq_xid_rep h) (rs_replies s) of
        None \<Rightarrow> []
      | Some (st, _) \<Rightarrow> [Window (Req (rq_clt_nonce h) (rq_xid h) (rq_xid_rep h), Some st)])"
| "job_events a c (Runs h f req) s = [Ran (rq_clt_nonce h) (rq_xid h)]"
| "job_events a c (Saves h b) s = [Window (Rep (rq_clt_nonce h) (rq_xid h) (a, b), None)]"
| "job_events a c (Sends h m) s =
     (case read_msg m (rheap (rs_replies s)) of
        None \<Rightarrow> []
      | Some b \<Rightarrow> [Replied c (rq_clt_nonce h) (rq_xid h) b])"
| "job_events a c (Sends_old b) s = [Refused c]"
| "job_events a c _ s = []"

datatype action =
    Work nat "nat \<Rightarrow> u8" addr
  | Arrive conn "u8 list" bool
  | Accept conn
  | Close conn
  | Release conn

text \<open>
  An action whose operation fails gives \<open>None\<close>. Messages arrive on, and references are given back
  for, connections the listener holds.
\<close>

fun act :: "action \<Rightarrow> 's workers \<Rightarrow> (server_event list \<times> 's workers) option" where
  "act (Work i g a) k =
     (if i < length (wk_jobs k) then
        let (c, p) = wk_jobs k ! i in do {
          (c', p', s) \<leftarrow> job_step g a c p (wk_server k);
          Some (job_events a c p (wk_server k),
            k\<lparr>wk_jobs := (wk_jobs k)[i := (c', p')],
              wk_lost := (case p of Sends_old _ \<Rightarrow> (wk_lost k)(c := wk_lost k c + 1) | _ \<Rightarrow> wk_lost k),
              wk_server := s\<rparr>)
        }
      else None)"
| "act (Arrive c buf accepted) k =
     (if 0 < wk_ext k c then do {
        (accepted, s) \<leftarrow> rpcs_got_pdu accepted c (wk_server k);
        Some ([], k\<lparr>wk_jobs := wk_jobs k @ (if accepted then [(c, Start buf)] else []), wk_server := s\<rparr>)
      }
      else None)"
| "act (Accept c) k =
     (if fresh (Some c) (rs_net (wk_server k))
      then Some ([], k\<lparr>wk_ext := (wk_ext k)(c := wk_ext k c + 1),
        wk_server := (wk_server k)\<lparr>rs_net := construct c (rs_net (wk_server k))\<rparr>\<rparr>)
      else None)"
| "act (Close c) k = do {
     s \<leftarrow> on_net (closeconn c) (wk_server k);
     Some ([], k\<lparr>wk_server := s\<rparr>)
   }"
| "act (Release c) k =
     (if 0 < wk_ext k c then do {
        s \<leftarrow> on_net (decref c) (wk_server k);
        Some ([], k\<lparr>wk_ext := (wk_ext k)(c := wk_ext k c - 1), wk_server := s\<rparr>)
      }
      else None)"

fun run_workers :: "action list \<Rightarrow> 's workers \<Rightarrow> (server_event list \<times> 's workers) option" where
  "run_workers [] k = Some ([], k)"
| "run_workers (x # xs) k = do {
     (es, k) \<leftarrow> act x k;
     (es', k) \<leftarrow> run_workers xs k;
     Some (es @ es', k)
   }"

text \<open>A server before its first message.\<close>

definition idle_workers :: "(conn \<Rightarrow> int) \<Rightarrow> 's rpc_server \<Rightarrow> 's workers" where
  "idle_workers ext s = \<lparr>wk_jobs = [], wk_ext = ext, wk_lost = (\<lambda>_. 0), wk_server = s\<rparr>"

section \<open>The requests the window has\<close>

definition pending :: "reply_state \<Rightarrow> u32 \<Rightarrow> u32 \<Rightarrow> bool" where
  "pending w c x \<longleftrightarrow>
     (case find (\<lambda>r. rt_xid r = x) (entries w c) of None \<Rightarrow> False | Some r \<Rightarrow> \<not> rt_cb_present r)"

lemma pending_known: "pending w c x \<Longrightarrow> known w c x"
  by (auto simp: pending_def known_entries dest: find_SomeD split: option.splits)

lemma pending_unanswered: "pending w c x \<Longrightarrow> \<not> answered w c x a b"
  by (auto simp: pending_def answered_def split: option.splits)

lemma pending_window: "pending w c x \<Longrightarrow> reply_window w c \<noteq> None"
  by (auto simp: pending_def entries_def split: option.splits)

lemma pending_check:
  assumes "pending w c x" "checkduplicate_and_update c' y s w = Some (st, out, w')" "c' = c \<Longrightarrow> s \<le> x"
  shows "pending w' c x"
proof (cases "s < y")
  case False
  with assms show ?thesis
    by (simp add: checkduplicate_old not_less)
next
  case True
  with assms(2) show ?thesis
  proof (cases rule: checkduplicate_cases)
    case (1 l h)
    with assms(1,3) show ?thesis
      by (auto simp: pending_def find_append find_filter_xid split: option.splits)
  next
    case (2 l h r)
    with assms(1,3) show ?thesis
      by (auto simp: pending_def find_filter_xid split: option.splits)
  qed
qed

lemma check_new_pending:
  assumes "checkduplicate_and_update c x s w = Some (NEW, out, w')"
  shows "pending w' c x" "\<not> known w c x"
proof -
  have lt: "s < x"
    using assms checkduplicate_old [of x s c w] by (cases "s < x") auto
  from assms lt show "pending w' c x"
  proof (cases rule: checkduplicate_cases)
    case (1 l h)
    then show ?thesis
      by (simp add: pending_def find_append new_reply_def)
  qed (simp split: if_splits)
  have "check_state c x s w = Some (NEW, w')"
    using assms by (simp add: check_state_def)
  then show "\<not> known w c x"
    by (rule rw.new_unknown)
qed

lemma check_done_answered:
  assumes "checkduplicate_and_update c x s w = Some (DONE, out, w')" "rw_inv w'"
  obtains a b where "out = Some (Some a, int (length b))" "answered w' c x a b"
proof -
  have lt: "s < x"
    using assms checkduplicate_old [of x s c w] by (cases "s < x") auto
  from assms(1) lt show thesis
  proof (cases rule: checkduplicate_cases)
    case (1 l h)
    then show ?thesis
      by simp
  next
    case (2 l h r)
    have r: "find (\<lambda>r. rt_xid r = x) (entries w' c) = Some r" "rt_cb_present r" "out = Some (rt_buf r, rt_sz r)"
      using 2 by (auto split: if_splits)
    then have "wf_entry (rheap w') r"
      using rw_invD(4) [OF assms(2), of c] by (auto simp: list_all_iff dest: find_SomeD)
    with r that show ?thesis
      by (auto simp: wf_entry_def answered_def split: option.splits)
  qed
qed

lemma pending_save:
  assumes "pending w c x" "save_reply c' y b w = Some w'" "(c', y) \<noteq> (c, x)"
  shows "pending w' c x"
  using assms(1,3) save_reply_entries [OF assms(2), of c]
  by (auto simp: pending_def fill_reply_find_other split: option.splits)

lemma answered_checkduplicate:
  assumes "rw_inv w" "answered w c x a b" "checkduplicate_and_update c' y s w = Some (st, out, w')"
    and "c' = c \<Longrightarrow> s \<le> x"
  shows "answered w' c x a b"
  by (rule answered_check [OF assms(1,2) _ assms(4)]) (use assms(3) in \<open>auto simp: check_state_def\<close>)

section \<open>The invariant\<close>

text \<open>
  The requests a job is working on: \<open>running\<close> until the reply is in the window, \<open>under_way\<close> until
  it is sent. A request of a client without at-most-once semantics is in neither.
\<close>

definition request_key :: "req_header \<Rightarrow> (u32 \<times> u32) option" where
  "request_key h = (if rq_clt_nonce h = 0 then None else Some (rq_clt_nonce h, rq_xid h))"

fun running :: "'s job_phase \<Rightarrow> (u32 \<times> u32) option" where
  "running (Runs h f req) = request_key h"
| "running (Saves h b) = request_key h"
| "running _ = None"

fun under_way :: "'s job_phase \<Rightarrow> (u32 \<times> u32) option" where
  "under_way (Picks h m) = request_key h"
| "under_way (Sends h m) = (case m of Own b \<Rightarrow> None | Saved a n \<Rightarrow> request_key h)"
| "under_way p = running p"

lemma request_key_Some [simp]:
  "request_key h = Some (clt, x) \<longleftrightarrow> clt \<noteq> 0 \<and> clt = rq_clt_nonce h \<and> x = rq_xid h"
  by (auto simp: request_key_def)

lemma running_under_way: "running p = Some q \<Longrightarrow> under_way p = Some q"
  by (cases p) simp_all

text \<open>What a job holds true of the server at its phase.\<close>

definition client_known :: "'s rpc_server \<Rightarrow> u32 \<Rightarrow> bool" where
  "client_known s clt \<longleftrightarrow> clt \<noteq> 0 \<and> reply_window (rs_replies s) clt \<noteq> None"

fun job_ok :: "'s rpc_server \<Rightarrow> conn \<Rightarrow> 's job_phase \<Rightarrow> bool" where
  "job_ok s c (Start buf) \<longleftrightarrow> fits_int (int (length buf)) \<and>
     (dead (rs_net s) c \<longrightarrow> rq_clt_nonce (request_header buf) \<noteq> 0)"
| "job_ok s c (Opens h f req) \<longleftrightarrow> rs_procs s (rq_proc h) = Some f \<and> wf_unmarshall req \<and> rq_clt_nonce h \<noteq> 0"
| "job_ok s c (Remembers h f req) \<longleftrightarrow> rs_procs s (rq_proc h) = Some f \<and> wf_unmarshall req \<and>
     client_known s (rq_clt_nonce h)"
| "job_ok s c (Checks h f req) \<longleftrightarrow> rs_procs s (rq_proc h) = Some f \<and> wf_unmarshall req \<and>
     client_known s (rq_clt_nonce h) \<and> rs_conns s (rq_clt_nonce h) \<noteq> None"
| "job_ok s c (Runs h f req) \<longleftrightarrow> rs_procs s (rq_proc h) = Some f \<and> wf_unmarshall req \<and>
     (if rq_clt_nonce h = 0 then \<not> dead (rs_net s) c
      else rs_conns s (rq_clt_nonce h) \<noteq> None \<and> pending (rs_replies s) (rq_clt_nonce h) (rq_xid h))"
| "job_ok s c (Saves h b) \<longleftrightarrow> rq_clt_nonce h \<noteq> 0 \<and> rs_conns s (rq_clt_nonce h) \<noteq> None \<and>
     pending (rs_replies s) (rq_clt_nonce h) (rq_xid h)"
| "job_ok s c (Picks h m) \<longleftrightarrow>
     (if rq_clt_nonce h = 0 then \<not> dead (rs_net s) c \<and> (\<exists>b. m = Own b)
      else rs_conns s (rq_clt_nonce h) \<noteq> None \<and>
        (\<exists>a b. m = Saved a (int (length b)) \<and> answered (rs_replies s) (rq_clt_nonce h) (rq_xid h) a b))"
| "job_ok s c (Sends h m) \<longleftrightarrow>
     (case m of Own b \<Rightarrow> True
      | Saved a n \<Rightarrow> rq_clt_nonce h \<noteq> 0 \<and>
          (\<exists>b. n = int (length b) \<and> answered (rs_replies s) (rq_clt_nonce h) (rq_xid h) a b))"
| "job_ok s c (Sends_old b) \<longleftrightarrow> True"
| "job_ok s c Drops \<longleftrightarrow> True"
| "job_ok s c Finished \<longleftrightarrow> True"

text \<open>The references of the jobs: each holds its connection until it is finished.\<close>

fun job_ref :: "'s job \<Rightarrow> conn \<Rightarrow> int" where
  "job_ref (c, Finished) d = 0"
| "job_ref (c, p) d = (if d = c then 1 else 0)"

definition job_refs :: "'s job list \<Rightarrow> conn \<Rightarrow> int" where
  "job_refs js d = (\<Sum>j\<leftarrow>js. job_ref j d)"

definition held :: "'s workers \<Rightarrow> conn \<Rightarrow> int" where
  "held k c = wk_ext k c + wk_lost k c + job_refs (wk_jobs k) c"

definition distinct_running :: "'s job list \<Rightarrow> bool" where
  "distinct_running js \<longleftrightarrow> (\<forall>i < length js. \<forall>j < length js. \<forall>q.
     i \<noteq> j \<longrightarrow> running (snd (js ! i)) = Some q \<longrightarrow> running (snd (js ! j)) \<noteq> Some q)"

definition workers_ok :: "'s workers \<Rightarrow> bool" where
  "workers_ok k \<longleftrightarrow>
     (\<forall>c. 0 \<le> wk_ext k c \<and> 0 \<le> wk_lost k c) \<and>
     server_ok (held k) (wk_server k) \<and>
     (\<forall>(c, p) \<in> set (wk_jobs k). job_ok (wk_server k) c p) \<and>
     distinct_running (wk_jobs k)"

lemma job_ref_nonneg [simp]: "0 \<le> job_ref j d"
  by (cases "(j, d)" rule: job_ref.cases) auto

lemma job_refs_nonneg [simp]: "0 \<le> job_refs js d"
  by (auto simp: job_refs_def intro!: sum_list_nonneg)

lemma job_refs_append [simp]: "job_refs (js @ js') d = job_refs js d + job_refs js' d"
  by (simp add: job_refs_def)

lemma job_refs_simps [simp]: "job_refs [] d = 0" "job_refs (j # js) d = job_ref j d + job_refs js d"
  by (simp_all add: job_refs_def)

lemma sum_list_update_int:
  "i < length js \<Longrightarrow> (\<Sum>j\<leftarrow>js[i := j]. f j) = (\<Sum>j\<leftarrow>js. f j) - f (js ! i) + (f j :: int)"
  by (induction js arbitrary: i) (auto split: nat.splits)

lemma job_refs_update:
  "i < length js \<Longrightarrow> job_refs (js[i := j]) d = job_refs js d - job_ref (js ! i) d + job_ref j d"
  unfolding job_refs_def by (rule sum_list_update_int)

lemma job_refs_member: "j \<in> set js \<Longrightarrow> job_ref j d \<le> job_refs js d"
  unfolding job_refs_def by (rule member_le_sum_list) (auto simp: image_iff)

lemma job_ref_holds: "p \<noteq> Finished \<Longrightarrow> job_ref (c, p) d = (if d = c then 1 else 0)"
  by (cases p) simp_all

lemma job_holds:
  assumes "\<And>c. 0 \<le> wk_ext k c \<and> 0 \<le> wk_lost k c" "i < length (wk_jobs k)" "wk_jobs k ! i = (c, p)"
    and "p \<noteq> Finished"
  shows "0 < held k c"
proof -
  have "(c, p) \<in> set (wk_jobs k)"
    using assms(2,3) nth_mem by metis
  from job_refs_member [OF this, of c] assms(1) [of c] job_ref_holds [OF assms(4), of c c] show ?thesis
    by (simp add: held_def)
qed

section \<open>One step\<close>

text \<open>What a step leaves to the other jobs: the requests of \<open>Q\<close> stay as they are.\<close>

definition keeps :: "(u32 \<times> u32 \<Rightarrow> bool) \<Rightarrow> 's rpc_server \<Rightarrow> 's rpc_server \<Rightarrow> bool" where
  "keeps Q s s' \<longleftrightarrow> rs_procs s' = rs_procs s \<and> dead (rs_net s') = dead (rs_net s) \<and>
     (\<forall>clt. rs_conns s clt \<noteq> None \<longrightarrow> rs_conns s' clt \<noteq> None) \<and>
     (\<forall>clt. reply_window (rs_replies s) clt \<noteq> None \<longrightarrow> reply_window (rs_replies s') clt \<noteq> None) \<and>
     (\<forall>clt x. Q (clt, x) \<longrightarrow> pending (rs_replies s) clt x \<longrightarrow> pending (rs_replies s') clt x) \<and>
     (\<forall>clt x a b. Q (clt, x) \<longrightarrow> answered (rs_replies s) clt x a b \<longrightarrow> answered (rs_replies s') clt x a b)"

lemma keepsD:
  assumes "keeps Q s s'"
  shows "rs_procs s' = rs_procs s" "dead (rs_net s') = dead (rs_net s)"
    "rs_conns s clt \<noteq> None \<Longrightarrow> rs_conns s' clt \<noteq> None"
    "reply_window (rs_replies s) clt \<noteq> None \<Longrightarrow> reply_window (rs_replies s') clt \<noteq> None"
    "Q (clt, x) \<Longrightarrow> pending (rs_replies s) clt x \<Longrightarrow> pending (rs_replies s') clt x"
    "Q (clt, x) \<Longrightarrow> answered (rs_replies s) clt x a b \<Longrightarrow> answered (rs_replies s') clt x a b"
  using assms unfolding keeps_def by blast+

lemma keeps_same_replies:
  assumes "rs_procs s' = rs_procs s" "dead (rs_net s') = dead (rs_net s)" "rs_replies s' = rs_replies s"
    and "\<And>clt. rs_conns s clt \<noteq> None \<Longrightarrow> rs_conns s' clt \<noteq> None"
  shows "keeps Q s s'"
  using assms unfolding keeps_def by simp

lemma keeps_same_but_net: "same_but_net s s' \<Longrightarrow> keeps Q s s'"
  by (rule keeps_same_replies) (simp_all add: same_but_netD)

lemma keeps_refl [simp]: "keeps Q s s"
  by (simp add: keeps_def)

lemma client_known_keeps: "keeps Q s s' \<Longrightarrow> client_known s clt \<Longrightarrow> client_known s' clt"
  unfolding client_known_def by (metis keepsD(4))

lemma job_ok_keeps:
  assumes "job_ok s c p" "keeps Q s s'" "\<And>q. under_way p = Some q \<Longrightarrow> Q q"
  shows "job_ok s' c p"
proof (cases p)
  case (Picks h m)
  with assms(1,3) keepsD(2,3,6) [OF assms(2)] show ?thesis
    by (auto split: if_splits) blast+
next
  case (Sends h m)
  with assms(1,3) keepsD(6) [OF assms(2)] show ?thesis
    by (auto split: msg_buf.splits)
qed (use assms(1,3) keepsD(1,2) [OF assms(2)] keepsD(3-5) [OF assms(2)] client_known_keeps [OF assms(2)]
  in \<open>auto split: if_splits\<close>)

text \<open>The requests the step of a job leaves alone.\<close>

fun undisturbed :: "'s job_phase \<Rightarrow> u32 \<times> u32 \<Rightarrow> bool" where
  "undisturbed (Checks h f req) q \<longleftrightarrow> (fst q = rq_clt_nonce h \<longrightarrow> rq_xid_rep h \<le> snd q)"
| "undisturbed (Saves h b) q \<longleftrightarrow> q \<noteq> (rq_clt_nonce h, rq_xid h)"
| "undisturbed _ q \<longleftrightarrow> True"

definition lost_ref :: "conn \<Rightarrow> 's job_phase \<Rightarrow> conn \<Rightarrow> int" where
  "lost_ref c p d = (case p of Sends_old _ \<Rightarrow> if d = c then 1 else 0 | _ \<Rightarrow> 0)"

definition refs_after :: "'s job \<Rightarrow> 's job \<Rightarrow> (conn \<Rightarrow> int) \<Rightarrow> conn \<Rightarrow> int" where
  "refs_after j j' J d = J d - job_ref j d + job_ref j' d + lost_ref (fst j) (snd j) d"

lemma refs_after_simps:
  "p \<noteq> Finished \<Longrightarrow> p' \<noteq> Finished \<Longrightarrow> (\<And>b. p \<noteq> Sends_old b) \<Longrightarrow> refs_after (c, p) (c', p') J = move_ref c c' J"
  "refs_after (c, Drops) (c, Finished) J = J(c := J c - 1)"
  "refs_after (c, Sends_old b) (c, Finished) J = J"
  by (auto simp: refs_after_def move_ref_def job_ref_holds lost_ref_def fun_eq_iff split: job_phase.splits)

text \<open>What a step has to give, for a job \<open>c\<close> in phase \<open>p\<close>.\<close>

definition step_gives :: "(conn \<Rightarrow> int) \<Rightarrow> conn \<Rightarrow> 's job_phase \<Rightarrow> 's rpc_server
    \<Rightarrow> (conn \<times> 's job_phase \<times> 's rpc_server) option \<Rightarrow> bool" where
  "step_gives J c p s r \<longleftrightarrow> (\<exists>c' p' s'. r = Some (c', p', s') \<and>
     refs_inv (refs_after (c, p) (c', p') J) s' \<and> rw_inv (rs_replies s') \<and> job_ok s' c' p' \<and>
     keeps (undisturbed p) s s' \<and>
     (\<forall>q. running p' = Some q \<longrightarrow> running p = Some q \<or> \<not> known (rs_replies s) (fst q) (snd q)))"

lemma step_givesI:
  assumes "r = Some (c', p', s')" "refs_inv (refs_after (c, p) (c', p') J) s'" "rw_inv (rs_replies s')"
    and "job_ok s' c' p'" "keeps (undisturbed p) s s'"
    and "\<And>q. running p' = Some q \<Longrightarrow> running p = Some q \<or> \<not> known (rs_replies s) (fst q) (snd q)"
  shows "step_gives J c p s r"
  using assms unfolding step_gives_def by blast

lemma begin_job_ok:
  assumes "server_ok J s" "job_ok s c (Start buf)"
  shows "step_gives J c (Start buf) s (job_step g a c (Start buf) s)"
proof -
  obtain req where req: "unpack_req_header (new_unmarshall buf (int (length buf))) = Some (request_header buf, req)"
      "wf_unmarshall req"
    by (rule request_header_obtain) (use assms(2) in auto)
  obtain rep where rep: "pack_reply_header \<lparr>rp_xid = rq_xid (request_header buf), rp_ret = oldsrv_failure\<rparr>
      (new_marshall g) = Some rep"
    using pack_reply_ok(1) [OF wf_new_marshall] by blast
  have "\<exists>p. begin_job g buf s = Some p \<and> job_ok s c p \<and> running p = None \<and> p \<noteq> Finished"
    using assms(2) req rep by (auto simp: begin_job_def request_key_def split: option.splits)
  then obtain p where p: "begin_job g buf s = Some p" "job_ok s c p" "running p = None" "p \<noteq> Finished"
    by blast
  show ?thesis
    by (rule step_givesI [of _ c p s])
      (use p assms(1) in \<open>simp_all add: refs_after_simps server_ok_def\<close>)
qed

lemma opens_ok:
  assumes "server_ok J s" "job_ok s c (Opens h f req)"
  shows "step_gives J c (Opens h f req) s (job_step g a c (Opens h f req) s)"
proof (rule step_givesI [of _ c "Remembers h f req" "s\<lparr>rs_replies := with_window (rq_clt_nonce h) (rs_replies s)\<rparr>"])
  let ?w = "with_window (rq_clt_nonce h) (rs_replies s)"
  have "reply_window ?w clt \<noteq> None" if "reply_window (rs_replies s) clt \<noteq> None" for clt
    using that by (auto simp: with_window_def split: option.splits)
  moreover have "pending ?w = pending (rs_replies s)" "answered ?w = answered (rs_replies s)"
    by (simp_all add: pending_def answered_def fun_eq_iff)
  ultimately show "keeps (undisturbed (Opens h f req)) s (s\<lparr>rs_replies := ?w\<rparr>)"
    by (simp add: keeps_def)
qed (use assms in \<open>simp_all add: refs_after_simps server_ok_def client_known_def del: not_None_eq\<close>)

lemma remembers_ok:
  assumes "server_ok J s" "0 < J c" "job_ok s c (Remembers h f req)"
  shows "step_gives J c (Remembers h f req) s (job_step g a c (Remembers h f req) s)"
proof -
  obtain s' where s': "remember_conn c (rq_clt_nonce h) s = Some s'" "refs_inv J s'" "frame s s'"
      "rs_conns s' = (rs_conns s)(rq_clt_nonce h \<mapsto> c)" "rs_replies s' = rs_replies s"
    using remember_conn_ok [of J s c] assms(1,2) by (auto simp: server_ok_def)
  have "keeps (undisturbed (Remembers h f req)) s s'"
    by (rule keeps_same_replies) (use s' in \<open>auto simp: frame_def\<close>)
  with s' assms(1,3) show ?thesis
    by (intro step_givesI [of _ c "Checks h f req" s'])
      (auto simp: refs_after_simps server_ok_def frame_def client_known_def)
qed

lemma decide_ok:
  assumes "decide g h f req st out = Some p"
  shows "p \<noteq> Finished" "\<And>b. p \<noteq> Sends_old b" "running p = (if st = NEW then request_key h else None)"
  using assms by (auto simp: decide_def split: rpcstate_t.splits option.splits Option.bind_splits)

lemma keeps_check:
  assumes "rw_inv (rs_replies s)"
    and "checkduplicate_and_update (rq_clt_nonce h) (rq_xid h) (rq_xid_rep h) (rs_replies s) = Some (st, out, w)"
  shows "keeps (undisturbed (Checks h f req)) s (s\<lparr>rs_replies := w\<rparr>)"
  using checkduplicate_keeps_window [OF assms(2)] pending_check [OF _ assms(2)]
    answered_checkduplicate [OF assms(1) _ assms(2)]
  unfolding keeps_def by auto

lemma checks_ok:
  assumes "server_ok J s" "job_ok s c (Checks h f req)"
  shows "step_gives J c (Checks h f req) s (job_step g a c (Checks h f req) s)"
proof -
  have inv: "rw_inv (rs_replies s)"
    using assms(1) by (simp add: server_ok_def)
  obtain st out w where w: "checkduplicate_and_update (rq_clt_nonce h) (rq_xid h) (rq_xid_rep h) (rs_replies s)
      = Some (st, out, w)" "rw_inv w"
    by (rule checkduplicate_safe [OF inv])
  let ?s = "s\<lparr>rs_replies := w\<rparr>"
  note keep = keeps_check [OF inv w(1)]
  obtain rep where rep: "pack_reply_header \<lparr>rp_xid = rq_xid h, rp_ret = atmostonce_failure\<rparr> (new_marshall g) = Some rep"
    using pack_reply_ok(1) [OF wf_new_marshall] by blast
  have "\<exists>p. decide g h f req st out = Some p \<and> job_ok ?s c p \<and>
      (running p \<noteq> None \<longrightarrow> \<not> known (rs_replies s) (rq_clt_nonce h) (rq_xid h))"
  proof (cases st)
    case NEW
    with w(1) check_new_pending [of _ _ _ "rs_replies s" out w] assms(2) show ?thesis
      by (auto simp: decide_def client_known_def)
  next
    case DONE
    with w(1) obtain b d where "out = Some (Some b, int (length d))" "answered w (rq_clt_nonce h) (rq_xid h) b d"
      using check_done_answered [OF _ w(2)] by blast
    with DONE assms(2) show ?thesis
      by (auto simp: decide_def client_known_def)
  qed (use rep in \<open>simp_all add: decide_def\<close>)
  then obtain p where p: "decide g h f req st out = Some p" "job_ok ?s c p"
      "running p \<noteq> None \<longrightarrow> \<not> known (rs_replies s) (rq_clt_nonce h) (rq_xid h)"
    by blast
  show ?thesis
  proof (rule step_givesI [of _ c p ?s])
    show "job_step g a c (Checks h f req) s = Some (c, p, ?s)"
      using w(1) p(1) by simp
    show "refs_inv (refs_after (c, Checks h f req) (c, p) J) ?s"
      using assms(1) decide_ok(1,2) [OF p(1)] by (simp add: refs_after_simps server_ok_def)
    show "running (Checks h f req) = Some q \<or> \<not> known (rs_replies s) (fst q) (snd q)" if "running p = Some q" for q
      using p(3) that decide_ok(3) [OF p(1)] by (cases q) (auto split: if_splits)
  qed (use w(2) p(2) keep in simp_all)
qed

lemma run_handler_ok:
  assumes "refs_inv J s" "handler_returns f req g (rs_app s)"
  obtains b s' where "run_handler g h f req s = Some (b, s')" "refs_inv J s'" "rs_replies s' = rs_replies s"
    "rs_conns s' = rs_conns s" "rs_net s' = rs_net s" "rs_procs s' = rs_procs s"
proof -
  define s1 where "s1 = (if rs_counting s \<noteq> 0 then updatestat (rq_proc h) s else s)"
  have s1: "refs_inv J s1" "rs_replies s1 = rs_replies s" "rs_conns s1 = rs_conns s"
    "rs_net s1 = rs_net s" "rs_procs s1 = rs_procs s" "rs_app s1 = rs_app s"
    using assms(1) by (auto simp: s1_def) (simp_all add: updatestat_def Let_def)
  obtain ret rep app where f: "f req (new_marshall g) (rs_app s1) = Some (ret, rep, app)"
      "wf_marshall rep" "0 \<le> sint ret \<or> ret = unmarshal_args_failure"
    using assms(2) s1(6) unfolding handler_returns_def by auto
  obtain rep' where rep': "pack_reply_header \<lparr>rp_xid = rq_xid h, rp_ret = ret\<rparr> rep = Some rep'"
    using pack_reply_ok(1) [OF f(2)] by blast
  have "run_handler g h f req s = Some (m_bytes rep', s1\<lparr>rs_app := app\<rparr>)"
    using f(1,3) rep' by (auto simp: run_handler_def Let_def simp flip: s1_def)
  with s1 show thesis
    by (intro that [of "m_bytes rep'" "s1\<lparr>rs_app := app\<rparr>"]) simp_all
qed

lemma runs_ok:
  assumes "server_ok J s" "job_ok s c (Runs h f req)" "handler_returns f req g (rs_app s)"
  shows "step_gives J c (Runs h f req) s (job_step g a c (Runs h f req) s)"
proof -
  obtain b s' where s': "run_handler g h f req s = Some (b, s')" "refs_inv J s'" "rs_replies s' = rs_replies s"
      "rs_conns s' = rs_conns s" "rs_net s' = rs_net s" "rs_procs s' = rs_procs s"
    by (rule run_handler_ok [OF _ assms(3)]) (use assms(1) in \<open>auto simp: server_ok_def\<close>)
  show ?thesis
    by (rule step_givesI [of _ c "if rq_clt_nonce h > 0 then Saves h b else Picks h (Own b)" s'])
      (use s' assms(1,2) in \<open>auto simp: refs_after_simps server_ok_def word_gt_0 request_key_def
        intro!: keeps_same_replies split: if_splits\<close>)
qed

lemma saves_ok:
  assumes "server_ok J s" "job_ok s c (Saves h b)" "rheap (rs_replies s) a = None"
  shows "step_gives J c (Saves h b) s (job_step g a c (Saves h b) s)"
proof -
  have ok: "refs_inv J s" "rw_inv (rs_replies s)" "rq_clt_nonce h \<noteq> 0" "rs_conns s (rq_clt_nonce h) \<noteq> None"
      "pending (rs_replies s) (rq_clt_nonce h) (rq_xid h)"
    using assms(1,2) by (auto simp: server_ok_def)
  obtain w where w: "save_reply (rq_clt_nonce h) (rq_xid h) (a, b) (rs_replies s) = Some w" "rw_inv w"
    using save_reply_safe [OF ok(2) pending_window [OF ok(5)] assms(3)] by blast
  let ?s = "s\<lparr>rs_replies := w\<rparr>"
  have "reply_window w clt \<noteq> None" if "reply_window (rs_replies s) clt \<noteq> None" for clt
    using w(1) that by (auto simp: save_reply_def add_reply_def split: if_splits option.splits)
  then have keep: "keeps (undisturbed (Saves h b)) s ?s"
    using pending_save [OF _ w(1)] answered_save [OF _ w(1)] unfolding keeps_def by auto
  have ans: "answered w (rq_clt_nonce h) (rq_xid h) a b"
    by (rule answered_new [OF pending_known [OF ok(5)] w(1)])
  show ?thesis
    by (rule step_givesI [of _ c "Picks h (Saved a (int (length b)))" ?s])
      (use w ok ans keep in \<open>auto simp: refs_after_simps\<close>)
qed

lemma picks_ok:
  assumes "server_ok J s" "0 < J c" "job_ok s c (Picks h m)"
  shows "step_gives J c (Picks h m) s (job_step g a c (Picks h m) s)"
proof -
  have refs: "refs_inv J s"
    using assms(1) by (simp add: server_ok_def)
  obtain c' s' where s': "latest_conn c (rq_clt_nonce h) s = Some (c', s')" "refs_inv (move_ref c c' J) s'"
      "same_but_net s s'"
    by (rule latest_conn_ok [OF refs assms(2), of "rq_clt_nonce h"])
      (use assms(3) in \<open>auto split: if_splits\<close>)
  show ?thesis
    by (rule step_givesI [of _ c' "Sends h m" s'])
      (use s' assms(1,3) in \<open>auto simp: refs_after_simps server_ok_def same_but_netD
        intro!: keeps_same_but_net split: if_splits\<close>)
qed

lemma read_msg_ok:
  assumes "job_ok s c (Sends h m)"
  obtains b where "read_msg m (rheap (rs_replies s)) = Some b"
  using assms by (cases m) (auto simp: read_msg_def answered_def)

lemma sends_ok:
  assumes "server_ok J s" "0 < J c" "job_ok s c (Sends h m)"
  shows "step_gives J c (Sends h m) s (job_step g a c (Sends h m) s)"
proof -
  obtain b where b: "read_msg m (rheap (rs_replies s)) = Some b"
    by (rule read_msg_ok [OF assms(3)])
  obtain s' where s': "on_net (conn_send c b) s = Some s'" "refs_inv J s'" "same_but_net s s'"
    using send_job [of J s c b] assms(1,2) by (auto simp: server_ok_def)
  show ?thesis
    by (rule step_givesI [of _ c Drops s'])
      (use b s' assms(1) in \<open>auto simp: refs_after_simps server_ok_def same_but_netD
        intro!: keeps_same_but_net\<close>)
qed

lemma sends_old_ok:
  assumes "server_ok J s" "0 < J c"
  shows "step_gives J c (Sends_old b) s (job_step g a c (Sends_old b) s)"
proof -
  obtain s' where s': "on_net (conn_send c b) s = Some s'" "refs_inv J s'" "same_but_net s s'"
    using send_job [of J s c b] assms(1,2) by (auto simp: server_ok_def)
  show ?thesis
    by (rule step_givesI [of _ c Finished s'])
      (use s' assms(1) in \<open>auto simp: refs_after_simps server_ok_def same_but_netD
        intro!: keeps_same_but_net\<close>)
qed

lemma drops_ok:
  assumes "server_ok J s" "0 < J c"
  shows "step_gives J c Drops s (job_step g a c Drops s)"
proof -
  obtain s' where s': "on_net (decref c) s = Some s'" "refs_inv (J(c := J c - 1)) s'" "same_but_net s s'"
    using drop_job [of J s c] assms(1,2) by (auto simp: server_ok_def)
  show ?thesis
    by (rule step_givesI [of _ c Finished s'])
      (use s' assms(1) in \<open>auto simp: refs_after_simps server_ok_def same_but_netD
        intro!: keeps_same_but_net\<close>)
qed

text \<open>Whatever the phase: the step of a job that holds what its phase promises is defined.\<close>

definition can_go_on :: "(nat \<Rightarrow> u8) \<Rightarrow> 's job_phase \<Rightarrow> 's rpc_server \<Rightarrow> bool" where
  "can_go_on g p s =
     (case p of
        Finished \<Rightarrow> False
      | Runs h f req \<Rightarrow> handler_returns f req g (rs_app s)
      | _ \<Rightarrow> True)"

lemma job_step_ok:
  assumes "server_ok J s" "0 < J c" "job_ok s c p" "can_go_on g p s" "rheap (rs_replies s) a = None"
  shows "step_gives J c p s (job_step g a c p s)"
proof (cases p)
  case Start
  with assms begin_job_ok show ?thesis by blast
next
  case Opens
  with assms opens_ok show ?thesis by blast
next
  case Remembers
  with assms remembers_ok show ?thesis by blast
next
  case Checks
  with assms checks_ok show ?thesis by blast
next
  case (Runs h f req)
  with assms runs_ok [of J s c h f req g a] show ?thesis
    by (simp add: can_go_on_def del: job_step.simps job_ok.simps)
next
  case Saves
  with assms saves_ok show ?thesis by blast
next
  case Picks
  with assms picks_ok show ?thesis by blast
next
  case Sends
  with assms sends_ok show ?thesis by blast
next
  case Sends_old
  with assms sends_old_ok show ?thesis by blast
next
  case Drops
  with assms drops_ok show ?thesis by blast
qed (use assms(4) in \<open>simp add: can_go_on_def\<close>)

section \<open>Orderly runs\<close>

text \<open>
  What the threads rely on. A handler returns. A client acknowledges a request only when no job is
  at work on it any more: \<open>dispatch\<close> sends from the reply window without holding its mutex. A
  connection is closed, or has died before a message came in, only if the client wants
  at-most-once semantics.
\<close>

fun acks_nothing_under_way :: "'s job_phase \<Rightarrow> 's job list \<Rightarrow> bool" where
  "acks_nothing_under_way (Checks h f req) js \<longleftrightarrow>
     list_all (\<lambda>j. case under_way (snd j) of
        None \<Rightarrow> True
      | Some (clt, x) \<Rightarrow> clt = rq_clt_nonce h \<longrightarrow> rq_xid_rep h \<le> x) js"
| "acks_nothing_under_way _ js \<longleftrightarrow> True"

fun at_most_once_job :: "'s job_phase \<Rightarrow> bool" where
  "at_most_once_job (Start buf) \<longleftrightarrow> rq_clt_nonce (request_header buf) \<noteq> 0"
| "at_most_once_job (Runs h f req) \<longleftrightarrow> rq_clt_nonce h \<noteq> 0"
| "at_most_once_job (Picks h m) \<longleftrightarrow> rq_clt_nonce h \<noteq> 0"
| "at_most_once_job _ \<longleftrightarrow> True"

fun orderly :: "action \<Rightarrow> 's workers \<Rightarrow> bool" where
  "orderly (Work i g a) k \<longleftrightarrow> i < length (wk_jobs k) \<and>
     can_go_on g (snd (wk_jobs k ! i)) (wk_server k) \<and>
     rheap (rs_replies (wk_server k)) a = None \<and>
     acks_nothing_under_way (snd (wk_jobs k ! i)) (wk_jobs k)"
| "orderly (Arrive c buf accepted) k \<longleftrightarrow> 0 < wk_ext k c \<and> fits_int (int (length buf)) \<and>
     (dead (rs_net (wk_server k)) c \<longrightarrow> rq_clt_nonce (request_header buf) \<noteq> 0)"
| "orderly (Accept c) k \<longleftrightarrow> fresh (Some c) (rs_net (wk_server k))"
| "orderly (Close c) k \<longleftrightarrow> 0 < held k c \<and>
     list_all (\<lambda>(d, p). d = c \<longrightarrow> at_most_once_job p) (wk_jobs k)"
| "orderly (Release c) k \<longleftrightarrow> 0 < wk_ext k c"

fun orderly_run :: "action list \<Rightarrow> 's workers \<Rightarrow> bool" where
  "orderly_run [] k \<longleftrightarrow> True"
| "orderly_run (x # xs) k \<longleftrightarrow> orderly x k \<and>
     (case act x k of None \<Rightarrow> True | Some (es, k') \<Rightarrow> orderly_run xs k')"

lemma workers_okD:
  assumes "workers_ok k"
  shows "\<And>c. 0 \<le> wk_ext k c \<and> 0 \<le> wk_lost k c" "server_ok (held k) (wk_server k)"
    "refs_inv (held k) (wk_server k)" "rw_inv (rs_replies (wk_server k))" "distinct_running (wk_jobs k)"
    "(c, p) \<in> set (wk_jobs k) \<Longrightarrow> job_ok (wk_server k) c p"
    "i < length (wk_jobs k) \<Longrightarrow> wk_jobs k ! i = (c, p) \<Longrightarrow> job_ok (wk_server k) c p"
proof -
  show "job_ok (wk_server k) c p" if "i < length (wk_jobs k)" "wk_jobs k ! i = (c, p)"
    using assms nth_mem [OF that(1)] that(2) by (auto simp: workers_ok_def)
qed (use assms in \<open>auto simp: workers_ok_def server_ok_def\<close>)

lemma running_pending:
  "job_ok s c p \<Longrightarrow> running p = Some (clt, x) \<Longrightarrow> pending (rs_replies s) clt x"
  by (cases p) auto

lemma under_way_request:
  assumes "job_ok s c p" "under_way p = Some (clt, x)"
  shows "running p = Some (clt, x) \<or> (\<exists>a b. answered (rs_replies s) clt x a b)"
  using assms by (cases p) (auto split: msg_buf.splits if_splits)

lemma distinct_runningD:
  "distinct_running js \<Longrightarrow> i < length js \<Longrightarrow> j < length js \<Longrightarrow> i \<noteq> j \<Longrightarrow>
    running (snd (js ! i)) = Some q \<Longrightarrow> running (snd (js ! j)) \<noteq> Some q"
  unfolding distinct_running_def by blast

lemma distinct_running_update:
  assumes "distinct_running js" "i < length js"
    and "\<And>q n. running p = Some q \<Longrightarrow> n < length js \<Longrightarrow> n \<noteq> i \<Longrightarrow> running (snd (js ! n)) \<noteq> Some q"
  shows "distinct_running (js[i := (c, p)])"
  unfolding distinct_running_def
proof (intro allI impI)
  fix m n q
  assume mn: "m < length (js[i := (c, p)])" "n < length (js[i := (c, p)])" "m \<noteq> n"
    "running (snd (js[i := (c, p)] ! m)) = Some q"
  consider "m = i" | "n = i" | "m \<noteq> i" "n \<noteq> i"
    by blast
  then show "running (snd (js[i := (c, p)] ! n)) \<noteq> Some q"
  proof cases
    case 1
    with mn assms(3) [of q n] show ?thesis
      by simp
  next
    case 2
    with mn assms(3) [of q m] show ?thesis
      by auto
  next
    case 3
    with mn distinct_runningD [OF assms(1), of m n q] show ?thesis
      by simp
  qed
qed

lemma distinct_running_add:
  assumes "distinct_running js" "running p = None"
  shows "distinct_running (js @ [(c, p)])"
  unfolding distinct_running_def
proof (intro allI impI)
  fix m n q
  assume mn: "m < length (js @ [(c, p)])" "n < length (js @ [(c, p)])" "m \<noteq> n"
    "running (snd ((js @ [(c, p)]) ! m)) = Some q"
  show "running (snd ((js @ [(c, p)]) ! n)) \<noteq> Some q"
  proof (cases "m < length js \<and> n < length js")
    case True
    with mn distinct_runningD [OF assms(1), of m n q] show ?thesis
      by (simp add: nth_append)
  next
    case False
    with mn assms(2) show ?thesis
      by (simp add: nth_append split: if_splits)
  qed
qed

lemma work_undisturbed:
  assumes "workers_ok k" "i < length (wk_jobs k)" "j < length (wk_jobs k)" "i \<noteq> j"
    and "acks_nothing_under_way (snd (wk_jobs k ! i)) (wk_jobs k)"
    and "under_way (snd (wk_jobs k ! j)) = Some q"
  shows "undisturbed (snd (wk_jobs k ! i)) q"
proof (cases "snd (wk_jobs k ! i)")
  case (Checks h f req)
  then show ?thesis
    using assms(5,6) nth_mem [OF assms(3)] by (cases q) (auto simp: list_all_iff split: option.splits)
next
  case (Saves h b)
  obtain c p where i: "wk_jobs k ! i = (c, p)"
    by (cases "wk_jobs k ! i")
  obtain d r where j: "wk_jobs k ! j = (d, r)"
    by (cases "wk_jobs k ! j")
  have ok: "job_ok (wk_server k) c (Saves h b)" "job_ok (wk_server k) d r"
    using workers_okD(7) [OF assms(1,2) i] workers_okD(7) [OF assms(1,3) j] Saves i by simp_all
  have "q \<noteq> (rq_clt_nonce h, rq_xid h)"
  proof
    assume q: "q = (rq_clt_nonce h, rq_xid h)"
    have run: "running (snd (wk_jobs k ! i)) = Some q"
      using Saves ok(1) q by simp
    have "\<not> answered (rs_replies (wk_server k)) (fst q) (snd q) a b" for a b
      using ok(1) q by (simp add: pending_unanswered)
    with under_way_request [OF ok(2), of "fst q" "snd q"] assms(6) j
    have "running (snd (wk_jobs k ! j)) = Some q"
      by simp
    with distinct_runningD [OF workers_okD(5) [OF assms(1)] assms(2-4) run] show False
      by simp
  qed
  with Saves show ?thesis
    by simp
qed simp_all

lemma work_ok:
  assumes ok: "workers_ok k" and ord: "orderly (Work i g a) k"
  shows "\<exists>es k'. act (Work i g a) k = Some (es, k') \<and> workers_ok k'"
proof -
  obtain c p where j: "wk_jobs k ! i = (c, p)"
    by (cases "wk_jobs k ! i")
  have i: "i < length (wk_jobs k)" and go: "can_go_on g p (wk_server k)"
    and fresh: "rheap (rs_replies (wk_server k)) a = None"
    using ord j by simp_all
  have "p \<noteq> Finished"
    using go by (auto simp: can_go_on_def)
  have pos: "0 < held k c"
    by (rule job_holds [OF workers_okD(1) [OF ok] i j \<open>p \<noteq> Finished\<close>])
  obtain c' p' s' where st: "job_step g a c p (wk_server k) = Some (c', p', s')"
    "refs_inv (refs_after (c, p) (c', p') (held k)) s'" "rw_inv (rs_replies s')" "job_ok s' c' p'"
    "keeps (undisturbed p) (wk_server k) s'"
    "\<And>q. running p' = Some q \<Longrightarrow> running p = Some q \<or> \<not> known (rs_replies (wk_server k)) (fst q) (snd q)"
    using job_step_ok [OF workers_okD(2) [OF ok] pos workers_okD(7) [OF ok i j] go fresh]
    unfolding step_gives_def by blast
  let ?lost = "case p of Sends_old _ \<Rightarrow> (wk_lost k)(c := wk_lost k c + 1) | _ \<Rightarrow> wk_lost k"
  let ?k = "k\<lparr>wk_jobs := (wk_jobs k)[i := (c', p')], wk_lost := ?lost, wk_server := s'\<rparr>"
  have lost: "?lost d = wk_lost k d + lost_ref c p d" for d
    by (auto simp: lost_ref_def split: job_phase.splits)
  have held: "held ?k = refs_after (c, p) (c', p') (held k)"
    using job_refs_update [OF i, of "(c', p')"] j lost
    by (simp add: held_def refs_after_def fun_eq_iff)
  have others: "job_ok s' d r" if "n < length (wk_jobs k)" "n \<noteq> i" "wk_jobs k ! n = (d, r)" for n d r
    by (rule job_ok_keeps [OF workers_okD(7) [OF ok that(1,3)] st(5)])
      (use work_undisturbed [OF ok i that(1) that(2) [symmetric]] that(3) j ord in simp)
  have "workers_ok ?k"
    unfolding workers_ok_def
  proof (intro conjI allI)
    show "0 \<le> wk_ext ?k d" "0 \<le> wk_lost ?k d" for d
      using workers_okD(1) [OF ok, of d] lost [of d] by (simp_all add: lost_ref_def split: job_phase.splits)
    show "server_ok (held ?k) (wk_server ?k)"
      using st(2,3) held by (simp add: server_ok_def)
    show "\<forall>(d, r)\<in>set (wk_jobs ?k). job_ok (wk_server ?k) d r"
      using others st(4) i by (auto simp: in_set_conv_nth nth_list_update split: if_splits)
    show "distinct_running (wk_jobs ?k)"
    proof (simp, rule distinct_running_update [OF workers_okD(5) [OF ok] i])
      fix q n
      assume n: "running p' = Some q" "n < length (wk_jobs k)" "n \<noteq> i"
      obtain d r where r: "wk_jobs k ! n = (d, r)"
        by (cases "wk_jobs k ! n")
      show "running (snd (wk_jobs k ! n)) \<noteq> Some q"
      proof
        assume q: "running (snd (wk_jobs k ! n)) = Some q"
        have "known (rs_replies (wk_server k)) (fst q) (snd q)"
          using running_pending [OF workers_okD(7) [OF ok n(2) r], of "fst q" "snd q"] q r
          by (simp add: pending_known)
        then have "running (snd (wk_jobs k ! i)) = Some q"
          using st(6) [OF n(1)] j by simp
        from distinct_runningD [OF workers_okD(5) [OF ok] i n(2) n(3) [symmetric] this] q show False
          by simp
      qed
    qed
  qed
  moreover have "act (Work i g a) k = Some (job_events a c p (wk_server k), ?k)"
    using i j st(1) by simp
  ultimately show ?thesis
    by blast
qed

text \<open>The actions of the world around the threads.\<close>

lemma env_ok:
  assumes ok: "workers_ok k"
    and refs: "refs_inv (\<lambda>c. ext c + wk_lost k c + job_refs (wk_jobs k) c) s'" "\<And>c. 0 \<le> ext c"
    and same: "keeps (\<lambda>_. True) (wk_server k) s'" "rs_replies s' = rs_replies (wk_server k)"
  shows "workers_ok (k\<lparr>wk_ext := ext, wk_server := s'\<rparr>)"
proof -
  have "job_ok s' c p" if "(c, p) \<in> set (wk_jobs k)" for c p
    by (rule job_ok_keeps [OF workers_okD(6) [OF ok that] same(1)]) simp
  moreover have "held (k\<lparr>wk_ext := ext, wk_server := s'\<rparr>) = (\<lambda>c. ext c + wk_lost k c + job_refs (wk_jobs k) c)"
    by (simp add: held_def fun_eq_iff)
  ultimately show ?thesis
    using workers_okD(1,4,5) [OF ok] refs same(2) by (auto simp: workers_ok_def server_ok_def)
qed

lemma ext_held: "workers_ok k \<Longrightarrow> 0 < wk_ext k c \<Longrightarrow> 0 < held k c"
  using workers_okD(1) [of k c] by (simp add: held_def add_pos_nonneg)

lemma accept_ok:
  assumes ok: "workers_ok k" and ord: "orderly (Accept c) k"
  shows "\<exists>es k'. act (Accept c) k = Some (es, k') \<and> workers_ok k'"
proof -
  let ?s = "wk_server k"
  let ?h = "\<lambda>d. held k d + table_refs (rs_conns ?s) d"
  have refs: "refs_ok ?h (rs_net ?s)"
    using workers_okD(3) [OF ok] by (simp add: refs_inv_def)
  have new: "refs_ok (\<lambda>d. ?h d + one (Some c) d) (construct c (rs_net ?s))"
      "dead (construct c (rs_net ?s)) = dead (rs_net ?s)"
    using construct_ok [OF refs, of c] ord by auto
  have "workers_ok (k\<lparr>wk_ext := (wk_ext k)(c := wk_ext k c + 1),
      wk_server := ?s\<lparr>rs_net := construct c (rs_net ?s)\<rparr>\<rparr>)"
  proof (rule env_ok [OF ok])
    show "refs_inv (\<lambda>d. ((wk_ext k)(c := wk_ext k c + 1)) d + wk_lost k d + job_refs (wk_jobs k) d)
        (?s\<lparr>rs_net := construct c (rs_net ?s)\<rparr>)"
      unfolding refs_inv_def
    proof (intro conjI allI)
      show "0 \<le> ((wk_ext k)(c := wk_ext k c + 1)) d + wk_lost k d + job_refs (wk_jobs k) d" for d
        using workers_okD(1) [OF ok, of d] by (auto intro!: add_nonneg_nonneg)
      show "refs_ok (\<lambda>d. ((wk_ext k)(c := wk_ext k c + 1)) d + wk_lost k d + job_refs (wk_jobs k) d +
          table_refs (rs_conns (?s\<lparr>rs_net := construct c (rs_net ?s)\<rparr>)) d)
          (rs_net (?s\<lparr>rs_net := construct c (rs_net ?s)\<rparr>))"
        using refs_ok_cong [OF new(1)] by (simp add: held_def fun_eq_iff)
    qed
    show "0 \<le> ((wk_ext k)(c := wk_ext k c + 1)) d" for d
      using workers_okD(1) [OF ok] by auto
    show "keeps (\<lambda>_. True) ?s (?s\<lparr>rs_net := construct c (rs_net ?s)\<rparr>)"
      by (rule keeps_same_replies) (simp_all add: new(2))
  qed simp
  with ord show ?thesis
    by simp
qed

lemma release_ext_ok:
  assumes ok: "workers_ok k" and ord: "orderly (Release c) k"
  shows "\<exists>es k'. act (Release c) k = Some (es, k') \<and> workers_ok k'"
proof -
  have pos: "0 < held k c"
    using ext_held [OF ok] ord by simp
  obtain s' where s': "on_net (decref c) (wk_server k) = Some s'" "refs_inv ((held k)(c := held k c - 1)) s'"
      "same_but_net (wk_server k) s'"
    using drop_job [OF workers_okD(3) [OF ok] pos] by blast
  have "workers_ok (k\<lparr>wk_ext := (wk_ext k)(c := wk_ext k c - 1), wk_server := s'\<rparr>)"
  proof (rule env_ok [OF ok])
    have "(\<lambda>d. ((wk_ext k)(c := wk_ext k c - 1)) d + wk_lost k d + job_refs (wk_jobs k) d)
        = (held k)(c := held k c - 1)"
      by (auto simp: held_def fun_eq_iff)
    with s'(2) show "refs_inv (\<lambda>d. ((wk_ext k)(c := wk_ext k c - 1)) d + wk_lost k d + job_refs (wk_jobs k) d) s'"
      by simp
    show "0 \<le> ((wk_ext k)(c := wk_ext k c - 1)) d" for d
      using workers_okD(1) [OF ok, of d] ord by simp
  qed (use s'(3) in \<open>simp_all add: keeps_same_but_net same_but_netD\<close>)
  with s'(1) ord show ?thesis
    by simp
qed

lemma close_ok:
  assumes ok: "workers_ok k" and ord: "orderly (Close c) k"
  shows "\<exists>es k'. act (Close c) k = Some (es, k') \<and> workers_ok k'"
proof -
  let ?s = "wk_server k"
  let ?h = "\<lambda>d. held k d + table_refs (rs_conns ?s) d"
  have refs: "refs_ok ?h (rs_net ?s)" "0 < ?h c"
    using workers_okD(3) [OF ok] ord by (simp_all add: refs_inv_def add_pos_nonneg)
  obtain t where t: "closeconn c (rs_net ?s) = Some t" "refs_ok ?h t" "dead t = (dead (rs_net ?s))(c := True)"
    using closeconn_ok [OF refs] by blast
  let ?s' = "?s\<lparr>rs_net := t\<rparr>"
  have "job_ok ?s' d p" if "(d, p) \<in> set (wk_jobs k)" for d p
    using workers_okD(6) [OF ok that] ord that t(3)
    by (cases p) (auto simp: list_all_iff client_known_def split: msg_buf.splits if_splits)
  moreover have "refs_inv (held k) ?s'"
    using workers_okD(3) [OF ok] t(2) by (simp add: refs_inv_def)
  moreover have "held (k\<lparr>wk_server := ?s'\<rparr>) = held k"
    by (simp add: held_def fun_eq_iff)
  ultimately have "workers_ok (k\<lparr>wk_server := ?s'\<rparr>)"
    using workers_okD(1,4,5) [OF ok] by (auto simp: workers_ok_def server_ok_def)
  with t(1) show ?thesis
    by (simp add: on_net_def)
qed

lemma arrive_ok:
  assumes ok: "workers_ok k" and ord: "orderly (Arrive c buf accepted) k"
  shows "\<exists>es k'. act (Arrive c buf accepted) k = Some (es, k') \<and> workers_ok k'"
proof -
  have pos: "0 < held k c"
    using ext_held [OF ok] ord by simp
  obtain s1 where s1: "on_net (incref c) (wk_server k) = Some s1" "refs_inv ((held k)(c := held k c + 1)) s1"
      "same_but_net (wk_server k) s1"
    using take_job [OF workers_okD(3) [OF ok] pos] by blast
  show ?thesis
  proof (cases accepted)
    case False
    let ?J = "(held k)(c := held k c + 1)"
    obtain s2 where s2: "on_net (decref c) s1 = Some s2" "refs_inv (?J(c := ?J c - 1)) s2" "same_but_net s1 s2"
      using drop_job [OF s1(2), of c] pos by auto
    have "(\<lambda>d. wk_ext k d + wk_lost k d + job_refs (wk_jobs k) d) = ?J(c := ?J c - 1)"
      by (auto simp: held_def fun_eq_iff)
    with s2 s1(3) have "workers_ok (k\<lparr>wk_ext := wk_ext k, wk_server := s2\<rparr>)"
      by (intro env_ok [OF ok]) (auto simp: workers_okD(1) [OF ok] same_but_netD intro!: keeps_same_replies)
    with False s1(1) s2(1) ord show ?thesis
      by (simp add: rpcs_got_pdu_def)
  next
    case True
    let ?k = "k\<lparr>wk_jobs := wk_jobs k @ [(c, Start buf)], wk_server := s1\<rparr>"
    have "held ?k = (held k)(c := held k c + 1)"
      by (auto simp: held_def fun_eq_iff)
    moreover have "job_ok s1 d p" if "(d, p) \<in> set (wk_jobs k)" for d p
      by (rule job_ok_keeps [OF workers_okD(6) [OF ok that] keeps_same_but_net [OF s1(3)]]) simp
    moreover have "job_ok s1 c (Start buf)"
      using ord same_but_netD(9) [OF s1(3)] by simp
    ultimately have "workers_ok ?k"
      using s1(2) workers_okD(1,4) [OF ok] same_but_netD(3) [OF s1(3)]
        distinct_running_add [OF workers_okD(5) [OF ok], of "Start buf" c]
      unfolding workers_ok_def server_ok_def by auto
    with True s1(1) ord show ?thesis
      by (simp add: rpcs_got_pdu_def)
  qed
qed

lemma act_ok:
  assumes "workers_ok k" "orderly x k"
  shows "\<exists>es k'. act x k = Some (es, k') \<and> workers_ok k'"
proof (cases x)
  case Work
  with assms work_ok show ?thesis by blast
next
  case Arrive
  with assms arrive_ok show ?thesis by blast
next
  case Accept
  with assms accept_ok show ?thesis by blast
next
  case Close
  with assms close_ok show ?thesis by blast
next
  case Release
  with assms release_ext_ok show ?thesis by blast
qed

lemma workers_run_ok:
  "workers_ok k \<Longrightarrow> orderly_run xs k \<Longrightarrow> \<exists>es k'. run_workers xs k = Some (es, k') \<and> workers_ok k'"
proof (induction xs arbitrary: k)
  case (Cons x xs)
  have "orderly x k"
    using Cons.prems(2) by simp
  from act_ok [OF Cons.prems(1) this] obtain es k1 where k1: "act x k = Some (es, k1)" "workers_ok k1"
    by blast
  with Cons.prems(2) have "orderly_run xs k1"
    by simp
  from Cons.IH [OF k1(2) this] k1(1) show ?case
    by auto
qed simp

end
