(* ===== verification/Dispatch_Runs.thy ===== *)
theory Dispatch_Runs
  imports Dispatch_Threads
begin

text \<open>
  What the runs of the worker threads of \<open>rpcs\<close> show, for every interleaving: in an orderly run
  nothing fails and every reference is accounted for, a request runs at most once, and the jobs can
  always be finished. And what goes wrong in a run that is not orderly.
\<close>

section \<open>What the threads do to the window\<close>

text \<open>
  A window as its users see it: checks and saves, with steps in between that leave the requests
  it knows alone.
\<close>

context dedup_window
begin

inductive observed :: "'w \<Rightarrow> ('b window_event \<times> rpcstate_t option) list \<Rightarrow> bool" where
  nothing: "observed w []"
| silent: "(\<And>c x. known w c x \<Longrightarrow> known w' c x) \<Longrightarrow> observed w' tr \<Longrightarrow> observed w tr"
| checked: "check c x s w = Some (st, w') \<Longrightarrow> observed w' tr \<Longrightarrow> observed w ((Req c x s, Some st) # tr)"
| saved: "save c x b w = Some w' \<Longrightarrow> observed w' tr \<Longrightarrow> observed w ((Rep c x b, None) # tr)"

lemma observed_known:
  "observed w tr \<Longrightarrow> known w c x \<Longrightarrow> tr = mid @ (Req c x r, Some NEW) # post \<Longrightarrow>
    \<exists>y s st. (Req c y s, st) \<in> set mid \<and> x < s"
proof (induction arbitrary: mid rule: observed.induct)
  case (checked c' y s w st w' tr)
  show ?case
  proof (cases mid)
    case Nil
    with checked new_unknown show ?thesis
      by auto
  next
    case (Cons e mid')
    show ?thesis
    proof (cases "c' = c \<and> x < s")
      case True
      with Cons checked.prems(2) show ?thesis
        by auto
    next
      case False
      then have "known w' c x"
        using check_keeps [OF checked.hyps(1) checked.prems(1)] by force
      from checked.IH [OF this, of mid'] Cons checked.prems(2) show ?thesis
        by auto
    qed
  qed
next
  case (saved c' y b w w' tr)
  then obtain mid' where mid': "mid = (Rep c' y b, None) # mid'" "tr = mid' @ (Req c x r, Some NEW) # post"
    by (cases mid) auto
  from saved.IH [OF save_keeps [OF saved.hyps(1) saved.prems(1)] mid'(2)] mid'(1) show ?case
    by auto
qed auto

lemma observed_twice:
  "observed w tr \<Longrightarrow> tr = pre @ (Req c x r, Some NEW) # mid @ (Req c x r', Some NEW) # post \<Longrightarrow>
    \<exists>y s st. (Req c y s, st) \<in> set mid \<and> x < s"
proof (induction arbitrary: pre rule: observed.induct)
  case (checked c' y s w st w' tr)
  show ?case
  proof (cases pre)
    case Nil
    with checked.hyps(1) checked.prems have "known w' c x"
      using new_known by auto
    from observed_known [OF checked.hyps(2) this, of mid] Nil checked.prems show ?thesis
      by auto
  next
    case (Cons e pre')
    with checked show ?thesis
      by auto
  qed
next
  case (saved c' y b w w' tr)
  then show ?case
    by (cases pre) auto
qed auto

lemma observed_above_rep:
  "observed w tr \<Longrightarrow> (Req c x r, Some NEW) \<in> set tr \<Longrightarrow> r < x"
proof (induction rule: observed.induct)
  case (checked c' y s w st w' tr)
  show ?case
  proof (cases "(Req c x r, Some NEW) \<in> set tr")
    case True
    with checked.IH show ?thesis .
  next
    case False
    with checked.prems checked.hyps(1) check_old [of x r c' w] show ?thesis
      by (cases "r < x") (auto simp: not_less)
  qed
qed auto

end

text \<open>With acknowledgements in order, no request is new twice.\<close>

lemma observed_once:
  assumes "rw.observed w tr" "sorted [s. (Req c' y s, st) \<leftarrow> tr, c' = c]"
  shows "executions c x tr \<le> 1"
proof (rule ccontr)
  assume "\<not> ?thesis"
  then obtain pre r mid r' post where
    tr: "tr = pre @ (Req c x r, Some NEW) # mid @ (Req c x r', Some NEW) # post"
    using two_executions [of c x tr] by (auto simp: not_le)
  obtain y s st where ack: "(Req c y s, st) \<in> set mid" "x < s"
    using rw.observed_twice [OF assms(1) tr] by blast
  have "r' < x"
    by (rule rw.observed_above_rep [OF assms(1)]) (use tr in auto)
  moreover obtain m1 m2 where "mid = m1 @ (Req c y s, st) # m2"
    using split_list [OF ack(1)] by blast
  then have "s \<le> r'"
    using assms(2) unfolding tr by (simp add: sorted_append)
  ultimately show False
    using ack(2) by simp
qed

fun window_trace :: "server_event list \<Rightarrow> ((addr \<times> u8 list) window_event \<times> rpcstate_t option) list" where
  "window_trace [] = []"
| "window_trace (Window e # es) = e # window_trace es"
| "window_trace (Ran c x # es) = window_trace es"
| "window_trace (Replied c d x b # es) = window_trace es"
| "window_trace (Refused c # es) = window_trace es"

lemma window_trace_append [simp]: "window_trace (es @ es') = window_trace es @ window_trace es'"
  by (induction es rule: window_trace.induct) simp_all

text \<open>What one step of a job does to the window, and when it runs a handler.\<close>

lemma job_window:
  assumes "job_step g a c p s = Some (c', p', s')"
  obtains (silent) "window_trace (job_events a c p s) = []"
      "\<And>d x. known (rs_replies s') d x = known (rs_replies s) d x"
  | (checked) d x r st where "window_trace (job_events a c p s) = [(Req d x r, Some st)]"
      "check_state d x r (rs_replies s) = Some (st, rs_replies s')"
  | (saved) d x b where "window_trace (job_events a c p s) = [(Rep d x b, None)]"
      "save_reply d x b (rs_replies s) = Some (rs_replies s')"
proof (cases p)
  case (Checks h f req)
  with assms obtain st out w where "checkduplicate_and_update (rq_clt_nonce h) (rq_xid h) (rq_xid_rep h)
      (rs_replies s) = Some (st, out, w)" "rs_replies s' = w"
    by (auto split: Option.bind_splits)
  then have "check_state (rq_clt_nonce h) (rq_xid h) (rq_xid_rep h) (rs_replies s) = Some (st, rs_replies s')"
    by (simp add: check_state_def)
  with Checks checked show thesis
    by simp
next
  case (Saves h b)
  with assms saved show thesis
    by (auto split: Option.bind_splits)
next
  case Remembers
  with assms silent show thesis
    by (auto simp: remember_conn_def on_net_def split: Option.bind_splits option.splits if_splits)
next
  case Runs
  with assms silent show thesis
    by (auto simp: run_handler_def updatestat_def Let_def split: Option.bind_splits if_splits)
next
  case Picks
  with assms silent show thesis
    by (auto dest: latest_conn_replies split: Option.bind_splits)
next
  case Opens
  with assms silent show thesis
    by (auto simp: known_entries)
qed (use assms silent in \<open>auto simp: on_net_def split: Option.bind_splits\<close>)

lemma act_window:
  assumes "act x k = Some (es, k')" "rw.observed (rs_replies (wk_server k')) tr"
  shows "rw.observed (rs_replies (wk_server k)) (window_trace es @ tr)"
proof (cases x)
  case (Work i g a)
  obtain c p where j: "wk_jobs k ! i = (c, p)"
    by (cases "wk_jobs k ! i")
  with assms(1) Work obtain c' p' where st: "job_step g a c p (wk_server k) = Some (c', p', wk_server k')"
      "es = job_events a c p (wk_server k)"
    by (auto split: if_splits Option.bind_splits)
  from st(1) show ?thesis
  proof (cases rule: job_window [where a = a])
    case silent
    with assms(2) st(2) show ?thesis
      by (auto intro: rw.silent)
  next
    case checked
    with assms(2) st(2) show ?thesis
      by (auto intro: rw.checked)
  next
    case saved
    with assms(2) st(2) show ?thesis
      by (auto intro: rw.saved)
  qed
next
  case (Arrive c buf accepted)
  with assms show ?thesis
    by (auto simp: rpcs_got_pdu_def on_net_def split: if_splits Option.bind_splits)
qed (use assms in \<open>auto simp: on_net_def split: if_splits Option.bind_splits\<close>)

lemma run_window_trace:
  "run_workers xs k = Some (es, k') \<Longrightarrow> rw.observed (rs_replies (wk_server k)) (window_trace es)"
proof (induction xs arbitrary: k es)
  case Nil
  then show ?case
    by (simp add: rw.nothing)
next
  case (Cons x xs)
  from Cons.prems obtain es1 k1 es2 where step: "act x k = Some (es1, k1)" "run_workers xs k1 = Some (es2, k')"
      "es = es1 @ es2"
    by (auto split: Option.bind_splits)
  from act_window [OF step(1) Cons.IH [OF step(2)]] step(3) show ?case
    by simp
qed

text \<open>
  A handler runs only for a verdict \<open>NEW\<close>: the jobs about to run one for a request, and the runs
  there were, are together the verdicts there were.
\<close>

fun about_to_run :: "'s job_phase \<Rightarrow> (u32 \<times> u32) option" where
  "about_to_run (Runs h f req) = request_key h"
| "about_to_run _ = None"

definition waiting_runs :: "'s job list \<Rightarrow> u32 \<times> u32 \<Rightarrow> int" where
  "waiting_runs js q = (\<Sum>j\<leftarrow>js. if about_to_run (snd j) = Some q then 1 else 0)"

lemma waiting_runs_update:
  "i < length js \<Longrightarrow> waiting_runs (js[i := (c, p)]) q = waiting_runs js q
    - (if about_to_run (snd (js ! i)) = Some q then 1 else 0) + (if about_to_run p = Some q then 1 else 0)"
  unfolding waiting_runs_def by (simp add: sum_list_update_int)

lemma executions_append [simp]: "executions c x (tr @ tr') = executions c x tr + executions c x tr'"
  by (induction c x tr rule: executions.induct) simp_all

lemma job_runs:
  assumes "job_step g a c p s = Some (c', p', s')" "clt \<noteq> 0"
  shows "int (count_list (job_events a c p s) (Ran clt x)) + (if about_to_run p' = Some (clt, x) then 1 else 0)
    = int (executions clt x (window_trace (job_events a c p s))) + (if about_to_run p = Some (clt, x) then 1 else 0)"
proof (cases p)
  case (Start buf)
  with assms show ?thesis
    by (auto simp: begin_job_def split: Option.bind_splits if_splits option.splits)
next
  case (Checks h f req)
  with assms(1) obtain st out w where w: "checkduplicate_and_update (rq_clt_nonce h) (rq_xid h) (rq_xid_rep h)
      (rs_replies s) = Some (st, out, w)" "decide g h f req st out = Some p'"
    by (auto split: Option.bind_splits)
  then have "about_to_run p' = (if st = NEW then request_key h else None)"
    by (auto simp: decide_def split: rpcstate_t.splits option.splits Option.bind_splits)
  moreover have "check_state (rq_clt_nonce h) (rq_xid h) (rq_xid_rep h) (rs_replies s) = Some (st, w)"
    using w(1) by (simp add: check_state_def)
  ultimately show ?thesis
    using Checks assms(2) by auto
qed (use assms in \<open>auto split: Option.bind_splits if_splits\<close>)

lemma act_runs:
  assumes "act y k = Some (es, k')" "clt \<noteq> 0"
  shows "int (count_list es (Ran clt x)) + waiting_runs (wk_jobs k') (clt, x)
    = int (executions clt x (window_trace es)) + waiting_runs (wk_jobs k) (clt, x)"
proof (cases y)
  case (Work i g a)
  obtain c p where j: "wk_jobs k ! i = (c, p)"
    by (cases "wk_jobs k ! i")
  with assms(1) Work obtain c' p' s' where st: "job_step g a c p (wk_server k) = Some (c', p', s')"
      "es = job_events a c p (wk_server k)" "wk_jobs k' = (wk_jobs k)[i := (c', p')]" "i < length (wk_jobs k)"
    by (auto split: if_splits Option.bind_splits)
  from job_runs [OF st(1) assms(2), of x] show ?thesis
    using st(2-4) j by (simp add: waiting_runs_update)
next
  case (Arrive c buf accepted)
  with assms show ?thesis
    by (auto simp: waiting_runs_def split: if_splits Option.bind_splits)
qed (use assms in \<open>auto split: if_splits Option.bind_splits\<close>)

lemma run_runs:
  "run_workers xs k = Some (es, k') \<Longrightarrow> clt \<noteq> 0 \<Longrightarrow>
    int (count_list es (Ran clt x)) + waiting_runs (wk_jobs k') (clt, x)
      = int (executions clt x (window_trace es)) + waiting_runs (wk_jobs k) (clt, x)"
proof (induction xs arbitrary: k es)
  case (Cons y xs)
  from Cons.prems obtain es1 k1 es2 where step: "act y k = Some (es1, k1)" "run_workers xs k1 = Some (es2, k')"
      "es = es1 @ es2"
    by (auto split: Option.bind_splits)
  from act_runs [OF step(1) Cons.prems(2), of x] Cons.IH [OF step(2) Cons.prems(2)] step(3) show ?case
    by simp
qed simp

lemma waiting_runs_nonneg [simp]: "0 \<le> waiting_runs js q"
  by (auto simp: waiting_runs_def intro!: sum_list_nonneg)

lemma idle_runs_once:
  assumes "run_workers xs (idle_workers ext s) = Some (es, k)" "clt \<noteq> 0"
    and "sorted [r. (Req c y r, st) \<leftarrow> window_trace es, c = clt]"
  shows "count_list es (Ran clt x) \<le> 1"
proof -
  have "executions clt x (window_trace es) \<le> 1"
    by (rule observed_once [OF run_window_trace [OF assms(1)] assms(3)])
  moreover have "waiting_runs (wk_jobs (idle_workers ext s)) (clt, x) = 0"
    by (simp add: idle_workers_def waiting_runs_def)
  ultimately show ?thesis
    using run_runs [OF assms(1,2), of x] waiting_runs_nonneg [of "wk_jobs k" "(clt, x)"] by linarith
qed

section \<open>The jobs can be finished\<close>

lemma job_step_heap:
  assumes "job_step g a c p s = Some (c', p', s')" "finite (dom (rheap (rs_replies s)))"
  shows "finite (dom (rheap (rs_replies s')))"
proof (cases p)
  case (Checks h f req)
  with assms(1) obtain st out where "checkduplicate_and_update (rq_clt_nonce h) (rq_xid h) (rq_xid_rep h)
      (rs_replies s) = Some (st, out, rs_replies s')"
    by (auto split: Option.bind_splits)
  note shrinks = checkduplicate_shrinks [OF this]
  have "dom (rheap (rs_replies s')) \<subseteq> dom (rheap (rs_replies s))"
  proof
    show "d \<in> dom (rheap (rs_replies s))" if "d \<in> dom (rheap (rs_replies s'))" for d
      using that shrinks [of d] by (cases "rheap (rs_replies s) d") auto
  qed
  with assms(2) show ?thesis
    by (rule rev_finite_subset)
next
  case (Saves h b)
  with assms show ?thesis
    by (auto dest!: save_reply_heap split: Option.bind_splits)
next
  case Remembers
  with assms show ?thesis
    by (auto simp: remember_conn_def on_net_def split: Option.bind_splits option.splits if_splits)
next
  case Runs
  with assms show ?thesis
    by (auto simp: run_handler_def updatestat_def Let_def split: Option.bind_splits if_splits)
next
  case Picks
  with assms show ?thesis
    by (auto dest: latest_conn_replies split: Option.bind_splits)
qed (use assms in \<open>auto simp: on_net_def split: Option.bind_splits\<close>)

lemma job_step_procs:
  assumes "job_step g a c p s = Some (c', p', s')"
  shows "rs_procs s' = rs_procs s"
proof (cases p)
  case Remembers
  with assms show ?thesis
    by (auto simp: remember_conn_def on_net_def split: Option.bind_splits option.splits if_splits)
next
  case Runs
  with assms show ?thesis
    by (auto simp: run_handler_def updatestat_def Let_def split: Option.bind_splits if_splits)
next
  case Picks
  with assms show ?thesis
    by (auto simp: latest_conn_def on_net_def split: Option.bind_splits option.splits if_splits)
qed (use assms in \<open>auto simp: on_net_def split: Option.bind_splits\<close>)

definition steps_to_do :: "'s job list \<Rightarrow> nat" where
  "steps_to_do js = (\<Sum>j\<leftarrow>js. steps_left (snd j))"

lemma steps_to_do_update:
  assumes "i < length js" "steps_left p < steps_left (snd (js ! i))"
  shows "steps_to_do (js[i := (c, p)]) < steps_to_do js"
  using assms unfolding steps_to_do_def by (induction js arbitrary: i) (auto split: nat.splits)

lemma steps_to_do_bound: "steps_to_do js \<le> 9 * length js"
proof (induction js)
  case (Cons j js)
  have "steps_left (snd j) \<le> 9"
    by (cases "snd j") simp_all
  with Cons show ?case
    by (simp add: steps_to_do_def)
qed (simp add: steps_to_do_def)

text \<open>Some job can go on in order: one at work on a request, or, if there is none, any.\<close>

lemma some_job_goes_on:
  assumes ok: "workers_ok k" and f: "\<And>f. f \<in> ran (rs_procs (wk_server k)) \<Longrightarrow> handler_ok f"
    and heap: "finite (dom (rheap (rs_replies (wk_server k))))"
    and i: "i < length (wk_jobs k)" "snd (wk_jobs k ! i) \<noteq> Finished"
  obtains n g a where "orderly (Work n g a) k"
proof -
  have go: "can_go_on g p (wk_server k)" if "n < length (wk_jobs k)" "wk_jobs k ! n = (c, p)" "p \<noteq> Finished" for n c p g
    using workers_okD(7) [OF ok that(1,2)] that(3) f
    by (cases p) (auto simp: can_go_on_def handler_ok_def ran_def)
  obtain a where a: "rheap (rs_replies (wk_server k)) a = None"
    using ex_new_if_finite [OF infinite_UNIV_nat heap] by blast
  show thesis
  proof (cases "\<exists>n < length (wk_jobs k). under_way (snd (wk_jobs k ! n)) \<noteq> None")
    case True
    then obtain n where n: "n < length (wk_jobs k)" "under_way (snd (wk_jobs k ! n)) \<noteq> None"
      by blast
    obtain c p where p: "wk_jobs k ! n = (c, p)"
      by (cases "wk_jobs k ! n")
    with n(2) have p': "p \<noteq> Finished" "acks_nothing_under_way p (wk_jobs k)"
      by (cases p; simp)+
    show thesis
      by (rule that [of n "\<lambda>_. 0" a]) (use n(1) p p' go [OF n(1) p p'(1)] a in simp)
  next
    case False
    then have "list_all (\<lambda>j. under_way (snd j) = None) (wk_jobs k)"
      unfolding list_all_length by blast
    then have calm: "acks_nothing_under_way p (wk_jobs k)" for p
      by (cases p) (auto simp: list_all_iff)
    obtain c p where p: "wk_jobs k ! i = (c, p)"
      by (cases "wk_jobs k ! i")
    show thesis
      by (rule that [of i "\<lambda>_. 0" a]) (use i p calm go [OF i(1) p] a in simp)
  qed
qed

text \<open>The workers of the pool alone, each turn with its job and its memory.\<close>

fun pool_work :: "(nat \<times> (nat \<Rightarrow> u8) \<times> addr) list \<Rightarrow> action list" where
  "pool_work [] = []"
| "pool_work ((i, g, a) # xs) = Work i g a # pool_work xs"

lemma length_pool_work [simp]: "length (pool_work xs) = length xs"
  by (induction xs) auto

lemma jobs_finish:
  assumes "workers_ok k" "\<And>f. f \<in> ran (rs_procs (wk_server k)) \<Longrightarrow> handler_ok f"
    and "finite (dom (rheap (rs_replies (wk_server k))))"
  shows "\<exists>xs es k'. orderly_run (pool_work xs) k \<and> run_workers (pool_work xs) k = Some (es, k') \<and> workers_ok k' \<and>
    length xs \<le> steps_to_do (wk_jobs k) \<and> list_all (\<lambda>j. snd j = Finished) (wk_jobs k')"
  using assms
proof (induction "steps_to_do (wk_jobs k)" arbitrary: k rule: less_induct)
  case less
  show ?case
  proof (cases "list_all (\<lambda>j. snd j = Finished) (wk_jobs k)")
    case True
    with less.prems(1) show ?thesis
      by (intro exI [of _ "[]"]) simp
  next
    case False
    then obtain m where m: "m < length (wk_jobs k)" "snd (wk_jobs k ! m) \<noteq> Finished"
      by (auto simp: list_all_length)
    obtain i g a where ord: "orderly (Work i g a) k"
      using some_job_goes_on [OF less.prems(1) less.prems(2) less.prems(3) m] by blast
    obtain es1 k1 where k1: "act (Work i g a) k = Some (es1, k1)" "workers_ok k1"
      using work_ok [OF less.prems(1) ord] by blast
    obtain c p where j: "wk_jobs k ! i = (c, p)"
      by (cases "wk_jobs k ! i")
    with k1(1) ord obtain c' p' where st: "job_step g a c p (wk_server k) = Some (c', p', wk_server k1)"
        "wk_jobs k1 = (wk_jobs k)[i := (c', p')]" "i < length (wk_jobs k)"
      by (auto split: Option.bind_splits)
    have smaller: "steps_to_do (wk_jobs k1) < steps_to_do (wk_jobs k)"
      unfolding st(2) by (rule steps_to_do_update) (use st(3) job_step_left [OF st(1)] j in simp_all)
    have "rs_procs (wk_server k1) = rs_procs (wk_server k)"
      by (rule job_step_procs [OF st(1)])
    with less.hyps [OF smaller k1(2)] less.prems(2) job_step_heap [OF st(1) less.prems(3)]
    obtain xs es2 k2 where run: "orderly_run (pool_work xs) k1" "run_workers (pool_work xs) k1 = Some (es2, k2)"
        "workers_ok k2"
        "length xs \<le> steps_to_do (wk_jobs k1)" "list_all (\<lambda>j. snd j = Finished) (wk_jobs k2)"
      by auto
    show ?thesis
      by (intro exI [of _ "(i, g, a) # xs"] exI [of _ "es1 @ es2"] exI [of _ k2])
        (use ord k1(1) run smaller in simp)
  qed
qed

text \<open>The handlers stay what they are, and the heap stays finite.\<close>

lemma act_keeps:
  assumes "act x k = Some (es, k')"
  shows "rs_procs (wk_server k') = rs_procs (wk_server k)"
    "finite (dom (rheap (rs_replies (wk_server k)))) \<Longrightarrow> finite (dom (rheap (rs_replies (wk_server k'))))"
proof -
  have "rs_procs (wk_server k') = rs_procs (wk_server k) \<and>
    (finite (dom (rheap (rs_replies (wk_server k)))) \<longrightarrow> finite (dom (rheap (rs_replies (wk_server k')))))"
  proof (cases x)
    case (Work i g a)
    obtain c p where "wk_jobs k ! i = (c, p)"
      by (cases "wk_jobs k ! i")
    with assms Work obtain c' p' where st: "job_step g a c p (wk_server k) = Some (c', p', wk_server k')"
      by (auto split: if_splits Option.bind_splits)
    from job_step_procs [OF st] job_step_heap [OF st] show ?thesis
      by blast
  next
    case Arrive
    with assms show ?thesis
      by (auto simp: rpcs_got_pdu_def on_net_def split: if_splits Option.bind_splits)
  qed (use assms in \<open>auto simp: on_net_def split: if_splits Option.bind_splits\<close>)
  then show "rs_procs (wk_server k') = rs_procs (wk_server k)"
    "finite (dom (rheap (rs_replies (wk_server k)))) \<Longrightarrow> finite (dom (rheap (rs_replies (wk_server k'))))"
    by simp_all
qed

lemma act_jobs: "act x k = Some (es, k') \<Longrightarrow> length (wk_jobs k') \<le> Suc (length (wk_jobs k))"
  by (cases x) (auto split: if_splits Option.bind_splits prod.splits)

lemma run_keeps:
  assumes "run_workers xs k = Some (es, k')"
  shows "rs_procs (wk_server k') = rs_procs (wk_server k)"
    "finite (dom (rheap (rs_replies (wk_server k)))) \<Longrightarrow> finite (dom (rheap (rs_replies (wk_server k'))))"
    "length (wk_jobs k') \<le> length xs + length (wk_jobs k)"
proof -
  have "rs_procs (wk_server k') = rs_procs (wk_server k) \<and>
    (finite (dom (rheap (rs_replies (wk_server k)))) \<longrightarrow> finite (dom (rheap (rs_replies (wk_server k'))))) \<and>
    length (wk_jobs k') \<le> length xs + length (wk_jobs k)"
    using assms
  proof (induction xs arbitrary: k es)
    case (Cons x xs)
    then obtain es1 k1 es2 where "act x k = Some (es1, k1)" "run_workers xs k1 = Some (es2, k')"
      by (auto split: Option.bind_splits)
    with Cons.IH [of k1 es2] act_keeps [of x k es1 k1] act_jobs [of x k es1 k1] show ?case
      by auto
  qed simp
  then show "rs_procs (wk_server k') = rs_procs (wk_server k)"
    "finite (dom (rheap (rs_replies (wk_server k)))) \<Longrightarrow> finite (dom (rheap (rs_replies (wk_server k'))))"
    "length (wk_jobs k') \<le> length xs + length (wk_jobs k)"
    by simp_all
qed

lemma run_append:
  "run_workers xs k = Some (es, k1) \<Longrightarrow> run_workers ys k1 = Some (es', k2) \<Longrightarrow>
    run_workers (xs @ ys) k = Some (es @ es', k2)"
  by (induction xs arbitrary: k es) (auto split: Option.bind_splits)

lemma orderly_append:
  "orderly_run xs k \<Longrightarrow> run_workers xs k = Some (es, k1) \<Longrightarrow> orderly_run ys k1 \<Longrightarrow> orderly_run (xs @ ys) k"
  by (induction xs arbitrary: k es) (auto split: Option.bind_splits)

text \<open>What the invariant says of the reference counts.\<close>

lemma workers_count:
  assumes "workers_ok k"
  shows "case refno (rs_net (wk_server k)) c of
      None \<Rightarrow> held k c = 0 \<and> table_refs (rs_conns (wk_server k)) c = 0
    | Some n \<Rightarrow> n = held k c + table_refs (rs_conns (wk_server k)) c"
proof -
  have "refs_ok (\<lambda>c. held k c + table_refs (rs_conns (wk_server k)) c) (rs_net (wk_server k))" "0 \<le> held k c"
    using workers_okD(3) [OF assms] by (simp_all add: refs_inv_def)
  from refs_okD(2) [OF this(1), of c] this(2) table_refs_nonneg [of "rs_conns (wk_server k)" c] show ?thesis
    by (auto split: option.splits simp: add_nonneg_eq_0_iff simp del: table_refs_nonneg)
qed

text \<open>The references that are lost are those of the replies to requests for another instance.\<close>

lemma act_lost: "act x k = Some (es, k') \<Longrightarrow> wk_lost k' c = wk_lost k c + int (count_list es (Refused c))"
proof (cases x)
  case (Work i g a)
  assume "act x k = Some (es, k')"
  with Work show ?thesis
    by (cases "snd (wk_jobs k ! i)") (auto split: if_splits prod.splits Option.bind_splits option.splits)
qed (auto split: if_splits Option.bind_splits)

lemma run_lost: "run_workers xs k = Some (es, k') \<Longrightarrow> wk_lost k' c = wk_lost k c + int (count_list es (Refused c))"
proof (induction xs arbitrary: k es)
  case (Cons x xs)
  then obtain es1 k1 es2 where "act x k = Some (es1, k1)" "run_workers xs k1 = Some (es2, k')" "es = es1 @ es2"
    by (auto split: Option.bind_splits)
  with Cons.IH [of k1 es2] act_lost [of x k es1 k1 c] show ?case
    by simp
qed simp

lemma idle_lost:
  "run_workers xs (idle_workers ext s) = Some (es, k) \<Longrightarrow> wk_lost k c = int (count_list es (Refused c))"
  by (drule run_lost [of _ _ _ _ c]) (simp add: idle_workers_def)

lemma idle_ok: "server_ok ext s \<Longrightarrow> workers_ok (idle_workers ext s)"
  by (auto simp: workers_ok_def idle_workers_def server_ok_def refs_inv_def held_def distinct_running_def)

lemma finished_refs: "list_all (\<lambda>j. snd j = Finished) js \<Longrightarrow> job_refs js c = 0"
  by (induction js) auto

section \<open>Properties\<close>

text \<open>A request for \<open>bind\<close>, and the steps of job \<open>i\<close> with its reply at \<open>a\<close>.\<close>

definition bind_request :: "u32 \<Rightarrow> u32 \<Rightarrow> u32 \<Rightarrow> u8 list" where
  "bind_request clt xid rep = replicate 4 0 @
     enc_req_header \<lparr>rq_xid = xid, rq_proc = 1, rq_clt_nonce = clt, rq_srv_nonce = 0, rq_xid_rep = rep\<rparr> @
     be32 0"

definition works :: "nat \<Rightarrow> nat \<Rightarrow> addr \<Rightarrow> action list" where
  "works n i a = replicate n (Work i (\<lambda>_. 0) a)"

lemma wf_buf_code [code]:
  "wf_buf m =
     (case m_buf m of
        None \<Rightarrow> False
      | Some b \<Rightarrow> int (length b) = m_capa m \<and> 0 \<le> m_ind m \<and> m_ind m \<le> m_capa m \<and> DEFAULT_RPC_SZ \<le> m_capa m)"
  by (auto simp: wf_buf_def split: option.splits)

lemma handler_returns_code [code]:
  "handler_returns f u g a =
     (case f u (new_marshall g) a of
        None \<Rightarrow> False
      | Some (ret, rep, a') \<Rightarrow> wf_marshall rep \<and> (0 \<le> sint ret \<or> ret = unmarshal_args_failure))"
  by (auto simp: handler_returns_def split: option.splits)

text \<open>
  A request and its retransmission: the second is dropped while the first runs, and meanwhile
  their connection is closed and let go.
\<close>

definition threads_demo :: "action list" where
  "threads_demo =
     [Arrive 3 (bind_request 7 1 0) True, Arrive 3 (bind_request 7 1 0) True] @
     works 4 0 10 @ works 3 1 11 @ [Close 3, Release 3] @ works 1 1 11"

lemma threads_demo_orderly: "orderly_run threads_demo (idle_workers demo_jobs (demo_server False))"
  by code_simp

text \<open>
  C2. \<open>dispatch\<close> in any number of threads at once, interleaved step by step with arriving messages
  and with connections that are accepted, closed and let go, in every orderly run: a handler that is
  run returns, no message acknowledges a request that some thread is still running or has to answer,
  and a connection with a job of a client without at-most-once semantics is not dead. Then no
  assertion fails and nothing that was deleted or freed is used, the window keeps its invariant,
  and the count of every connection is the number of references of the listener, of the jobs and of
  the table of latest connections, plus one for each request for another instance of the server
  that was refused on it, which nobody gives back. A connection that was deleted has none of them.
\<close>

theorem threads_safe:
  assumes "server_ok ext s" "orderly_run xs (idle_workers ext s)"
  shows "\<exists>es k. run_workers xs (idle_workers ext s) = Some (es, k) \<and> rw_inv (rs_replies (wk_server k)) \<and>
    (\<forall>c. wk_ext k c + job_refs (wk_jobs k) c + table_refs (rs_conns (wk_server k)) c + int (count_list es (Refused c))
      = (case refno (rs_net (wk_server k)) c of None \<Rightarrow> 0 | Some n \<Rightarrow> n))"
proof -
  obtain es k where run: "run_workers xs (idle_workers ext s) = Some (es, k)" "workers_ok k"
    using workers_run_ok [OF idle_ok [OF assms(1)] assms(2)] by blast
  have "wk_ext k c + job_refs (wk_jobs k) c + table_refs (rs_conns (wk_server k)) c + int (count_list es (Refused c))
      = (case refno (rs_net (wk_server k)) c of None \<Rightarrow> 0 | Some n \<Rightarrow> n)" for c
    using workers_count [OF run(2), of c] idle_lost [OF run(1), of c]
    by (auto simp: held_def split: option.splits)
  with run workers_okD(4) [OF run(2)] show ?thesis
    by blast
qed

theorem threads_safe_witness:
  "\<exists>es k. run_workers threads_demo (idle_workers demo_jobs (demo_server False)) = Some (es, k) \<and>
    rw_inv (rs_replies (wk_server k)) \<and>
    (\<forall>c. wk_ext k c + job_refs (wk_jobs k) c + table_refs (rs_conns (wk_server k)) c + int (count_list es (Refused c))
      = (case refno (rs_net (wk_server k)) c of None \<Rightarrow> 0 | Some n \<Rightarrow> n))"
  by (rule threads_safe [OF demo_server_ok threads_demo_orderly])

text \<open>
  C1. At most once, for the handlers: however the threads interleave, whatever is retransmitted and
  whichever connections die, the handler of a request runs at most once when the
  acknowledgements of its client reach the window in order.
\<close>

theorem threads_at_most_once:
  assumes "run_workers xs (idle_workers ext s) = Some (es, k)" "clt \<noteq> 0"
    and "sorted [r. (Req c y r, st) \<leftarrow> window_trace es, c = clt]"
  shows "count_list es (Ran clt x) \<le> 1"
  by (rule idle_runs_once [OF assms])

theorem threads_at_most_once_witness:
  "count_list (fst (the (run_workers threads_demo (idle_workers demo_jobs (demo_server False))))) (Ran 7 1) \<le> 1"
proof (rule threads_at_most_once)
  show "run_workers threads_demo (idle_workers demo_jobs (demo_server False)) =
      Some (fst (the (run_workers threads_demo (idle_workers demo_jobs (demo_server False)))),
        snd (the (run_workers threads_demo (idle_workers demo_jobs (demo_server False)))))"
    using workers_run_ok [OF idle_ok [OF demo_server_ok] threads_demo_orderly] by (auto simp: option.collapse)
  show "sorted [r. (Req c y r, st) \<leftarrow> window_trace
      (fst (the (run_workers threads_demo (idle_workers demo_jobs (demo_server False))))), c = 7]"
    by code_simp
qed simp

text \<open>
  C23. The threads never get stuck on each other: after any orderly run of a server whose handlers
  all return (those of the RPC tests do, \<open>acquire\<close> of the lock server does not), the jobs can all be
  finished by an orderly run, with at most nine more steps for each message, and then the jobs
  hold no reference any more.
\<close>

theorem threads_can_finish:
  assumes "server_ok ext s" "orderly_run xs (idle_workers ext s)"
    and "\<forall>f\<in>ran (rs_procs s). handler_ok f" "finite (dom (rheap (rs_replies s)))"
  shows "\<exists>ys es k. orderly_run (xs @ ys) (idle_workers ext s) \<and>
    run_workers (xs @ ys) (idle_workers ext s) = Some (es, k) \<and> length ys \<le> 9 * length xs \<and>
    list_all (\<lambda>j. snd j = Finished) (wk_jobs k) \<and> (\<forall>c. job_refs (wk_jobs k) c = 0)"
proof -
  obtain es1 k1 where run1: "run_workers xs (idle_workers ext s) = Some (es1, k1)" "workers_ok k1"
    using workers_run_ok [OF idle_ok [OF assms(1)] assms(2)] by blast
  have keep: "rs_procs (wk_server k1) = rs_procs s" "finite (dom (rheap (rs_replies (wk_server k1))))"
      "length (wk_jobs k1) \<le> length xs"
    using run_keeps [OF run1(1)] assms(4) by (simp_all add: idle_workers_def)
  have "handler_ok f" if "f \<in> ran (rs_procs (wk_server k1))" for f
    using assms(3) that keep(1) by simp
  from jobs_finish [OF run1(2) this keep(2)] obtain ys es2 k2 where run2: "orderly_run (pool_work ys) k1"
      "run_workers (pool_work ys) k1 = Some (es2, k2)" "length ys \<le> steps_to_do (wk_jobs k1)"
      "list_all (\<lambda>j. snd j = Finished) (wk_jobs k2)"
    by blast
  have "length ys \<le> 9 * length xs"
    using run2(3) steps_to_do_bound [of "wk_jobs k1"] keep(3) by linarith
  then have "length (pool_work ys) \<le> 9 * length xs"
    by simp
  then show ?thesis
    using orderly_append [OF assms(2) run1(1) run2(1)] run_append [OF run1(1) run2(2)] run2(4)
      finished_refs [OF run2(4)] by blast
qed

theorem threads_can_finish_witness:
  "\<exists>ys es k. orderly_run (threads_demo @ ys) (idle_workers demo_jobs (demo_server False)) \<and>
    run_workers (threads_demo @ ys) (idle_workers demo_jobs (demo_server False)) = Some (es, k) \<and>
    length ys \<le> 9 * length threads_demo \<and>
    list_all (\<lambda>j. snd j = Finished) (wk_jobs k) \<and> (\<forall>c. job_refs (wk_jobs k) c = 0)"
  by (rule threads_can_finish [OF demo_server_ok threads_demo_orderly])
    (auto simp: demo_server_eq empty_replies_def ran_def rpcbind_ok)

text \<open>
  A run that is not orderly: the thread of request 1 has saved its reply and not sent it yet. The
  client stops waiting for requests 1 and 2, which acknowledges them with its next call; the
  check of that call frees the reply, and the first thread then sends freed memory.
\<close>

definition late_send :: "action list" where
  "late_send =
     [Arrive 3 (bind_request 7 1 0) True] @ works 7 0 10 @
     [Arrive 3 (bind_request 7 3 2) True] @ works 4 1 12"

theorem late_send_uses_freed_reply:
  "case run_workers late_send (idle_workers demo_jobs (demo_server False)) of
     None \<Rightarrow> False
   | Some (es, k) \<Rightarrow> Option.is_none (act (Work 0 (\<lambda>_. 0) 10) k)"
  by code_simp

end
