(* ===== verification/Accept_Loop.thy ===== *)
theory Accept_Loop
  imports Connection_Refs
begin

text \<open>
  The listening side \<open>tcpsconn\<close> of \<open>rpc/connection.cc\<close>: accepting a connection, which also collects
  the dead ones, and the destructor. \<open>conns\<close> is the map \<open>conns_\<close> from descriptors to connections, in
  the order of its iteration; every entry holds the reference the connection was constructed with.
\<close>

type_synonym conn_map = "(nat \<times> conn) list"

section \<open>Operations\<close>

fun collect_dead :: "conn_map \<Rightarrow> conn_table \<Rightarrow> (conn_map \<times> conn_table) option" where
  "collect_dead [] t = Some ([], t)"
| "collect_dead ((fd, c) # cs) t = do {
     d \<leftarrow> isdead c t;
     n \<leftarrow> refno t c;
     (if d \<and> n = 1
      then do { t \<leftarrow> decref c t; collect_dead cs t }
      else do { (cs, t) \<leftarrow> collect_dead cs t; Some ((fd, c) # cs, t) })
   }"

text \<open>\<open>conns_[fd] = c\<close>.\<close>

fun put_conn :: "nat \<Rightarrow> conn \<Rightarrow> conn_map \<Rightarrow> conn_map" where
  "put_conn fd c [] = [(fd, c)]"
| "put_conn fd c ((fd', c') # cs) =
     (if fd < fd' then (fd, c) # (fd', c') # cs
      else if fd = fd' then (fd, c) # cs
      else (fd', c') # put_conn fd c cs)"

text \<open>
  \<open>acc\<close> is the descriptor that \<open>accept\<close> returns and the new object; when \<open>accept\<close> fails the thread
  exits, which the flag says.
\<close>

definition process_accept ::
  "(nat \<times> conn) option \<Rightarrow> conn_map \<Rightarrow> conn_table \<Rightarrow> (bool \<times> conn_map \<times> conn_table) option" where
  "process_accept acc conns t =
     (case acc of
        None \<Rightarrow> Some (False, conns, t)
      | Some (fd, c) \<Rightarrow> do {
          let t = construct c t;
          (conns, t) \<leftarrow> collect_dead conns t;
          Some (True, put_conn fd c conns, t)
        })"

text \<open>A turn of \<open>accept_conn\<close>: the pipe is readable when the destructor has closed its other end.\<close>

datatype select_outcome = Sel_Interrupted | Sel_Failed | Sel_Ready bool bool

definition accept_turn ::
  "select_outcome \<Rightarrow> (nat \<times> conn) option \<Rightarrow> conn_map \<Rightarrow> conn_table \<Rightarrow> (bool \<times> conn_map \<times> conn_table) option"
where
  "accept_turn ret acc conns t =
     (case ret of
        Sel_Interrupted \<Rightarrow> Some (True, conns, t)
      | Sel_Failed \<Rightarrow> None
      | Sel_Ready pipe tcp \<Rightarrow>
          if pipe then Some (False, conns, t)
          else if tcp then process_accept acc conns t
          else None)"

text \<open>The loop of the destructor, behind the end of the accepting thread.\<close>

fun close_all :: "conn_map \<Rightarrow> conn_table \<Rightarrow> conn_table option" where
  "close_all [] t = Some t"
| "close_all ((fd, c) # cs) t = do { t \<leftarrow> closeconn c t; t \<leftarrow> decref c t; close_all cs t }"

section \<open>The references of the map\<close>

definition hold :: "conn_map \<Rightarrow> conn \<Rightarrow> int" where
  "hold cs c = int (count_list (map snd cs) c)"

definition kept :: "conn_table \<Rightarrow> nat \<times> conn \<Rightarrow> bool" where
  "kept t e \<longleftrightarrow> \<not> (dead t (snd e) \<and> refno t (snd e) = Some 1)"

lemma hold_simps [simp]: "hold [] d = 0" "hold ((fd, c) # cs) d = one (Some c) d + hold cs d"
  by (simp_all add: hold_def)

lemma hold_nonneg [simp]: "0 \<le> hold cs d"
  by (simp add: hold_def)

lemma hold_zero: "hold cs d = 0 \<longleftrightarrow> d \<notin> snd ` set cs"
  by (simp add: hold_def count_list_0_iff)

lemma hold_put: "fd \<notin> fst ` set cs \<Longrightarrow> hold (put_conn fd c cs) d = one (Some c) d + hold cs d"
  by (induction fd c cs rule: put_conn.induct) auto

lemma set_put: "fd \<notin> fst ` set cs \<Longrightarrow> set (put_conn fd c cs) = insert (fd, c) (set cs)"
  by (induction fd c cs rule: put_conn.induct) auto

lemma collect_dead_ok:
  assumes "refs_ok (\<lambda>d. hold cs d + rest d) t" "\<And>d. 0 \<le> rest d"
  shows "\<exists>t'. collect_dead cs t = Some (filter (kept t) cs, t') \<and>
    refs_ok (\<lambda>d. hold (filter (kept t) cs) d + rest d) t' \<and> dead t' = dead t \<and> sent t' = sent t \<and>
    (\<forall>d. refno t' d = (if d \<in> snd ` set cs \<and> dead t d \<and> refno t d = Some 1 then None else refno t d))"
  using assms
proof (induction cs arbitrary: rest t)
  case (Cons e cs)
  obtain fd c where e: "e = (fd, c)"
    by (cases e)
  have pos: "0 < hold (e # cs) c + rest c"
    using Cons.prems(2) [of c] hold_nonneg [of cs c] by (simp add: e del: hold_nonneg)
  have n: "refno t c = Some (1 + hold cs c + rest c)"
    using refs_okD(3) [OF Cons.prems(1) pos] by (simp add: e)
  then have c: "isdead c t = Some (dead t c)"
    by (simp add: isdead_def)
  show ?case
  proof (cases "dead t c \<and> refno t c = Some 1")
    case True
    then have zero: "hold cs c = 0" "rest c = 0"
      using n Cons.prems(2) [of c] hold_nonneg [of cs c] by (simp_all del: hold_nonneg)
    define t1 where "t1 = t\<lparr>refno := (refno t)(c := None)\<rparr>"
    have d: "decref c t = Some t1"
      using decref_last True by (simp add: t1_def)
    have "refs_ok (\<lambda>d. (hold cs d + rest d) + one (Some c) d) t"
      using Cons.prems(1) by (rule refs_ok_cong) (auto simp: e)
    from decref_Some_ok [OF this] d Cons.prems(2) have r1: "refs_ok (\<lambda>d. hold cs d + rest d) t1"
      by fastforce
    obtain t' where t': "collect_dead cs t1 = Some (filter (kept t1) cs, t')"
        "refs_ok (\<lambda>d. hold (filter (kept t1) cs) d + rest d) t'" "dead t' = dead t1" "sent t' = sent t1"
        "\<And>d. refno t' d = (if d \<in> snd ` set cs \<and> dead t1 d \<and> refno t1 d = Some 1 then None else refno t1 d)"
      using Cons.IH [OF r1 Cons.prems(2)] by blast
    have notin: "c \<notin> snd ` set cs"
      using zero(1) hold_zero by blast
    then have "filter (kept t1) cs = filter (kept t) cs"
      by (intro filter_cong) (auto simp: kept_def t1_def)
    moreover have "\<not> kept t e"
      using True by (simp add: kept_def e)
    moreover have "refno t' d = (if d \<in> snd ` set (e # cs) \<and> dead t d \<and> refno t d = Some 1 then None else refno t d)" for d
      using t'(5) [of d] notin True by (auto simp: e t1_def)
    ultimately show ?thesis
      using t'(1-4) True c d by (simp add: e t1_def)
  next
    case False
    define rest' where "rest' = (\<lambda>d. rest d + one (Some c) d)"
    have r: "refs_ok (\<lambda>d. hold cs d + rest' d) t" "\<And>d. 0 \<le> rest' d"
      using Cons.prems(1) by (auto intro: refs_ok_cong simp: e rest'_def Cons.prems(2) fun_eq_iff algebra_simps)
    obtain t' where t': "collect_dead cs t = Some (filter (kept t) cs, t')"
        "refs_ok (\<lambda>d. hold (filter (kept t) cs) d + rest' d) t'" "dead t' = dead t" "sent t' = sent t"
        "\<And>d. refno t' d = (if d \<in> snd ` set cs \<and> dead t d \<and> refno t d = Some 1 then None else refno t d)"
      using Cons.IH [OF r] by blast
    have k: "kept t e"
      using False by (simp add: kept_def e)
    have "refs_ok (\<lambda>d. hold (filter (kept t) (e # cs)) d + rest d) t'"
      using t'(2) by (rule refs_ok_cong) (use k in \<open>auto simp: e rest'_def\<close>)
    moreover have "collect_dead (e # cs) t = Some (filter (kept t) (e # cs), t')"
      using t'(1) False c n k by (auto simp: e)
    moreover have "refno t' d = (if d \<in> snd ` set (e # cs) \<and> dead t d \<and> refno t d = Some 1 then None else refno t d)" for d
      using t'(5) [of d] False by (auto simp: e)
    ultimately show ?thesis
      using t'(3,4) by blast
  qed
qed simp

lemma close_all_none: "close_all cs t = Some t' \<Longrightarrow> refno t d = None \<Longrightarrow> refno t' d = None"
proof (induction cs t rule: close_all.induct)
  case (2 fd c cs t)
  then obtain t1 t2 where s: "closeconn c t = Some t1" "decref c t1 = Some t2" "close_all cs t2 = Some t'"
    by (auto simp: bind_eq_Some_conv)
  have "refno t1 d = None"
    using s(1) 2(3) by (auto simp: closeconn_def bind_eq_Some_conv split: if_splits)
  then have "refno t2 d = None"
    using s(2) by (auto simp: decref_def split: option.splits if_splits)
  then show ?case
    using 2(1) [OF s(1,2,3)] by blast
qed simp

lemma close_all_ok:
  assumes "refs_ok (\<lambda>d. hold cs d + rest d) t" "\<And>d. 0 \<le> rest d"
  shows "\<exists>t'. close_all cs t = Some t' \<and> refs_ok rest t' \<and>
    (\<forall>d. dead t' d \<longleftrightarrow> dead t d \<or> d \<in> snd ` set cs) \<and>
    (\<forall>d. d \<in> snd ` set cs \<and> rest d = 0 \<longrightarrow> refno t' d = None)"
  using assms
proof (induction cs arbitrary: t)
  case (Cons e cs)
  obtain fd c where e: "e = (fd, c)"
    by (cases e)
  have pos: "0 < hold (e # cs) c + rest c"
    using Cons.prems(2) [of c] hold_nonneg [of cs c] by (simp add: e del: hold_nonneg)
  obtain t1 where t1: "closeconn c t = Some t1" "refs_ok (\<lambda>d. hold (e # cs) d + rest d) t1"
      "dead t1 = (dead t)(c := True)"
    using closeconn_ok [OF Cons.prems(1) pos] by blast
  have r1: "refs_ok (\<lambda>d. (hold cs d + rest d) + one (Some c) d) t1"
    using t1(2) by (rule refs_ok_cong) (auto simp: e)
  have nonneg: "0 \<le> hold cs d + rest d" for d
    by (simp add: Cons.prems(2))
  obtain t2 where t2: "decref c t1 = Some t2" "refs_ok (\<lambda>d. hold cs d + rest d) t2" "dead t2 = dead t1"
    using decref_Some_ok [OF r1 nonneg] by blast
  obtain t' where t': "close_all cs t2 = Some t'" "refs_ok rest t'"
      "\<forall>d. dead t' d \<longleftrightarrow> dead t2 d \<or> d \<in> snd ` set cs"
      "\<forall>d. d \<in> snd ` set cs \<and> rest d = 0 \<longrightarrow> refno t' d = None"
    using Cons.IH [OF t2(2) Cons.prems(2)] by (elim exE conjE)
  have "refno t' c = None" if z: "rest c = 0" "c \<notin> snd ` set cs"
  proof -
    have "hold cs c = 0"
      using z(2) hold_zero by blast
    then have "refno t1 c = Some 1"
      using refs_okD(3) [OF t1(2) pos] z(1) by (simp add: e)
    then have "t2 = t1\<lparr>refno := (refno t1)(c := None)\<rparr>"
      using t2(1) decref_last [of t1 c] t1(3) by simp
    then have "refno t2 c = None"
      by simp
    then show ?thesis
      using close_all_none [OF t'(1)] by blast
  qed
  then have none: "refno t' d = None" if "d \<in> snd ` set (e # cs) \<and> rest d = 0" for d
    using that spec [OF t'(4), of d] by (cases "d \<in> snd ` set cs") (auto simp: e)
  have runs: "close_all (e # cs) t = Some t'"
    using t1(1) t2(1) t'(1) by (simp add: e)
  have dead: "dead t' d \<longleftrightarrow> dead t d \<or> d \<in> snd ` set (e # cs)" for d
    using spec [OF t'(3), of d] t1(3) t2(3) by (simp add: e)
  show ?case
    by (intro exI conjI allI impI) (rule runs, rule t'(2), rule dead, erule none)
qed simp

section \<open>Properties\<close>

text \<open>Two dead connections, of which a job still holds one; a third is accepted.\<close>

definition demo_conns :: conn_map where
  "demo_conns = [(5, 1), (6, 2)]"

definition demo_listen :: conn_table where
  "demo_listen = \<lparr>refno = (\<lambda>_. None)(1 \<mapsto> 1, 2 \<mapsto> 2), dead = (\<lambda>c. c = 1 \<or> c = 2), sent = []\<rparr>"

lemma demo_listen_refs: "refs_ok (\<lambda>d. hold demo_conns d + one (Some 2) d) demo_listen"
  by (simp add: refs_ok_def demo_conns_def demo_listen_def)

text \<open>
  C32. Accepting a connection collects the garbage: it deletes exactly the connections of the map that are
  dead and that nobody else refers to, keeps every other one, enters the new one, and the counts
  stay those of the map and of the other holders.
\<close>

theorem accept_collects:
  assumes "refs_ok (\<lambda>d. hold conns d + others d) t" "\<And>d. 0 \<le> others d"
    and "fresh (Some c) t" "fd \<notin> fst ` set conns"
  shows "\<exists>conns' t'. process_accept (Some (fd, c)) conns t = Some (True, conns', t') \<and>
    refs_ok (\<lambda>d. hold conns' d + others d) t' \<and> set conns' = insert (fd, c) {e \<in> set conns. kept t e} \<and>
    (\<forall>e \<in> set conns. \<not> kept t e \<longrightarrow> refno t' (snd e) = None)"
proof -
  let ?t = "construct c t"
  have new: "refs_ok (\<lambda>d. (hold conns d + others d) + one (Some c) d) ?t" "dead ?t = dead t"
    using construct_ok [OF assms(1,3)] by blast+
  define rest where "rest = (\<lambda>d. others d + one (Some c) d)"
  have rest: "0 \<le> rest d" for d
    unfolding rest_def by (intro add_nonneg_nonneg assms(2) one_nonneg)
  have r: "refs_ok (\<lambda>d. hold conns d + rest d) ?t"
    using new(1) by (rule refs_ok_cong) (auto simp: rest_def)
  obtain t' where t': "collect_dead conns ?t = Some (filter (kept ?t) conns, t')"
      "refs_ok (\<lambda>d. hold (filter (kept ?t) conns) d + rest d) t'"
      "\<forall>d. refno t' d = (if d \<in> snd ` set conns \<and> dead ?t d \<and> refno ?t d = Some 1 then None else refno ?t d)"
    using collect_dead_ok [OF r rest] by (elim exE conjE)
  have "c \<notin> snd ` set conns"
  proof -
    have "hold conns c + others c = 0"
      using refs_okD(2) [OF assms(1), of c] assms(3) by (simp add: fresh_def)
    then have "hold conns c = 0"
      using assms(2) [of c] hold_nonneg [of conns c] by linarith
    then show ?thesis
      by (simp add: hold_zero)
  qed
  then have same: "kept ?t e = kept t e" if "e \<in> set conns" for e
    using that new(2) by (auto simp: kept_def construct_def)
  then have filter: "filter (kept ?t) conns = filter (kept t) conns"
    by (intro filter_cong) auto
  have fd: "fd \<notin> fst ` set (filter (kept t) conns)"
    using assms(4) by auto
  have "refno t' (snd e) = None" if "e \<in> set conns" "\<not> kept t e" for e
    using that same [OF that(1)] spec [OF t'(3), of "snd e"] by (auto simp: kept_def)
  moreover have "refs_ok (\<lambda>d. hold (put_conn fd c (filter (kept t) conns)) d + others d) t'"
    using t'(2) by (rule refs_ok_cong) (auto simp: filter hold_put [OF fd] rest_def)
  ultimately show ?thesis
    using t'(1) set_put [OF fd, of c] by (auto simp: process_accept_def filter)
qed

theorem accept_collects_witness:
  "\<exists>conns' t'. process_accept (Some (7, 3)) demo_conns demo_listen = Some (True, conns', t') \<and>
    refs_ok (\<lambda>d. hold conns' d + one (Some 2) d) t' \<and>
    set conns' = insert (7, 3) {e \<in> set demo_conns. kept demo_listen e} \<and>
    (\<forall>e \<in> set demo_conns. \<not> kept demo_listen e \<longrightarrow> refno t' (snd e) = None)"
  by (rule accept_collects [OF demo_listen_refs])
    (simp_all add: fresh_def demo_conns_def demo_listen_def)

text \<open>
  The destructor of the listener gives all its references back: it runs without a failed assertion,
  every connection of the map is dead afterwards, and is deleted if nobody else refers to it.
\<close>

theorem listener_destroyed:
  assumes "refs_ok (\<lambda>d. hold conns d + others d) t" "\<And>d. 0 \<le> others d"
  shows "\<exists>t'. close_all conns t = Some t' \<and> refs_ok others t' \<and>
    (\<forall>e \<in> set conns. dead t' (snd e) \<and> (others (snd e) = 0 \<longrightarrow> refno t' (snd e) = None))"
  using close_all_ok [OF assms] by fastforce

theorem listener_destroyed_witness:
  "\<exists>t'. close_all demo_conns demo_listen = Some t' \<and> refs_ok (one (Some 2)) t' \<and>
    (\<forall>e \<in> set demo_conns. dead t' (snd e) \<and> (one (Some 2) (snd e) = 0 \<longrightarrow> refno t' (snd e) = None))"
  by (rule listener_destroyed [OF demo_listen_refs]) simp

end
