(* ===== verification/Server_Shutdown.thy ===== *)
theory Server_Shutdown
  imports Dispatch_Runs Accept_Loop
begin

text \<open>
  The destructor \<open>rpcs::~rpcs\<close>, with jobs of the server under way: the listener closes its
  connections and gives them back, the destructor of the pool waits until the workers have run every
  job, and then the reply window is freed. That order matters, since the jobs use the window.
\<close>

section \<open>The destructor\<close>



section \<open>Closing all connections\<close>





section \<open>Properties\<close>


lemma pool_work_append [simp]: "pool_work (xs @ ys) = pool_work xs @ pool_work ys"
  by (induction xs rule: pool_work.induct) simp_all








end
