(* ===== verification/Dispatch_Replies.thy ===== *)
theory Dispatch_Replies
  imports Dispatch_Runs
begin

text \<open>
  What the retransmissions of a request get from the worker threads of \<open>rpcs\<close>: once its reply is in
  the window, and until its client acknowledges it, no copy runs the handler and every copy is
  answered with the saved bytes, whatever the other threads do in between.
\<close>

section \<open>The replies a run sends\<close>

text \<open>
  The jobs that are going to reply to a request, the replies sent to it, and the copies of it the
  duplicate check has not dropped.
\<close>

fun to_reply :: "'s job_phase \<Rightarrow> (u32 \<times> u32) option" where
  "to_reply (Runs h f req) = request_key h"
| "to_reply (Saves h b) = request_key h"
| "to_reply (Picks h m) = request_key h"
| "to_reply (Sends h m) = request_key h"
| "to_reply _ = None"

definition waiting_replies :: "'s job list \<Rightarrow> u32 \<times> u32 \<Rightarrow> int" where
  "waiting_replies js q = (\<Sum>j\<leftarrow>js. if to_reply (snd j) = Some q then 1 else 0)"

fun replies_sent :: "u32 \<Rightarrow> u32 \<Rightarrow> server_event list \<Rightarrow> nat" where
  "replies_sent clt x [] = 0"
| "replies_sent clt x (Replied c d y b # es) = (if d = clt \<and> y = x then 1 else 0) + replies_sent clt x es"
| "replies_sent clt x (_ # es) = replies_sent clt x es"

fun copies_taken :: "u32 \<Rightarrow> u32 \<Rightarrow> server_event list \<Rightarrow> nat" where
  "copies_taken clt x [] = 0"
| "copies_taken clt x (Window (Req d y r, st) # es) =
     (if d = clt \<and> y = x \<and> st \<noteq> Some INPROGRESS then 1 else 0) + copies_taken clt x es"
| "copies_taken clt x (_ # es) = copies_taken clt x es"

lemma replies_sent_append [simp]: "replies_sent clt x (es @ es') = replies_sent clt x es + replies_sent clt x es'"
  by (induction clt x es rule: replies_sent.induct) simp_all

lemma copies_taken_append [simp]: "copies_taken clt x (es @ es') = copies_taken clt x es + copies_taken clt x es'"
  by (induction clt x es rule: copies_taken.induct) simp_all

lemma waiting_replies_simps [simp]:
  "waiting_replies [] q = 0"
  "waiting_replies (js @ [j]) q = waiting_replies js q + (if to_reply (snd j) = Some q then 1 else 0)"
  by (simp_all add: waiting_replies_def)

lemma waiting_replies_update:
  "i < length js \<Longrightarrow> waiting_replies (js[i := (c, p)]) q = waiting_replies js q
    - (if to_reply (snd (js ! i)) = Some q then 1 else 0) + (if to_reply p = Some q then 1 else 0)"
  unfolding waiting_replies_def by (simp add: sum_list_update_int)

lemma waiting_replies_member:
  fixes js :: "'a job list"
  assumes "j \<in> set js" "to_reply (snd j) = Some q"
  shows "0 < waiting_replies js q"
proof -
  have "0 \<le> waiting_replies js' q" for js' :: "'a job list"
    by (auto simp: waiting_replies_def intro!: sum_list_nonneg)
  moreover obtain js1 js2 where "js = js1 @ j # js2"
    using split_list [OF assms(1)] by blast
  ultimately show ?thesis
    using assms(2) by (simp add: waiting_replies_def add_nonneg_pos add_pos_nonneg)
qed

lemma waiting_replies_finished: "list_all (\<lambda>j. snd j = Finished) js \<Longrightarrow> waiting_replies js q = 0"
  by (induction js) (auto simp: waiting_replies_def)

lemma job_replies:
  assumes "job_step g a c p s = Some (c', p', s')" "clt \<noteq> 0"
  shows "int (replies_sent clt x (job_events a c p s)) + (if to_reply p' = Some (clt, x) then 1 else 0)
    = int (copies_taken clt x (job_events a c p s)) + (if to_reply p = Some (clt, x) then 1 else 0)"
proof (cases p)
  case (Start buf)
  with assms show ?thesis
    by (auto simp: begin_job_def split: Option.bind_splits if_splits option.splits)
next
  case (Checks h f req)
  with assms(1) obtain st out w where w: "checkduplicate_and_update (rq_clt_nonce h) (rq_xid h) (rq_xid_rep h)
      (rs_replies s) = Some (st, out, w)" "decide g h f req st out = Some p'"
    by (auto split: Option.bind_splits)
  then have "to_reply p' = (if st = INPROGRESS then None else request_key h)"
    by (auto simp: decide_def split: rpcstate_t.splits option.splits Option.bind_splits)
  moreover have "check_state (rq_clt_nonce h) (rq_xid h) (rq_xid_rep h) (rs_replies s) = Some (st, w)"
    using w(1) by (simp add: check_state_def)
  ultimately show ?thesis
    using Checks assms(2) by auto
qed (use assms in \<open>auto split: Option.bind_splits if_splits\<close>)

lemma act_replies:
  assumes "act y k = Some (es, k')" "clt \<noteq> 0"
  shows "int (replies_sent clt x es) + waiting_replies (wk_jobs k') (clt, x)
    = int (copies_taken clt x es) + waiting_replies (wk_jobs k) (clt, x)"
proof (cases y)
  case (Work i g a)
  obtain c p where j: "wk_jobs k ! i = (c, p)"
    by (cases "wk_jobs k ! i")
  with assms(1) Work obtain c' p' s' where st: "job_step g a c p (wk_server k) = Some (c', p', s')"
      "es = job_events a c p (wk_server k)" "wk_jobs k' = (wk_jobs k)[i := (c', p')]" "i < length (wk_jobs k)"
    by (auto split: if_splits Option.bind_splits)
  from job_replies [OF st(1) assms(2), of x] show ?thesis
    using st(2-4) j by (simp add: waiting_replies_update)
qed (use assms in \<open>auto split: if_splits Option.bind_splits\<close>)

lemma run_replies:
  "run_workers xs k = Some (es, k') \<Longrightarrow> clt \<noteq> 0 \<Longrightarrow>
    int (replies_sent clt x es) + waiting_replies (wk_jobs k') (clt, x)
      = int (copies_taken clt x es) + waiting_replies (wk_jobs k) (clt, x)"
proof (induction xs arbitrary: k es)
  case (Cons y xs)
  from Cons.prems obtain es1 k1 es2 where step: "act y k = Some (es1, k1)" "run_workers xs k1 = Some (es2, k')"
      "es = es1 @ es2"
    by (auto split: Option.bind_splits)
  from act_replies [OF step(1) Cons.prems(2), of x] Cons.IH [OF step(2) Cons.prems(2)] step(3) show ?case
    by simp
qed simp

text \<open>An action makes one event at most, so a run can be cut at an event.\<close>

lemma act_events: "act y k = Some (es, k') \<Longrightarrow> length es \<le> 1"
proof (cases y)
  case (Work i g a)
  assume "act y k = Some (es, k')"
  with Work show ?thesis
    by (cases "snd (wk_jobs k ! i)") (auto split: if_splits prod.splits Option.bind_splits option.splits)
qed (auto split: if_splits Option.bind_splits)

lemma run_split:
  "run_workers xs k = Some (pre @ e # post, k') \<Longrightarrow>
    \<exists>ys y zs k1 k2. xs = ys @ y # zs \<and> run_workers ys k = Some (pre, k1) \<and> act y k1 = Some ([e], k2) \<and>
      run_workers zs k2 = Some (post, k')"
proof (induction xs arbitrary: k pre)
  case (Cons x xs)
  then obtain es1 k1 es2 where step: "act x k = Some (es1, k1)" "run_workers xs k1 = Some (es2, k')"
      "pre @ e # post = es1 @ es2"
    by (auto split: Option.bind_splits)
  consider "es1 = []" | e1 where "es1 = [e1]"
    using act_events [OF step(1)] by (cases es1) auto
  then show ?case
  proof cases
    case 1
    with Cons.IH [of k1 pre] step obtain ys y zs k2 k3 where "xs = ys @ y # zs"
        "run_workers ys k1 = Some (pre, k2)" "act y k2 = Some ([e], k3)" "run_workers zs k3 = Some (post, k')"
      by auto
    with step(1) 1 show ?thesis
      by (intro exI [of _ "x # ys"] exI [of _ y] exI [of _ zs] exI [of _ k2] exI [of _ k3]) simp
  next
    case 2
    show ?thesis
    proof (cases pre)
      case Nil
      with step 2 show ?thesis
        by (intro exI [of _ "[]"] exI [of _ x] exI [of _ xs] exI [of _ k] exI [of _ k1]) simp
    next
      case (Cons e0 pre')
      with step 2 have "run_workers xs k1 = Some (pre' @ e # post, k')" "e1 = e0"
        by auto
      from Cons.IH [OF this(1)] obtain ys y zs k2 k3 where "xs = ys @ y # zs"
          "run_workers ys k1 = Some (pre', k2)" "act y k2 = Some ([e], k3)" "run_workers zs k3 = Some (post, k')"
        by auto
      with step(1) 2 Cons \<open>e1 = e0\<close> show ?thesis
        by (intro exI [of _ "x # ys"] exI [of _ y] exI [of _ zs] exI [of _ k2] exI [of _ k3]) simp
    qed
  qed
qed simp

section \<open>After the reply is saved\<close>

text \<open>No job is about to send a reply to the request from memory of its own.\<close>

fun own_reply :: "'s job_phase \<Rightarrow> (u32 \<times> u32) option" where
  "own_reply (Picks h (Own b)) = request_key h"
| "own_reply (Sends h (Own b)) = request_key h"
| "own_reply _ = None"

definition only_saved :: "'s job list \<Rightarrow> u32 \<times> u32 \<Rightarrow> bool" where
  "only_saved js q \<longleftrightarrow> list_all (\<lambda>j. own_reply (snd j) \<noteq> Some q) js"

text \<open>No message of the client acknowledges the request.\<close>

definition unacknowledged :: "u32 \<Rightarrow> u32 \<Rightarrow> server_event list \<Rightarrow> bool" where
  "unacknowledged clt x es \<longleftrightarrow> (\<forall>y r st. Window (Req clt y r, st) \<in> set es \<longrightarrow> r < x)"

lemma unacknowledged_append [simp]:
  "unacknowledged clt x (es @ es') \<longleftrightarrow> unacknowledged clt x es \<and> unacknowledged clt x es'"
  unfolding unacknowledged_def set_append Un_iff by blast

lemma check_in_range:
  assumes "checkduplicate_and_update c x r w = Some (st, out, w')" "r < x"
  shows "st \<noteq> FORGOTTEN"
  using assms by (cases rule: checkduplicate_cases) auto

lemma job_only_saved:
  assumes "job_step g a c p s = Some (c', p', s')" "unacknowledged clt x (job_events a c p s)"
    and "own_reply p \<noteq> Some (clt, x)"
  shows "own_reply p' \<noteq> Some (clt, x)"
proof (cases p)
  case (Start buf)
  with assms(1) show ?thesis
    by (auto simp: begin_job_def split: Option.bind_splits if_splits option.splits)
next
  case (Checks h f req)
  with assms(1) obtain st out w where w: "checkduplicate_and_update (rq_clt_nonce h) (rq_xid h) (rq_xid_rep h)
      (rs_replies s) = Some (st, out, w)" "decide g h f req st out = Some p'"
    by (auto split: Option.bind_splits)
  have "check_state (rq_clt_nonce h) (rq_xid h) (rq_xid_rep h) (rs_replies s) = Some (st, w)"
    using w(1) by (simp add: check_state_def)
  then have "rq_clt_nonce h = clt \<Longrightarrow> rq_xid h = x \<Longrightarrow> st \<noteq> FORGOTTEN"
    using check_in_range [OF w(1)] assms(2) Checks by (auto simp: unacknowledged_def)
  with w(2) show ?thesis
    by (auto simp: decide_def split: rpcstate_t.splits option.splits Option.bind_splits)
next
  case (Picks h m)
  with assms(1,3) show ?thesis
    by (cases m) (auto split: Option.bind_splits)
next
  case (Runs h f req)
  with assms(1) show ?thesis
    by (auto simp: request_key_def word_gt_0 split: Option.bind_splits if_splits)
qed (use assms in \<open>auto split: Option.bind_splits\<close>)

lemma act_only_saved:
  assumes "act y k = Some (es, k')" "unacknowledged clt x es" "only_saved (wk_jobs k) (clt, x)"
  shows "only_saved (wk_jobs k') (clt, x)"
proof (cases y)
  case (Work i g a)
  obtain c p where j: "wk_jobs k ! i = (c, p)"
    by (cases "wk_jobs k ! i")
  with assms(1) Work obtain c' p' s' where st: "job_step g a c p (wk_server k) = Some (c', p', s')"
      "es = job_events a c p (wk_server k)" "wk_jobs k' = (wk_jobs k)[i := (c', p')]" "i < length (wk_jobs k)"
    by (auto split: if_splits Option.bind_splits)
  have "own_reply p \<noteq> Some (clt, x)"
    using assms(3) st(4) j by (auto simp: only_saved_def list_all_length)
  then have "own_reply p' \<noteq> Some (clt, x)"
    using job_only_saved [OF st(1)] assms(2) st(2) by blast
  then show ?thesis
    using assms(3) set_update_subset_insert [of "wk_jobs k" i "(c', p')"] unfolding st(3)
    by (auto simp: only_saved_def list_all_iff)
qed (use assms in \<open>auto simp: only_saved_def split: if_splits Option.bind_splits\<close>)

text \<open>The reply \<open>b\<close> of a request is saved at \<open>a\<close>, and stays there.\<close>

definition settled :: "u32 \<Rightarrow> u32 \<Rightarrow> addr \<Rightarrow> u8 list \<Rightarrow> 's workers \<Rightarrow> bool" where
  "settled clt x a b k \<longleftrightarrow> workers_ok k \<and> answered (rs_replies (wk_server k)) clt x a b \<and>
     only_saved (wk_jobs k) (clt, x)"

lemma answered_same: "answered w c x a b \<Longrightarrow> answered w c x a' b' \<Longrightarrow> a' = a \<and> b' = b"
  by (auto simp: answered_def split: option.splits)

lemma read_saved_answer: "answered w c x a b \<Longrightarrow> read_msg (Saved a (int (length b))) (rheap w) = Some b"
  by (simp add: answered_def read_msg_def)

text \<open>What the events of a run may be from then on.\<close>

fun settled_event :: "u32 \<Rightarrow> u32 \<Rightarrow> u8 list \<Rightarrow> server_event \<Rightarrow> bool" where
  "settled_event clt x b (Ran d y) \<longleftrightarrow> (d, y) \<noteq> (clt, x)"
| "settled_event clt x b (Replied c d y b') \<longleftrightarrow> ((d, y) = (clt, x) \<longrightarrow> b' = b)"
| "settled_event clt x b (Window (Req d y r, st)) \<longleftrightarrow> ((d, y) = (clt, x) \<longrightarrow> st = Some DONE)"
| "settled_event clt x b (Window (Rep d y ab, st)) \<longleftrightarrow> (d, y) \<noteq> (clt, x)"
| "settled_event clt x b (Refused c) \<longleftrightarrow> True"

lemma settled_job:
  assumes inv: "rw_inv (rs_replies s)" and ok: "job_ok s c p" and own: "own_reply p \<noteq> Some (clt, x)"
    and ans: "answered (rs_replies s) clt x a b" and clt: "clt \<noteq> 0"
    and acks: "unacknowledged clt x (job_events d c p s)"
  shows "list_all (settled_event clt x b) (job_events d c p s)" "undisturbed p (clt, x)"
proof -
  have run: "running p \<noteq> Some (clt, x)"
    using pending_unanswered [of "rs_replies s" clt x a b] ans running_pending [OF ok] by blast
  show "list_all (settled_event clt x b) (job_events d c p s)"
  proof (cases p)
    case (Checks h f req)
    have "st = DONE" if "rq_clt_nonce h = clt" "rq_xid h = x"
      "check_state (rq_clt_nonce h) (rq_xid h) (rq_xid_rep h) (rs_replies s) = Some (st, w)" for st w
    proof -
      have "rq_xid_rep h < x"
        using acks Checks that by (auto simp: unacknowledged_def)
      from answered_done [OF inv ans this] that show ?thesis
        by (auto simp: check_state_def)
    qed
    with Checks show ?thesis
      by (auto split: option.splits)
  next
    case (Sends h m)
    have "read_msg m (rheap (rs_replies s)) = Some b" if key: "rq_clt_nonce h = clt" "rq_xid h = x"
    proof -
      obtain a' b' where m: "m = Saved a' (int (length b'))" "answered (rs_replies s) clt x a' b'"
        using ok own clt Sends key by (cases m) auto
      with answered_same [OF ans m(2)] show ?thesis
        by (simp add: read_saved_answer)
    qed
    with Sends show ?thesis
      by (auto split: option.splits)
  qed (use run clt in auto)
  show "undisturbed p (clt, x)"
  proof (cases p)
    case (Checks h f req)
    show ?thesis
    proof (cases "check_state (rq_clt_nonce h) (rq_xid h) (rq_xid_rep h) (rs_replies s)")
      case None
      obtain st out w where "checkduplicate_and_update (rq_clt_nonce h) (rq_xid h) (rq_xid_rep h) (rs_replies s)
          = Some (st, out, w)"
        by (rule checkduplicate_safe [OF inv])
      with None show ?thesis
        by (simp add: check_state_def)
    next
      case (Some r)
      with acks Checks show ?thesis
        by (cases r) (auto simp: unacknowledged_def)
    qed
  qed (use run clt in auto)
qed

lemma settled_act:
  assumes st: "settled clt x a b k" and clt: "clt \<noteq> 0" and ord: "orderly y k"
    and act: "act y k = Some (es, k')" and acks: "unacknowledged clt x es"
  shows "settled clt x a b k'" "list_all (settled_event clt x b) es"
proof -
  have ok: "workers_ok k" and ans: "answered (rs_replies (wk_server k)) clt x a b"
    and only: "only_saved (wk_jobs k) (clt, x)"
    using st by (simp_all add: settled_def)
  have ok': "workers_ok k'"
    using act_ok [OF ok ord] act by auto
  have only': "only_saved (wk_jobs k') (clt, x)"
    by (rule act_only_saved [OF act acks only])
  have "answered (rs_replies (wk_server k')) clt x a b \<and> list_all (settled_event clt x b) es"
  proof (cases y)
    case (Work i g d)
    obtain c p where j: "wk_jobs k ! i = (c, p)"
      by (cases "wk_jobs k ! i")
    have i: "i < length (wk_jobs k)" and go: "can_go_on g p (wk_server k)"
      and new: "rheap (rs_replies (wk_server k)) d = None"
      using ord j Work by simp_all
    obtain c' p' where step: "job_step g d c p (wk_server k) = Some (c', p', wk_server k')"
      "es = job_events d c p (wk_server k)"
      using act j Work i by (auto split: Option.bind_splits)
    have "p \<noteq> Finished"
      using go by (auto simp: can_go_on_def)
    have own: "own_reply p \<noteq> Some (clt, x)"
      using only i j by (auto simp: only_saved_def list_all_length)
    note job = settled_job [OF workers_okD(4) [OF ok] workers_okD(7) [OF ok i j] own ans clt, of d]
    have "step_gives (held k) c p (wk_server k) (job_step g d c p (wk_server k))"
      by (rule job_step_ok [OF workers_okD(2) [OF ok] job_holds [OF workers_okD(1) [OF ok] i j \<open>p \<noteq> Finished\<close>]
            workers_okD(7) [OF ok i j] go new])
    then have "keeps (undisturbed p) (wk_server k) (wk_server k')"
      unfolding step(1) step_gives_def by blast
    with keepsD(6) [OF this job(2) ans] job(1) acks step(2) show ?thesis
      by simp
  next
    case (Arrive c buf accepted)
    with act ans show ?thesis
      by (auto simp: rpcs_got_pdu_def on_net_def split: if_splits Option.bind_splits)
  qed (use act ans in \<open>auto simp: on_net_def split: if_splits Option.bind_splits\<close>)
  with ok' only' show "settled clt x a b k'" "list_all (settled_event clt x b) es"
    by (simp_all add: settled_def)
qed

lemma settled_run:
  "settled clt x a b k \<Longrightarrow> clt \<noteq> 0 \<Longrightarrow> orderly_run ys k \<Longrightarrow> run_workers ys k = Some (es, k') \<Longrightarrow>
    unacknowledged clt x es \<Longrightarrow> settled clt x a b k' \<and> list_all (settled_event clt x b) es"
proof (induction ys arbitrary: k es)
  case (Cons y ys)
  from Cons.prems(4) obtain es1 k1 es2 where step: "act y k = Some (es1, k1)" "run_workers ys k1 = Some (es2, k')"
      "es = es1 @ es2"
    by (auto split: Option.bind_splits)
  have ord: "orderly y k" "orderly_run ys k1" and acks: "unacknowledged clt x es1" "unacknowledged clt x es2"
    using Cons.prems(3,5) step by simp_all
  note first = settled_act [OF Cons.prems(1,2) ord(1) step(1) acks(1)]
  from Cons.IH [OF first(1) Cons.prems(2) ord(2) step(2) acks(2)] first(2) step(3) show ?case
    by simp
qed simp

lemma run_only_saved:
  "run_workers ys k = Some (es, k') \<Longrightarrow> unacknowledged clt x es \<Longrightarrow> only_saved (wk_jobs k) (clt, x) \<Longrightarrow>
    only_saved (wk_jobs k') (clt, x)"
proof (induction ys arbitrary: k es)
  case (Cons y ys)
  from Cons.prems(1) obtain es1 k1 es2 where step: "act y k = Some (es1, k1)" "run_workers ys k1 = Some (es2, k')"
      "es = es1 @ es2"
    by (auto split: Option.bind_splits)
  with act_only_saved [OF step(1)] Cons.IH [OF step(2)] Cons.prems(2,3) show ?case
    by simp
qed simp

lemma orderly_split:
  "orderly_run (xs @ ys) k \<Longrightarrow> run_workers xs k = Some (es, k1) \<Longrightarrow> orderly_run xs k \<and> orderly_run ys k1"
  by (induction xs arbitrary: k es) (auto split: Option.bind_splits)

text \<open>The action that saves the reply settles the request, and its job goes on to send it.\<close>

lemma save_settles:
  assumes act: "act y k = Some ([Window (Rep clt x (a, b), None)], k')" and ord: "orderly y k"
    and ok: "workers_ok k" and only: "only_saved (wk_jobs k) (clt, x)" and clt: "clt \<noteq> 0"
  shows "settled clt x a b k'" "0 < waiting_replies (wk_jobs k') (clt, x)"
proof -
  have ok': "workers_ok k'"
    using act_ok [OF ok ord] act by auto
  have only': "only_saved (wk_jobs k') (clt, x)"
    by (rule act_only_saved [OF act _ only]) (simp add: unacknowledged_def)
  obtain i g d where y: "y = Work i g d"
    using act by (cases y) (auto split: if_splits Option.bind_splits)
  obtain c p where j: "wk_jobs k ! i = (c, p)"
    by (cases "wk_jobs k ! i")
  have i: "i < length (wk_jobs k)"
    using ord y by simp
  obtain c' p' where step: "job_step g d c p (wk_server k) = Some (c', p', wk_server k')"
      "job_events d c p (wk_server k) = [Window (Rep clt x (a, b), None)]" "wk_jobs k' = (wk_jobs k)[i := (c', p')]"
    using act j y i by (auto split: Option.bind_splits)
  from step(2) obtain h where p: "p = Saves h b" "rq_clt_nonce h = clt" "rq_xid h = x" "d = a"
    by (cases p) (auto split: option.splits)
  have "pending (rs_replies (wk_server k)) clt x"
    using workers_okD(7) [OF ok i j] p by simp
  moreover obtain w where w: "save_reply clt x (a, b) (rs_replies (wk_server k)) = Some w"
      "wk_server k' = (wk_server k)\<lparr>rs_replies := w\<rparr>" and p': "p' = Picks h (Saved a (int (length b)))"
    using step(1) p by (auto split: Option.bind_splits)
  then have "save_reply clt x (a, b) (rs_replies (wk_server k)) = Some (rs_replies (wk_server k'))"
    by simp
  ultimately have "answered (rs_replies (wk_server k')) clt x a b"
    using answered_new pending_known by blast
  with ok' only' show "settled clt x a b k'"
    by (simp add: settled_def)
  have "(c', p') \<in> set (wk_jobs k')"
    unfolding step(3) by (rule set_update_memI [OF i])
  then show "0 < waiting_replies (wk_jobs k') (clt, x)"
    by (rule waiting_replies_member) (use p p' clt in simp)
qed

lemma settled_copies:
  "list_all (settled_event clt x b) es \<Longrightarrow> Window (Req clt x r, st) \<in> set es \<Longrightarrow> st = Some DONE"
  by (auto simp: list_all_iff)

section \<open>Orderly runs of a server whose handlers return\<close>

text \<open>For such a server the order of the actions alone makes a run orderly.\<close>

fun timely :: "action \<Rightarrow> 's workers \<Rightarrow> bool" where
  "timely (Work i g a) k \<longleftrightarrow> i < length (wk_jobs k) \<and> steps_left (snd (wk_jobs k ! i)) \<noteq> 0 \<and>
     rheap (rs_replies (wk_server k)) a = None \<and>
     acks_nothing_under_way (snd (wk_jobs k ! i)) (wk_jobs k)"
| "timely y k \<longleftrightarrow> orderly y k"

fun timely_run :: "action list \<Rightarrow> 's workers \<Rightarrow> bool" where
  "timely_run [] k \<longleftrightarrow> True"
| "timely_run (x # xs) k \<longleftrightarrow> timely x k \<and>
     (case act x k of None \<Rightarrow> True | Some (es, k') \<Rightarrow> timely_run xs k')"

lemma timely_orderly:
  assumes "timely y k" "workers_ok k" "\<forall>f\<in>ran (rs_procs (wk_server k)). handler_ok f"
  shows "orderly y k"
proof (cases y)
  case (Work i g a)
  obtain c p where j: "wk_jobs k ! i = (c, p)"
    by (cases "wk_jobs k ! i")
  have "i < length (wk_jobs k)" "p \<noteq> Finished"
    using assms(1) Work j by auto
  with workers_okD(7) [OF assms(2) _ j] assms(3) have "can_go_on g p (wk_server k)"
    by (cases p) (auto simp: can_go_on_def handler_ok_def ran_def)
  with assms(1) Work j show ?thesis
    by simp
qed (use assms(1) in simp_all)

lemma timely_run_orderly:
  "timely_run xs k \<Longrightarrow> workers_ok k \<Longrightarrow> \<forall>f\<in>ran (rs_procs (wk_server k)). handler_ok f \<Longrightarrow> orderly_run xs k"
proof (induction xs arbitrary: k)
  case (Cons x xs)
  have ord: "orderly x k"
    by (rule timely_orderly) (use Cons.prems in simp_all)
  obtain es k1 where k1: "act x k = Some (es, k1)" "workers_ok k1"
    using act_ok [OF Cons.prems(2) ord] by blast
  with ord Cons.IH [OF _ k1(2)] Cons.prems(1,3) act_keeps(1) [OF k1(1)] show ?case
    by simp
qed simp

section \<open>Properties\<close>

text \<open>
  Two copies of a request for \<open>bind\<close>. The second arrives while the first runs; its thread gets to the
  duplicate check when the reply is saved, and sends it before the first thread does.
\<close>

definition copies_demo :: "action list" where
  "copies_demo =
     [Arrive 3 (bind_request 7 1 0) True] @ works 5 0 10 @ [Arrive 3 (bind_request 7 1 0) True] @
     works 3 1 11 @ works 1 0 10 @ works 3 1 11 @ works 3 0 11"

definition copies_reply :: "u8 list" where
  "copies_reply = replicate 4 0 @ enc_reply_header \<lparr>rp_xid = 1, rp_ret = 0\<rparr> @ replicate 12 0 @ be32 42"

definition copies_before :: "server_event list" where
  "copies_before = [Window (Req 7 1 0, Some NEW), Ran 7 1]"

definition copies_after :: "server_event list" where
  "copies_after = [Window (Req 7 1 0, Some DONE), Replied 3 7 1 copies_reply, Replied 3 7 1 copies_reply]"

lemma copies_demo_orderly: "orderly_run copies_demo (idle_workers demo_jobs (demo_server False))"
proof (rule timely_run_orderly [OF _ idle_ok [OF demo_server_ok]])
  show "timely_run copies_demo (idle_workers demo_jobs (demo_server False))"
    by code_simp
qed (auto simp: idle_workers_def demo_server_eq ran_def rpcbind_ok)

lemma copies_demo_events:
  "map_option (\<lambda>(es, k). (es, list_all (\<lambda>j. steps_left (snd j) = 0) (wk_jobs k)))
      (run_workers copies_demo (idle_workers demo_jobs (demo_server False))) =
     Some (copies_before @ Window (Rep 7 1 (10, copies_reply), None) # copies_after, True)"
  by code_simp

text \<open>
  C5. What the copies of a request get, in every orderly run of the threads in which no message of
  its client acknowledges it: once the reply of the first copy is in the window, no copy runs the
  handler again, every copy that reaches the duplicate check is found \<open>DONE\<close>, and every reply that is
  sent to the request has exactly the saved bytes. When all jobs have finished there was one such
  reply for each of these copies, and one for the first. (A copy that is checked before the reply
  is saved is dropped. The client has at-most-once semantics.)
\<close>

theorem copies_get_the_reply:
  assumes "server_ok ext s" "orderly_run xs (idle_workers ext s)" "clt \<noteq> 0"
    and "run_workers xs (idle_workers ext s) = Some (pre @ Window (Rep clt x (a, b), None) # post, k)"
    and "\<forall>y r st. Window (Req clt y r, st) \<in> set (pre @ post) \<longrightarrow> r < x"
  shows "Ran clt x \<notin> set post \<and>
    (\<forall>r st. Window (Req clt x r, st) \<in> set post \<longrightarrow> st = Some DONE) \<and>
    (\<forall>c b'. Replied c clt x b' \<in> set post \<longrightarrow> b' = b) \<and>
    (list_all (\<lambda>j. snd j = Finished) (wk_jobs k) \<longrightarrow> replies_sent clt x post > copies_taken clt x post)"
proof -
  obtain ys y zs k1 k2 where cut: "xs = ys @ y # zs" "run_workers ys (idle_workers ext s) = Some (pre, k1)"
      "act y k1 = Some ([Window (Rep clt x (a, b), None)], k2)" "run_workers zs k2 = Some (post, k)"
    using run_split [OF assms(4)] by blast
  have acks: "unacknowledged clt x pre" "unacknowledged clt x post"
    using assms(5) unfolding unacknowledged_def set_append by blast+
  have ord: "orderly_run ys (idle_workers ext s)" "orderly y k1" "orderly_run zs k2"
    using orderly_split [OF _ cut(2), of "y # zs"] assms(2) cut(1,3) by auto
  have ok: "workers_ok k1"
    using workers_run_ok [OF idle_ok [OF assms(1)] ord(1)] cut(2) by auto
  have only: "only_saved (wk_jobs k1) (clt, x)"
    by (rule run_only_saved [OF cut(2) acks(1)]) (simp add: only_saved_def idle_workers_def)
  note saved = save_settles [OF cut(3) ord(2) ok only assms(3)]
  have ev: "list_all (settled_event clt x b) post"
    using settled_run [OF saved(1) assms(3) ord(3) cut(4) acks(2)] by blast
  have "replies_sent clt x post > copies_taken clt x post" if "list_all (\<lambda>j. snd j = Finished) (wk_jobs k)"
    using run_replies [OF cut(4) assms(3), of x] waiting_replies_finished [OF that, of "(clt, x)"] saved(2) by simp
  with ev show ?thesis
    by (auto simp: list_all_iff)
qed

theorem copies_get_the_reply_witness:
  "Ran 7 1 \<notin> set copies_after \<and> replies_sent 7 1 copies_after > copies_taken 7 1 copies_after \<and>
    replies_sent 7 1 copies_after = 2 \<and>
    list_all (\<lambda>e. case e of Replied c d x b \<Rightarrow> b = copies_reply | Window (Req d x r, st) \<Rightarrow> st = Some DONE | _ \<Rightarrow> True)
      copies_after"
proof -
  obtain k where k: "run_workers copies_demo (idle_workers demo_jobs (demo_server False)) =
      Some (copies_before @ Window (Rep 7 1 (10, copies_reply), None) # copies_after, k)"
    and fin: "list_all (\<lambda>j. snd j = Finished) (wk_jobs k)"
    using copies_demo_events by (auto simp: list_all_iff)
  have acks: "\<forall>y r st. Window (Req 7 y r, st) \<in> set (copies_before @ copies_after) \<longrightarrow> r < (1 :: u32)"
    by (auto simp: copies_before_def copies_after_def)
  have "(7 :: u32) \<noteq> 0"
    by simp
  note copies = copies_get_the_reply [OF demo_server_ok copies_demo_orderly this k acks]
  have "Window (Req 7 1 0, Some DONE) \<in> set copies_after"
    by (simp add: copies_after_def)
  with copies fin show ?thesis
    by (simp add: copies_after_def)
qed

end
