(* ===== verification/Job_Queue.thy ===== *)
theory Job_Queue
  imports Prelude
begin

text \<open>
  The template \<open>fifo\<close> of \<open>rpc/fifo.h\<close>: the operations as far as they run without waiting, the
  contract of a bounded queue, which they keep, and the threads that use the queue as a monitor with
  its two condition variables.
\<close>

section \<open>Operations\<close>

text \<open>\<open>cap\<close> is \<open>max_\<close>, the capacity, and 0 stands for none.\<close>

record 'a fifo =
  elems :: "'a list"
  cap :: nat

definition new_fifo :: "nat \<Rightarrow> 'a fifo" where
  "new_fifo limit = \<lparr>elems = [], cap = limit\<rparr>"

text \<open>\<open>size\<close> returns a \<open>bool\<close>.\<close>

definition fifo_size :: "'a fifo \<Rightarrow> bool" where
  "fifo_size f \<longleftrightarrow> length (elems f) \<noteq> 0"

text \<open>
  A turn of the loop in \<open>enq\<close>: \<open>None\<close> is a full queue, where the thread waits or, when it must not
  block, returns false. An element that goes in signals \<open>non_empty_c_\<close>.
\<close>

definition enq :: "'a \<Rightarrow> 'a fifo \<Rightarrow> 'a fifo option" where
  "enq e f =
     (if cap f = 0 \<or> length (elems f) < cap f then Some (f\<lparr>elems := elems f @ [e]\<rparr>) else None)"

text \<open>
  A turn of the loop in \<open>deq\<close>: \<open>None\<close> is an empty queue, where the thread waits. The flag says
  whether \<open>has_space_c_\<close> is signalled.
\<close>

definition deq :: "'a fifo \<Rightarrow> ('a \<times> bool \<times> 'a fifo) option" where
  "deq f =
     (case elems f of
        [] \<Rightarrow> None
      | e # q \<Rightarrow> Some (e, cap f \<noteq> 0 \<and> length q < cap f, f\<lparr>elems := q\<rparr>))"

section \<open>The contract of a bounded queue\<close>

datatype 'a queue_op = Put 'a | Take

locale bounded_queue =
  fixes put :: "'a \<Rightarrow> 's \<Rightarrow> 's option"
    and get :: "'s \<Rightarrow> ('a \<times> 's) option"
    and items :: "'s \<Rightarrow> 'a list"
    and room :: "'s \<Rightarrow> bool"
  assumes put_items: "put e s = Some s' \<Longrightarrow> items s' = items s @ [e]"
    and put_room: "put e s = None \<longleftrightarrow> \<not> room s"
    and get_items: "get s = Some (e, s') \<Longrightarrow> items s = e # items s'"
    and get_empty: "get s = None \<longleftrightarrow> items s = []"
begin

text \<open>A sequence of calls that do not wait, and what went in and came out.\<close>

fun calls :: "'a queue_op list \<Rightarrow> 's \<Rightarrow> 'a list \<times> 'a list \<times> 's" where
  "calls [] s = ([], [], s)"
| "calls (Put e # os) s =
     (case put e s of
        None \<Rightarrow> calls os s
      | Some s' \<Rightarrow> (case calls os s' of (i, out, t) \<Rightarrow> (e # i, out, t)))"
| "calls (Take # os) s =
     (case get s of
        None \<Rightarrow> calls os s
      | Some (e, s') \<Rightarrow> (case calls os s' of (i, out, t) \<Rightarrow> (i, e # out, t)))"

lemma calls_fifo: "calls os s = (i, out, t) \<Longrightarrow> items s @ i = out @ items t"
proof (induction os s arbitrary: i out t rule: calls.induct)
  case (2 e os s)
  show ?case
  proof (cases "put e s")
    case (Some s')
    then obtain i' where i': "calls os s' = (i', out, t)" "i = e # i'"
      using 2(3) by (auto split: prod.splits)
    show ?thesis
      using 2(2) [OF Some i'(1)] put_items [OF Some] i'(2) by simp
  qed (use 2 in simp)
next
  case (3 os s)
  show ?case
  proof (cases "get s")
    case (Some x)
    then obtain e s' out' where x: "get s = Some (e, s')" "calls os s' = (i, out', t)" "out = e # out'"
      using 3(3) by (cases x) (auto split: prod.splits)
    have "items s' @ i = out' @ items t"
      using 3(2) x(1,2) by simp
    then show ?thesis
      using get_items [OF x(1)] x(3) by simp
  qed (use 3 in simp)
qed simp

end

definition get_fifo :: "'a fifo \<Rightarrow> ('a \<times> 'a fifo) option" where
  "get_fifo f = map_option (\<lambda>(e, sig, f). (e, f)) (deq f)"

definition has_room :: "'a fifo \<Rightarrow> bool" where
  "has_room f \<longleftrightarrow> cap f = 0 \<or> length (elems f) < cap f"

interpretation fq: bounded_queue enq get_fifo elems has_room
  by unfold_locales (auto simp: enq_def get_fifo_def deq_def has_room_def split: if_splits list.splits)

section \<open>Threads\<close>

datatype 'a user =
    Off
  | EnqWait 'a  \<comment> \<open>in the wait of \<open>enq\<close>\<close>
  | EnqWoken 'a  \<comment> \<open>out of it, before the test\<close>
  | DeqWait
  | DeqWoken

record 'a queue_sys =
  the_fifo :: "'a fifo"
  users :: "nat \<Rightarrow> 'a user"
  went_in :: "'a list"
  came_out :: "'a list"

definition init_queue :: "nat \<Rightarrow> 'a queue_sys" where
  "init_queue limit = \<lparr>the_fifo = new_fifo limit, users = (\<lambda>_. Off), went_in = [], came_out = []\<rparr>"

fun deq_waits :: "'a user \<Rightarrow> bool" where
  "deq_waits DeqWait = True"
| "deq_waits u = False"

fun enq_waits :: "'a user \<Rightarrow> bool" where
  "enq_waits (EnqWait e) = True"
| "enq_waits u = False"

fun deq_woken :: "'a user \<Rightarrow> bool" where
  "deq_woken DeqWoken = True"
| "deq_woken u = False"

fun enq_woken :: "'a user \<Rightarrow> bool" where
  "enq_woken (EnqWoken e) = True"
| "enq_woken u = False"

fun wake_user :: "'a user \<Rightarrow> 'a user" where
  "wake_user DeqWait = DeqWoken"
| "wake_user (EnqWait e) = EnqWoken e"
| "wake_user u = u"

text \<open>\<open>pthread_cond_signal\<close>: at least one of the threads that wait is woken, if there are any.\<close>

definition signalled :: "('a user \<Rightarrow> bool) \<Rightarrow> (nat \<Rightarrow> 'a user) \<Rightarrow> (nat \<Rightarrow> 'a user) \<Rightarrow> bool" where
  "signalled waits us us' \<longleftrightarrow>
     (\<exists>W \<subseteq> {t. waits (us t)}. ({t. waits (us t)} \<noteq> {} \<longrightarrow> W \<noteq> {}) \<and>
        us' = (\<lambda>t. if t \<in> W then wake_user (us t) else us t))"

text \<open>
  A thread calls \<open>enq\<close> or \<open>deq\<close>, or leaves its wait and makes the test again; \<open>before\<close> is where it
  comes from.
\<close>

inductive queue_step :: "'a queue_sys \<Rightarrow> 'a queue_sys \<Rightarrow> bool" where
  step_enq:
  "users s t = Off \<or> users s t = EnqWoken e \<Longrightarrow> enq e (the_fifo s) = Some f \<Longrightarrow>
   signalled deq_waits ((users s)(t := Off)) us \<Longrightarrow>
   queue_step s (s\<lparr>the_fifo := f, users := us, went_in := went_in s @ [e]\<rparr>)"
| step_enq_wait:
  "users s t = Off \<or> users s t = EnqWoken e \<Longrightarrow> enq e (the_fifo s) = None \<Longrightarrow>
   queue_step s (s\<lparr>users := (users s)(t := EnqWait e)\<rparr>)"
| step_deq:
  "users s t = Off \<or> users s t = DeqWoken \<Longrightarrow> deq (the_fifo s) = Some (e, sig, f) \<Longrightarrow>
   (if sig then signalled enq_waits ((users s)(t := Off)) us else us = (users s)(t := Off)) \<Longrightarrow>
   queue_step s (s\<lparr>the_fifo := f, users := us, came_out := came_out s @ [e]\<rparr>)"
| step_deq_wait:
  "users s t = Off \<or> users s t = DeqWoken \<Longrightarrow> deq (the_fifo s) = None \<Longrightarrow>
   queue_step s (s\<lparr>users := (users s)(t := DeqWait)\<rparr>)"
| step_spurious:
  "queue_step s (s\<lparr>users := (users s)(t := wake_user (users s t))\<rparr>)"

inductive queue_reach :: "nat \<Rightarrow> 'a queue_sys \<Rightarrow> bool" for limit where
  start: "queue_reach limit (init_queue limit)"
| step: "queue_reach limit s \<Longrightarrow> queue_step s s' \<Longrightarrow> queue_reach limit s'"

section \<open>Invariant\<close>

definition how_many :: "('a user \<Rightarrow> bool) \<Rightarrow> (nat \<Rightarrow> 'a user) \<Rightarrow> nat" where
  "how_many P us = card {t. P (us t)}"

text \<open>
  While a thread waits for an element, there are at least as many woken ones as elements; and
  while one waits for room, there are at least as many woken ones as free places.
\<close>

definition queue_inv :: "nat \<Rightarrow> 'a queue_sys \<Rightarrow> bool" where
  "queue_inv limit s \<longleftrightarrow> cap (the_fifo s) = limit \<and> went_in s = came_out s @ elems (the_fifo s) \<and>
     (limit \<noteq> 0 \<longrightarrow> length (elems (the_fifo s)) \<le> limit) \<and> finite {t. users s t \<noteq> Off} \<and>
     ((\<exists>t. deq_waits (users s t)) \<longrightarrow> length (elems (the_fifo s)) \<le> how_many deq_woken (users s)) \<and>
     ((\<exists>t. enq_waits (users s t)) \<longrightarrow> limit \<noteq> 0 \<and> limit - length (elems (the_fifo s)) \<le> how_many enq_woken (users s))"

lemma enq_SomeD: "enq e f = Some f' \<Longrightarrow> f' = f\<lparr>elems := elems f @ [e]\<rparr> \<and> (cap f = 0 \<or> length (elems f) < cap f)"
  by (auto simp: enq_def split: if_splits)

lemma enq_NoneD: "enq e f = None \<Longrightarrow> cap f \<noteq> 0 \<and> cap f \<le> length (elems f)"
  by (auto simp: enq_def split: if_splits)

lemma deq_SomeD:
  "deq f = Some (e, sig, f') \<Longrightarrow>
   \<exists>q. elems f = e # q \<and> f' = f\<lparr>elems := q\<rparr> \<and> (sig \<longleftrightarrow> cap f \<noteq> 0 \<and> length q < cap f)"
  by (auto simp: deq_def split: list.splits)

lemma deq_NoneD: "deq f = None \<Longrightarrow> elems f = []"
  by (auto simp: deq_def split: list.splits)

lemma user_kinds [simp]:
  "deq_waits u \<longleftrightarrow> u = DeqWait" "deq_woken u \<longleftrightarrow> u = DeqWoken"
  by (cases u; simp)+

lemma enq_kinds: "enq_waits u \<longleftrightarrow> (\<exists>e. u = EnqWait e)" "enq_woken u \<longleftrightarrow> (\<exists>e. u = EnqWoken e)"
  by (cases u; simp)+

lemma finite_kind: "finite {t. us t \<noteq> Off} \<Longrightarrow> \<not> P Off \<Longrightarrow> finite {t. P (us t)}"
  by (erule rev_finite_subset) auto

text \<open>Counting after one thread has moved, and after a signal.\<close>

lemma how_many_upd:
  assumes "finite {t. P (us t)}"
  shows "how_many P (us(t := u)) + (if P (us t) then 1 else 0) = how_many P us + (if P u then 1 else 0)"
proof -
  let ?A = "{x. P (us x)}"
  have "{x. P ((us(t := u)) x)} = (if P u then insert t ?A else ?A - {t})"
    by auto
  then show ?thesis
    using assms card_Suc_Diff1 [of ?A t] by (auto simp: how_many_def insert_absorb)
qed

lemma signalled_counts:
  assumes "signalled w us us'" "finite {t. us t \<noteq> Off}"
    and "w = deq_waits \<and> k = deq_woken \<or> w = enq_waits \<and> k = enq_woken"
  shows "finite {t. us' t \<noteq> Off}" "how_many k us \<le> how_many k us'"
    "(\<exists>t. w (us' t)) \<Longrightarrow> how_many k us < how_many k us'"
    "(\<exists>t. w (us' t)) \<Longrightarrow> (\<exists>t. w (us t))"
proof -
  obtain W where W: "W \<subseteq> {t. w (us t)}" "{t. w (us t)} \<noteq> {} \<Longrightarrow> W \<noteq> {}"
    and us': "us' = (\<lambda>t. if t \<in> W then wake_user (us t) else us t)"
    using assms(1) by (auto simp: signalled_def)
  have off: "wake_user u = Off \<longleftrightarrow> u = Off" "w u \<Longrightarrow> k (wake_user u) \<and> \<not> k u" "\<not> w (wake_user u)" for u :: "'a user"
    using assms(3) by (cases u; auto)+
  then show fin': "finite {t. us' t \<noteq> Off}"
    using assms(2) by (simp add: us')
  have "\<not> k Off"
    using assms(3) by auto
  then have fin: "finite {t. k (us t)}" "finite {t. k (us' t)}"
    using finite_kind [of us k] finite_kind [of us' k] assms(2) fin' by auto
  have sub: "{t. k (us t)} \<subseteq> {t. k (us' t)}" "W \<subseteq> {t. k (us' t)} - {t. k (us t)}"
    using W(1) off(2) by (auto simp: us')
  then show "how_many k us \<le> how_many k us'"
    using fin(2) by (simp add: how_many_def card_mono)
  show ex: "\<exists>t. w (us t)" if "\<exists>t. w (us' t)"
    using that off(3) by (auto simp: us' split: if_splits)
  show "how_many k us < how_many k us'" if "\<exists>t. w (us' t)"
  proof -
    have "W \<noteq> {}"
      using ex [OF that] W(2) by blast
    then have "{t. k (us t)} \<subset> {t. k (us' t)}"
      using sub by blast
    then show ?thesis
      using fin(2) by (simp add: how_many_def psubset_card_mono)
  qed
qed

text \<open>A signal to one side does not move the other.\<close>

lemma signalled_other:
  assumes "signalled w us us'"
  shows "w = deq_waits \<Longrightarrow> (\<exists>t. enq_waits (us' t)) = (\<exists>t. enq_waits (us t)) \<and> how_many enq_woken us' = how_many enq_woken us"
    and "w = enq_waits \<Longrightarrow> (\<exists>t. deq_waits (us' t)) = (\<exists>t. deq_waits (us t)) \<and> how_many deq_woken us' = how_many deq_woken us"
proof -
  obtain W where W: "W \<subseteq> {t. w (us t)}" and us': "us' = (\<lambda>t. if t \<in> W then wake_user (us t) else us t)"
    using assms by (auto simp: signalled_def)
  have "enq_waits (us' t) = enq_waits (us t) \<and> enq_woken (us' t) = enq_woken (us t)" if "w = deq_waits" for t
    using that W by (auto simp: us')
  then show "w = deq_waits \<Longrightarrow> (\<exists>t. enq_waits (us' t)) = (\<exists>t. enq_waits (us t)) \<and> how_many enq_woken us' = how_many enq_woken us"
    by (simp add: how_many_def)
  have "(us' t = DeqWait) = (us t = DeqWait) \<and> (us' t = DeqWoken) = (us t = DeqWoken)" if "w = enq_waits" for t
    using that W by (auto simp: us' enq_kinds)
  then show "w = enq_waits \<Longrightarrow> (\<exists>t. deq_waits (us' t)) = (\<exists>t. deq_waits (us t)) \<and> how_many deq_woken us' = how_many deq_woken us"
    by (simp add: how_many_def)
qed

lemma queue_invI:
  assumes "cap (the_fifo s) = limit" "went_in s = came_out s @ elems (the_fifo s)"
    and "limit \<noteq> 0 \<Longrightarrow> length (elems (the_fifo s)) \<le> limit" "finite {t. users s t \<noteq> Off}"
    and "\<exists>t. deq_waits (users s t) \<Longrightarrow> length (elems (the_fifo s)) \<le> how_many deq_woken (users s)"
    and "\<exists>t. enq_waits (users s t) \<Longrightarrow>
      limit \<noteq> 0 \<and> limit - length (elems (the_fifo s)) \<le> how_many enq_woken (users s)"
  shows "queue_inv limit s"
  using assms unfolding queue_inv_def by blast

lemma queue_invD:
  assumes "queue_inv limit s"
  shows "cap (the_fifo s) = limit" "went_in s = came_out s @ elems (the_fifo s)"
    "limit \<noteq> 0 \<Longrightarrow> length (elems (the_fifo s)) \<le> limit" "finite {t. users s t \<noteq> Off}"
    "\<exists>t. deq_waits (users s t) \<Longrightarrow> length (elems (the_fifo s)) \<le> how_many deq_woken (users s)"
    "\<exists>t. enq_waits (users s t) \<Longrightarrow>
      limit \<noteq> 0 \<and> limit - length (elems (the_fifo s)) \<le> how_many enq_woken (users s)"
  using assms unfolding queue_inv_def by blast+

lemma finite_upd: "finite {x. us x \<noteq> Off} \<Longrightarrow> finite {x. (us(t := u)) x \<noteq> Off}"
  by (rule finite_subset [of _ "insert t {x. us x \<noteq> Off}"]) auto

lemma how_many_move:
  assumes "queue_inv limit s"
  shows "how_many deq_woken ((users s)(t := u)) + (if deq_woken (users s t) then 1 else 0)
      = how_many deq_woken (users s) + (if deq_woken u then 1 else 0)"
    and "how_many enq_woken ((users s)(t := u)) + (if enq_woken (users s t) then 1 else 0)
      = how_many enq_woken (users s) + (if enq_woken u then 1 else 0)"
proof -
  have fin: "finite {t. deq_woken (users s t)}" "finite {t. enq_woken (users s t)}"
    by (rule finite_kind [OF queue_invD(4) [OF assms]]; simp)+
  show "how_many deq_woken ((users s)(t := u)) + (if deq_woken (users s t) then 1 else 0)
      = how_many deq_woken (users s) + (if deq_woken u then 1 else 0)"
    and "how_many enq_woken ((users s)(t := u)) + (if enq_woken (users s t) then 1 else 0)
      = how_many enq_woken (users s) + (if enq_woken u then 1 else 0)"
    by (rule how_many_upd [OF fin(1)], rule how_many_upd [OF fin(2)])
qed

lemma step_enq_inv:
  assumes inv: "queue_inv limit s" and t: "users s t = Off \<or> users s t = EnqWoken e"
    and enq: "enq e (the_fifo s) = Some f" and sig: "signalled deq_waits ((users s)(t := Off)) us"
  shows "queue_inv limit (s\<lparr>the_fifo := f, users := us, went_in := went_in s @ [e]\<rparr>)"
proof -
  let ?us = "(users s)(t := Off)"
  have f: "f = (the_fifo s)\<lparr>elems := elems (the_fifo s) @ [e]\<rparr>" "limit = 0 \<or> length (elems (the_fifo s)) < limit"
    using enq_SomeD [OF enq] queue_invD(1) [OF inv] by auto
  note fin = finite_upd [OF queue_invD(4) [OF inv], of t Off]
  note cnt = signalled_counts [OF sig fin disjI1, OF conjI, OF refl refl]
  note oth = signalled_other(1) [OF sig refl]
  note mv = how_many_move [OF inv, of t Off]
  show ?thesis
  proof (rule queue_invI)
    let ?s = "s\<lparr>the_fifo := f, users := us, went_in := went_in s @ [e]\<rparr>"
    show "length (elems (the_fifo ?s)) \<le> how_many deq_woken (users ?s)" if "\<exists>x. deq_waits (users ?s x)"
    proof -
      have ex: "\<exists>x. deq_waits (us x)"
        using that by simp
      have "how_many deq_woken ?us < how_many deq_woken us"
        by (rule cnt(3) [OF ex])
      moreover have "length (elems (the_fifo s)) \<le> how_many deq_woken (users s)"
        using cnt(4) [OF ex] by (intro queue_invD(5) [OF inv]) (auto split: if_splits)
      ultimately show ?thesis
        using mv(1) t f(1) by auto
    qed
    show "limit \<noteq> 0 \<and> limit - length (elems (the_fifo ?s)) \<le> how_many enq_woken (users ?s)"
      if "\<exists>x. enq_waits (users ?s x)"
    proof -
      have "\<exists>x. enq_waits (users s x)"
        using that oth by (auto split: if_splits)
      then have "limit \<noteq> 0 \<and> limit - length (elems (the_fifo s)) \<le> how_many enq_woken (users s)"
        by (rule queue_invD(6) [OF inv])
      then show ?thesis
        using mv(2) t f oth by (auto split: if_splits)
    qed
  qed (use queue_invD(1-3) [OF inv] f cnt(1) in auto)
qed

lemma step_deq_inv:
  assumes inv: "queue_inv limit s" and t: "users s t = Off \<or> users s t = DeqWoken"
    and deq: "deq (the_fifo s) = Some (e, sig, f)"
    and us: "if sig then signalled enq_waits ((users s)(t := Off)) us else us = (users s)(t := Off)"
  shows "queue_inv limit (s\<lparr>the_fifo := f, users := us, came_out := came_out s @ [e]\<rparr>)"
proof -
  let ?us = "(users s)(t := Off)"
  obtain q where q: "elems (the_fifo s) = e # q" "f = (the_fifo s)\<lparr>elems := q\<rparr>"
      "sig \<longleftrightarrow> limit \<noteq> 0 \<and> length q < limit"
    using deq_SomeD [OF deq] queue_invD(1) [OF inv] by auto
  have sig: "sig \<longleftrightarrow> limit \<noteq> 0"
    using q(1,3) queue_invD(3) [OF inv] by auto
  note fin = finite_upd [OF queue_invD(4) [OF inv], of t Off]
  note mv = how_many_move [OF inv, of t Off]
  have moved: "finite {x. us x \<noteq> Off} \<and>
      ((\<exists>x. enq_waits (us x)) \<longrightarrow> (\<exists>x. enq_waits (?us x)) \<and> (sig \<longrightarrow> how_many enq_woken ?us < how_many enq_woken us)) \<and>
      (\<exists>x. deq_waits (us x)) = (\<exists>x. deq_waits (?us x)) \<and> how_many deq_woken us = how_many deq_woken ?us"
  proof (cases sig)
    case True
    then have s: "signalled enq_waits ?us us"
      using us by simp
    note cnt = signalled_counts [OF s fin disjI2, OF conjI, OF refl refl]
    note oth = signalled_other(2) [OF s refl]
    show ?thesis
      using cnt(1,3,4) oth by blast
  next
    case False
    then show ?thesis
      using us fin by simp
  qed
  show ?thesis
  proof (rule queue_invI)
    let ?s = "s\<lparr>the_fifo := f, users := us, came_out := came_out s @ [e]\<rparr>"
    show "length (elems (the_fifo ?s)) \<le> how_many deq_woken (users ?s)" if "\<exists>x. deq_waits (users ?s x)"
    proof -
      have "\<exists>x. deq_waits (?us x)"
        using that moved by simp
      then have "length (elems (the_fifo s)) \<le> how_many deq_woken (users s)"
        by (intro queue_invD(5) [OF inv]) (auto split: if_splits)
      then show ?thesis
        using mv(1) t q(1,2) moved by (auto split: if_splits)
    qed
    show "limit \<noteq> 0 \<and> limit - length (elems (the_fifo ?s)) \<le> how_many enq_woken (users ?s)"
      if "\<exists>x. enq_waits (users ?s x)"
    proof -
      have ex: "\<exists>x. enq_waits (?us x)" "sig \<Longrightarrow> how_many enq_woken ?us < how_many enq_woken us"
        using that moved by simp_all
      have "limit \<noteq> 0 \<and> limit - length (elems (the_fifo s)) \<le> how_many enq_woken (users s)"
        using ex(1) by (intro queue_invD(6) [OF inv]) (auto split: if_splits)
      then show ?thesis
        using mv(2) t q(1,2) ex(2) sig by (auto split: if_splits)
    qed
  qed (use queue_invD(1-3) [OF inv] q moved in auto)
qed

lemma step_wait_inv:
  assumes inv: "queue_inv limit s"
  shows "users s t = Off \<or> users s t = EnqWoken e \<Longrightarrow> enq e (the_fifo s) = None \<Longrightarrow>
      queue_inv limit (s\<lparr>users := (users s)(t := EnqWait e)\<rparr>)"
    and "users s t = Off \<or> users s t = DeqWoken \<Longrightarrow> deq (the_fifo s) = None \<Longrightarrow>
      queue_inv limit (s\<lparr>users := (users s)(t := DeqWait)\<rparr>)"
    and "queue_inv limit (s\<lparr>users := (users s)(t := wake_user (users s t))\<rparr>)"
proof -
  note fin = finite_upd [OF queue_invD(4) [OF inv], of t]
  note mv = how_many_move [OF inv, of t]
  note base = queue_invD(1-3) [OF inv] fin
  show "queue_inv limit (s\<lparr>users := (users s)(t := EnqWait e)\<rparr>)"
    if t: "users s t = Off \<or> users s t = EnqWoken e" and enq: "enq e (the_fifo s) = None"
  proof (rule queue_invI)
    let ?s = "s\<lparr>users := (users s)(t := EnqWait e)\<rparr>"
    show "length (elems (the_fifo ?s)) \<le> how_many deq_woken (users ?s)" if "\<exists>x. deq_waits (users ?s x)"
      using that t queue_invD(5) [OF inv] mv(1) [of "EnqWait e"] by (auto split: if_splits)
    show "limit \<noteq> 0 \<and> limit - length (elems (the_fifo ?s)) \<le> how_many enq_woken (users ?s)"
      using enq_NoneD [OF enq] queue_invD(1) [OF inv] by simp
  qed (use base in auto)
  show "queue_inv limit (s\<lparr>users := (users s)(t := DeqWait)\<rparr>)"
    if t: "users s t = Off \<or> users s t = DeqWoken" and deq: "deq (the_fifo s) = None"
  proof (rule queue_invI)
    let ?s = "s\<lparr>users := (users s)(t := DeqWait)\<rparr>"
    show "limit \<noteq> 0 \<and> limit - length (elems (the_fifo ?s)) \<le> how_many enq_woken (users ?s)"
      if "\<exists>x. enq_waits (users ?s x)"
      using that t queue_invD(6) [OF inv] mv(2) [of DeqWait] by (auto split: if_splits)
    show "length (elems (the_fifo ?s)) \<le> how_many deq_woken (users ?s)"
      using deq_NoneD [OF deq] by simp
  qed (use base in auto)
  show "queue_inv limit (s\<lparr>users := (users s)(t := wake_user (users s t))\<rparr>)"
  proof (rule queue_invI)
    let ?u = "wake_user (users s t)"
    let ?s = "s\<lparr>users := (users s)(t := ?u)\<rparr>"
    have grow: "how_many deq_woken (users s) \<le> how_many deq_woken (users ?s)"
        "how_many enq_woken (users s) \<le> how_many enq_woken (users ?s)"
      using mv(1) [of ?u] mv(2) [of ?u] by (cases "users s t"; simp)+
    have w: "deq_waits (users ?s x) \<Longrightarrow> deq_waits (users s x)" "enq_waits (users ?s x) \<Longrightarrow> enq_waits (users s x)" for x
      by (cases "users s t"; auto split: if_splits)+
    show "length (elems (the_fifo ?s)) \<le> how_many deq_woken (users ?s)" if "\<exists>x. deq_waits (users ?s x)"
    proof -
      have "\<exists>x. deq_waits (users s x)"
        using that w(1) by blast
      from queue_invD(5) [OF inv this] grow(1) show ?thesis
        by simp
    qed
    show "limit \<noteq> 0 \<and> limit - length (elems (the_fifo ?s)) \<le> how_many enq_woken (users ?s)"
      if "\<exists>x. enq_waits (users ?s x)"
    proof -
      have "\<exists>x. enq_waits (users s x)"
        using that w(2) by blast
      from queue_invD(6) [OF inv this] grow(2) show ?thesis
        by simp
    qed
  qed (use base in auto)
qed

lemma queue_step_inv: "queue_step s s' \<Longrightarrow> queue_inv limit s \<Longrightarrow> queue_inv limit s'"
proof (induction rule: queue_step.induct)
  case (step_enq s t e f us)
  then show ?case
    by (intro step_enq_inv)
next
  case (step_deq s t e sig f us)
  then show ?case
    by (intro step_deq_inv)
qed (blast intro: step_wait_inv)+

lemma queue_reach_inv: "queue_reach limit s \<Longrightarrow> queue_inv limit s"
proof (induction rule: queue_reach.induct)
  case start
  then show ?case
    by (simp add: queue_inv_def init_queue_def new_fifo_def enq_kinds)
qed (rule queue_step_inv)

text \<open>A run: the threads 1 and 2 wait for an element, thread 0 brings one and wakes the first of them.\<close>

definition demo_queue :: "nat queue_sys" where
  "demo_queue = \<lparr>the_fifo = \<lparr>elems = [7], cap = 2\<rparr>, users = (\<lambda>_. Off)(1 := DeqWoken, 2 := DeqWait),
     went_in = [7], came_out = []\<rparr>"

definition demo_empty_queue :: "(nat \<Rightarrow> nat user) \<Rightarrow> nat queue_sys" where
  "demo_empty_queue us = \<lparr>the_fifo = \<lparr>elems = [], cap = 2\<rparr>, users = us, went_in = [], came_out = []\<rparr>"

lemma demo_wait_step:
  assumes "queue_reach 2 (demo_empty_queue us)" "us t = Off"
  shows "queue_reach 2 (demo_empty_queue (us(t := DeqWait)))"
proof -
  have "queue_step (demo_empty_queue us) ((demo_empty_queue us)\<lparr>users := (users (demo_empty_queue us))(t := DeqWait)\<rparr>)"
    using assms(2) by (intro step_deq_wait) (simp_all add: demo_empty_queue_def deq_def)
  then show ?thesis
    using queue_reach.step [OF assms(1)] by (simp add: demo_empty_queue_def)
qed

lemma demo_queue_reach: "queue_reach 2 demo_queue"
proof -
  let ?us = "(\<lambda>_. Off)(1 := DeqWait, 2 := DeqWait) :: nat \<Rightarrow> nat user"
  have "queue_reach 2 (demo_empty_queue (\<lambda>_. Off))"
    using queue_reach.start [of 2] by (simp add: init_queue_def new_fifo_def demo_empty_queue_def)
  then have 1: "queue_reach 2 (demo_empty_queue ?us)"
    by (intro demo_wait_step) simp_all
  have "signalled deq_waits (?us(0 := Off)) ((\<lambda>_. Off)(1 := DeqWoken, 2 := DeqWait))"
    unfolding signalled_def by (rule exI [of _ "{1}"]) auto
  then have "queue_step (demo_empty_queue ?us) ((demo_empty_queue ?us)\<lparr>the_fifo := \<lparr>elems = [7], cap = 2\<rparr>,
      users := (\<lambda>_. Off)(1 := DeqWoken, 2 := DeqWait), went_in := went_in (demo_empty_queue ?us) @ [7]\<rparr>)"
    by (intro step_enq [where t = 0]) (simp_all add: demo_empty_queue_def enq_def)
  from queue_reach.step [OF 1 this] show ?thesis
    by (simp add: demo_empty_queue_def demo_queue_def)
qed

section \<open>Properties\<close>

text \<open>
  C27. The monitor implements a bounded FIFO queue for any number of threads: what came out is what
  went in, in that order, the rest is in the queue, and the queue is never over its capacity.
\<close>

theorem queue_in_order:
  assumes "queue_reach limit s"
  shows "went_in s = came_out s @ elems (the_fifo s) \<and> (limit \<noteq> 0 \<longrightarrow> length (elems (the_fifo s)) \<le> limit)"
  using queue_invD(2,3) [OF queue_reach_inv [OF assms]] by blast

theorem queue_in_order_witness:
  "went_in demo_queue = came_out demo_queue @ elems (the_fifo demo_queue) \<and> length (elems (the_fifo demo_queue)) \<le> 2"
  using queue_in_order [OF demo_queue_reach] by simp

text \<open>
  C21. No wake-up is lost, though every operation signals one thread only: while the queue holds an
  element and a thread waits for one, another has been woken and has yet to look; and while there is
  room and a thread waits for room, another has been woken for it.
\<close>

theorem queue_wakes:
  assumes "queue_reach limit s"
  shows "(elems (the_fifo s) \<noteq> [] \<and> users s t = DeqWait \<longrightarrow> (\<exists>t'. users s t' = DeqWoken)) \<and>
    (has_room (the_fifo s) \<and> users s t = EnqWait e \<longrightarrow> (\<exists>t' e'. users s t' = EnqWoken e'))"
proof -
  note inv = queue_reach_inv [OF assms]
  have some: "\<exists>t. P (users s t)" if "0 < how_many P (users s)" for P
    using that by (auto simp: how_many_def card_gt_0_iff)
  have "\<exists>t'. users s t' = DeqWoken" if "elems (the_fifo s) \<noteq> []" "users s t = DeqWait"
  proof -
    have "length (elems (the_fifo s)) \<le> how_many deq_woken (users s)"
      using that(2) by (intro queue_invD(5) [OF inv]) auto
    then have "0 < how_many deq_woken (users s)"
      using that(1) by (cases "elems (the_fifo s)") auto
    from some [OF this] show ?thesis
      by simp
  qed
  moreover have "\<exists>t' e'. users s t' = EnqWoken e'" if "has_room (the_fifo s)" "users s t = EnqWait e"
  proof -
    have "limit \<noteq> 0 \<and> limit - length (elems (the_fifo s)) \<le> how_many enq_woken (users s)"
      using that(2) by (intro queue_invD(6) [OF inv]) (auto simp: enq_kinds)
    then have "0 < how_many enq_woken (users s)"
      using that(1) queue_invD(1) [OF inv] by (simp add: has_room_def)
    from some [OF this] show ?thesis
      by (simp add: enq_kinds)
  qed
  ultimately show ?thesis
    by blast
qed

theorem queue_wakes_witness: "\<exists>t'. users demo_queue t' = DeqWoken"
  using queue_wakes [OF demo_queue_reach, of 2] by (simp add: demo_queue_def)

end
