(* ===== verification/Thread_Pool.thy ===== *)
theory Thread_Pool
  imports Job_Queue "HOL-Library.Multiset"
begin

text \<open>
  The pool of worker threads of \<open>rpc/thr_pool.h\<close> and \<open>rpc/thr_pool.cc\<close> on the queue of \<open>Job_Queue\<close>:
  adding and taking jobs, the loop of a worker, and the destructor, which sends one poison pill per
  worker and waits for all of them.
\<close>

text \<open>A job with a null function is the pill; a job of the users has a function.\<close>

datatype 'j job = Job 'j | Pill

record 'j pool =
  jobq :: "'j job fifo"
  nthreads :: nat
  blockadd :: bool

definition new_pool :: "nat \<Rightarrow> bool \<Rightarrow> 'j pool" where
  "new_pool sz blocking = \<lparr>jobq = new_fifo (100 * sz), nthreads = sz, blockadd = blocking\<rparr>"

datatype add_result = Added | Rejected | Blocks

text \<open>\<open>addJob\<close>: a full queue rejects the job, or makes the caller wait.\<close>

definition addJob :: "'j \<Rightarrow> 'j pool \<Rightarrow> add_result \<times> 'j pool" where
  "addJob j p =
     (case enq (Job j) (jobq p) of
        Some q \<Rightarrow> (Added, p\<lparr>jobq := q\<rparr>)
      | None \<Rightarrow> (if blockadd p then Blocks else Rejected, p))"

text \<open>\<open>takeJob\<close>: \<open>None\<close> waits; a pill is the result false.\<close>

definition takeJob :: "'j pool \<Rightarrow> (bool \<times> 'j job \<times> 'j pool) option" where
  "takeJob p = do { (j, q) \<leftarrow> get_fifo (jobq p); Some (j \<noteq> Pill, j, p\<lparr>jobq := q\<rparr>) }"

section \<open>The workers and the destructor\<close>

datatype 'j work = Take_Next | Running 'j | Exited

text \<open>
  \<open>pills\<close> is what the loop of the destructor has still to send, and \<open>None\<close> before it runs. \<open>ran\<close>
  lists the jobs whose function has returned, \<open>accepted\<close> those that were added.
\<close>

record 'j pool_sys =
  pool :: "'j pool"
  work :: "nat \<Rightarrow> 'j work"
  pills :: "nat option"
  accepted :: "'j list"
  ran :: "'j list"

definition init_pool :: "nat \<Rightarrow> bool \<Rightarrow> 'j pool_sys" where
  "init_pool sz blocking = \<lparr>pool = new_pool sz blocking, work = (\<lambda>t. if t < sz then Take_Next else Exited),
     pills = None, accepted = [], ran = []\<rparr>"

inductive pool_step :: "'j pool_sys \<Rightarrow> 'j pool_sys \<Rightarrow> bool" where
  p_add:
  "pills s = None \<Longrightarrow> addJob j (pool s) = (Added, p) \<Longrightarrow>
   pool_step s (s\<lparr>pool := p, accepted := accepted s @ [j]\<rparr>)"
| p_take:
  "work s t = Take_Next \<Longrightarrow> takeJob (pool s) = Some (go, j, p) \<Longrightarrow>
   pool_step s (s\<lparr>pool := p,
     work := (work s)(t := (case j of Job x \<Rightarrow> Running x | Pill \<Rightarrow> Exited))\<rparr>)"
| p_run:
  "work s t = Running j \<Longrightarrow> pool_step s (s\<lparr>work := (work s)(t := Take_Next), ran := ran s @ [j]\<rparr>)"
| p_shutdown:
  "pills s = None \<Longrightarrow> pool_step s (s\<lparr>pills := Some (nthreads (pool s))\<rparr>)"
| p_pill:
  "pills s = Some (Suc n) \<Longrightarrow> enq Pill (jobq (pool s)) = Some q \<Longrightarrow>
   pool_step s (s\<lparr>pool := (pool s)\<lparr>jobq := q\<rparr>, pills := Some n\<rparr>)"

inductive_cases pool_stepE: "pool_step s s'"

inductive pool_reach :: "nat \<Rightarrow> bool \<Rightarrow> 'j pool_sys \<Rightarrow> bool" for sz blocking where
  start: "pool_reach sz blocking (init_pool sz blocking)"
| step: "pool_reach sz blocking s \<Longrightarrow> pool_step s s' \<Longrightarrow> pool_reach sz blocking s'"

section \<open>Invariant\<close>

definition live :: "'j pool_sys \<Rightarrow> nat" where
  "live s = card {t. work s t \<noteq> Exited}"

definition running :: "'j pool_sys \<Rightarrow> 'j \<Rightarrow> nat" where
  "running s j = card {t. work s t = Running j}"

definition busy :: "'j pool_sys \<Rightarrow> nat" where
  "busy s = card {t. \<exists>j. work s t = Running j}"

text \<open>
  The queue holds \<open>js\<close> and behind them \<open>k\<close> pills. The pills there and those to come are as many as
  the workers that have not exited, and no worker exits while jobs are left.
\<close>

definition queue_split :: "nat \<Rightarrow> 'j pool_sys \<Rightarrow> 'j list \<Rightarrow> nat \<Rightarrow> bool" where
  "queue_split sz s js k \<longleftrightarrow> elems (jobq (pool s)) = map Job js @ replicate k Pill \<and>
     (case pills s of None \<Rightarrow> k = 0 \<and> live s = sz | Some n \<Rightarrow> n + k = live s) \<and>
     (live s < sz \<longrightarrow> js = []) \<and>
     (\<forall>j. count (mset (accepted s)) j = count (mset (ran s)) j + running s j + count (mset js) j)"

definition pool_inv :: "nat \<Rightarrow> 'j pool_sys \<Rightarrow> bool" where
  "pool_inv sz s \<longleftrightarrow> cap (jobq (pool s)) = 100 * sz \<and> nthreads (pool s) = sz \<and>
     (\<forall>t \<ge> sz. work s t = Exited) \<and> live s \<le> sz \<and> (\<exists>js k. queue_split sz s js k)"

lemma pool_inv_finite:
  assumes "pool_inv sz s"
  shows "\<not> P Exited \<Longrightarrow> finite {t. P (work s t)}"
proof -
  assume "\<not> P Exited"
  then have "{t. P (work s t)} \<subseteq> {..< sz}"
    using assms by (auto simp: pool_inv_def not_le [symmetric])
  then show ?thesis
    by (rule finite_subset) simp
qed

text \<open>Counting the workers of a kind after one of them has moved.\<close>

lemma card_move:
  assumes "finite {t. P (f t)}"
  shows "card {t. P ((f(x := y)) t)} + (if P (f x) then 1 else 0) = card {t. P (f t)} + (if P y then 1 else 0)"
proof -
  let ?A = "{t. P (f t)}"
  have "{t. P ((f(x := y)) t)} = (if P y then insert x ?A else ?A - {x})"
    by auto
  then show ?thesis
    using assms card_Suc_Diff1 [of ?A x] by (auto simp: insert_absorb)
qed

lemma worker_moves:
  fixes w :: "'j work"
  assumes inv: "pool_inv sz s" and upd: "work s' = (work s)(t := w)"
  shows "live s' + (if work s t \<noteq> Exited then 1 else 0) = live s + (if w \<noteq> Exited then 1 else 0)"
    and "running s' j + (if work s t = Running j then 1 else 0) = running s j + (if w = Running j then 1 else 0)"
    and "busy s' + (if \<exists>j. work s t = Running j then 1 else 0) = busy s + (if \<exists>j. w = Running j then 1 else 0)"
proof -
  note fin = pool_inv_finite [OF inv]
  show "live s' + (if work s t \<noteq> Exited then 1 else 0) = live s + (if w \<noteq> Exited then 1 else 0)"
    unfolding live_def upd by (rule card_move [OF fin]) simp
  show "running s' j + (if work s t = Running j then 1 else 0) = running s j + (if w = Running j then 1 else 0)"
    unfolding running_def upd by (rule card_move [OF fin]) simp
  show "busy s' + (if \<exists>j. work s t = Running j then 1 else 0) = busy s + (if \<exists>j. w = Running j then 1 else 0)"
    unfolding busy_def upd by (rule card_move [OF fin]) simp
qed

lemma same_workers [simp]:
  "live (s\<lparr>pool := p\<rparr>) = live s" "live (s\<lparr>pills := n\<rparr>) = live s" "live (s\<lparr>accepted := a\<rparr>) = live s" "live (s\<lparr>ran := r\<rparr>) = live s"
  "busy (s\<lparr>pool := p\<rparr>) = busy s" "busy (s\<lparr>pills := n\<rparr>) = busy s" "busy (s\<lparr>accepted := a\<rparr>) = busy s" "busy (s\<lparr>ran := r\<rparr>) = busy s"
  "running (s\<lparr>pool := p\<rparr>) j = running s j" "running (s\<lparr>pills := n\<rparr>) j = running s j" "running (s\<lparr>accepted := a\<rparr>) j = running s j" "running (s\<lparr>ran := r\<rparr>) j = running s j"
  by (simp_all add: live_def busy_def running_def)

lemma takeJob_SomeD:
  "takeJob p = Some (go, j, p') \<Longrightarrow>
   \<exists>q. elems (jobq p) = j # q \<and> p' = p\<lparr>jobq := (jobq p)\<lparr>elems := q\<rparr>\<rparr> \<and> go = (j \<noteq> Pill)"
  by (auto simp: takeJob_def get_fifo_def bind_eq_Some_conv dest!: deq_SomeD)

lemma takeJob_NoneD: "takeJob p = None \<Longrightarrow> elems (jobq p) = []"
  by (auto simp: takeJob_def get_fifo_def deq_def split: list.splits)

lemma addJob_AddedD:
  "addJob j p = (Added, p') \<Longrightarrow> p' = p\<lparr>jobq := (jobq p)\<lparr>elems := elems (jobq p) @ [Job j]\<rparr>\<rparr>"
  by (auto simp: addJob_def dest: enq_SomeD split: option.splits if_splits)

lemma pool_invD:
  assumes "pool_inv sz s"
  shows "cap (jobq (pool s)) = 100 * sz" "nthreads (pool s) = sz" "live s \<le> sz"
    and "sz \<le> t \<Longrightarrow> work s t = Exited"
  using assms by (auto simp: pool_inv_def)

lemma pool_invI:
  assumes "cap (jobq (pool s)) = 100 * sz" "nthreads (pool s) = sz" "\<And>t. sz \<le> t \<Longrightarrow> work s t = Exited"
    and "live s \<le> sz" "queue_split sz s js k"
  shows "pool_inv sz s"
  using assms by (auto simp: pool_inv_def)

lemma pool_invE:
  assumes "pool_inv sz s"
  obtains js k where "queue_split sz s js k"
  using assms by (auto simp: pool_inv_def)

lemma init_pool_inv: "pool_inv sz (init_pool sz b)"
proof -
  have "{t. (if t < sz then Take_Next else Exited :: 'a work) \<noteq> Exited} = {..< sz}"
    by auto
  then have "live (init_pool sz b :: 'a pool_sys) = sz"
    by (simp add: live_def init_pool_def)
  moreover have "running (init_pool sz b) j = 0" for j :: 'a
    by (simp add: running_def init_pool_def)
  ultimately have "queue_split sz (init_pool sz b :: 'a pool_sys) [] 0"
    by (simp add: queue_split_def init_pool_def new_pool_def new_fifo_def)
  with \<open>live (init_pool sz b :: 'a pool_sys) = sz\<close> show ?thesis
    unfolding pool_inv_def by (auto simp: init_pool_def new_pool_def new_fifo_def)
qed

lemma step_take_inv:
  assumes inv: "pool_inv sz s" and t: "work s t = Take_Next"
    and take: "takeJob (pool s) = Some (go, j, p)"
  shows "pool_inv sz (s\<lparr>pool := p, work := (work s)(t := (case j of Job x \<Rightarrow> Running x | Pill \<Rightarrow> Exited))\<rparr>)"
    (is "pool_inv sz ?s")
proof -
  obtain js k where sp: "queue_split sz s js k"
    using inv by (rule pool_invE)
  obtain q where q: "elems (jobq (pool s)) = j # q" "p = (pool s)\<lparr>jobq := (jobq (pool s))\<lparr>elems := q\<rparr>\<rparr>"
    using takeJob_SomeD [OF take] by blast
  have upd: "work ?s = (work s)(t := (case j of Job x \<Rightarrow> Running x | Pill \<Rightarrow> Exited))"
    by simp
  note mv = worker_moves [OF inv upd]
  have tsz: "t < sz"
    using pool_invD(4) [OF inv, of t] t by (cases "t < sz") auto
  have "\<exists>js k. queue_split sz ?s js k \<and> live ?s \<le> live s"
  proof (cases js)
    case Nil
    then obtain k' where k: "k = Suc k'" "j = Pill" "q = replicate k' Pill"
      using sp q(1) by (cases k) (auto simp: queue_split_def)
    have "live ?s + 1 = live s" "running ?s x = running s x" for x
      using mv(1) mv(2) [of x] t k(2) by auto
    then have "queue_split sz ?s [] k'"
      using sp Nil k q(2) by (auto simp: queue_split_def split: option.splits)
    moreover have "live ?s \<le> live s"
      using \<open>live ?s + 1 = live s\<close> by simp
    ultimately show ?thesis
      by blast
  next
    case (Cons x js')
    then have j: "j = Job x" "q = map Job js' @ replicate k Pill"
      using sp q(1) by (auto simp: queue_split_def)
    have l: "live ?s = live s" and r: "running ?s y = running s y + (if x = y then 1 else 0)" for y
      using mv(1) mv(2) [of y] t j(1) by auto
    have c: "count (mset (accepted s)) y = count (mset (ran s)) y + running s y + count (mset js) y" for y
      using sp by (simp add: queue_split_def)
    have "queue_split sz ?s js' k"
      unfolding queue_split_def l r using sp Cons j q(2) c
      by (auto simp: queue_split_def split: option.splits)
    then show ?thesis
      using l by (intro exI [of _ js'] exI [of _ k]) simp
  qed
  then obtain js k where sp': "queue_split sz ?s js k" and l: "live ?s \<le> live s"
    by blast
  show ?thesis
  proof (rule pool_invI [OF _ _ _ _ sp'])
    show "work ?s x = Exited" if "sz \<le> x" for x
      using that tsz pool_invD(4) [OF inv that] by simp
    show "live ?s \<le> sz"
      using l pool_invD(3) [OF inv] by simp
  qed (use q(2) pool_invD(1,2) [OF inv] in simp_all)
qed

lemma step_add_inv:
  assumes inv: "pool_inv sz s" and none: "pills s = None" and add: "addJob j (pool s) = (Added, p)"
  shows "pool_inv sz (s\<lparr>pool := p, accepted := accepted s @ [j]\<rparr>)" (is "pool_inv sz ?s")
proof -
  obtain js k where sp: "queue_split sz s js k"
    using inv by (rule pool_invE)
  have p: "p = (pool s)\<lparr>jobq := (jobq (pool s))\<lparr>elems := elems (jobq (pool s)) @ [Job j]\<rparr>\<rparr>"
    using addJob_AddedD [OF add] .
  have "queue_split sz ?s (js @ [j]) 0"
    using sp none by (simp add: queue_split_def p)
  then show ?thesis
    by (rule pool_invI [rotated 4]) (use pool_invD [OF inv] in \<open>simp_all add: p\<close>)
qed

lemma step_run_inv:
  assumes inv: "pool_inv sz s" and t: "work s t = Running j"
  shows "pool_inv sz (s\<lparr>work := (work s)(t := Take_Next), ran := ran s @ [j]\<rparr>)" (is "pool_inv sz ?s")
proof -
  obtain js k where sp: "queue_split sz s js k"
    using inv by (rule pool_invE)
  have upd: "work ?s = (work s)(t := Take_Next)"
    by simp
  note mv = worker_moves [OF inv upd]
  have l: "live ?s = live s" and r: "running ?s x + (if x = j then 1 else 0) = running s x" for x
    using mv(1) mv(2) [of x] t by auto
  have "count (mset (accepted s)) x = count (mset (ran s)) x + running s x + count (mset js) x" for x
    using sp by (simp add: queue_split_def)
  then have c: "count (mset (accepted ?s)) x = count (mset (ran ?s)) x + running ?s x + count (mset js) x" for x
    using r [of x] by (cases "x = j") simp_all
  have "queue_split sz ?s js k"
    using sp unfolding queue_split_def l by (intro conjI allI c) simp_all
  moreover have "t < sz"
    using pool_invD(4) [OF inv, of t] t by (cases "t < sz") auto
  ultimately show ?thesis
    by (intro pool_invI [of ?s sz js k]) (use pool_invD [OF inv] l in simp_all)
qed

lemma step_shutdown_inv:
  assumes inv: "pool_inv sz s" and none: "pills s = None"
  shows "pool_inv sz (s\<lparr>pills := Some (nthreads (pool s))\<rparr>)" (is "pool_inv sz ?s")
proof -
  obtain js k where sp: "queue_split sz s js k"
    using inv by (rule pool_invE)
  have "queue_split sz ?s js k"
    using sp none pool_invD(2) [OF inv] by (simp add: queue_split_def)
  then show ?thesis
    by (rule pool_invI [rotated 4]) (use pool_invD [OF inv] in simp_all)
qed

lemma step_pill_inv:
  assumes inv: "pool_inv sz s" and n: "pills s = Some (Suc n)" and enq: "enq Pill (jobq (pool s)) = Some q"
  shows "pool_inv sz (s\<lparr>pool := (pool s)\<lparr>jobq := q\<rparr>, pills := Some n\<rparr>)" (is "pool_inv sz ?s")
proof -
  obtain js k where sp: "queue_split sz s js k"
    using inv by (rule pool_invE)
  have q: "q = (jobq (pool s))\<lparr>elems := elems (jobq (pool s)) @ [Pill]\<rparr>"
    using enq_SomeD [OF enq] by blast
  have "queue_split sz ?s js (Suc k)"
    using sp n by (simp add: queue_split_def q replicate_append_same)
  then show ?thesis
    by (rule pool_invI [rotated 4]) (use pool_invD [OF inv] q in simp_all)
qed

lemma pool_step_inv: "pool_step s s' \<Longrightarrow> pool_inv sz s \<Longrightarrow> pool_inv sz s'"
  by (induction rule: pool_step.induct)
    (simp_all add: step_add_inv step_take_inv step_run_inv step_shutdown_inv step_pill_inv)

lemma pool_reach_inv: "pool_reach sz b s \<Longrightarrow> pool_inv sz s"
proof (induction rule: pool_reach.induct)
  case start
  then show ?case
    by (rule init_pool_inv)
qed (rule pool_step_inv)

section \<open>The destructor ends\<close>

text \<open>What is left to do once the destructor runs: sending, taking and running are one step each.\<close>

definition shutdown_left :: "'j pool_sys \<Rightarrow> nat" where
  "shutdown_left s = 3 * the (pills s) + 2 * length (elems (jobq (pool s))) + busy s"

definition finished :: "'j pool_sys \<Rightarrow> bool" where
  "finished s \<longleftrightarrow> pills s = Some 0 \<and> (\<forall>t. work s t = Exited) \<and> elems (jobq (pool s)) = [] \<and>
     mset (ran s) = mset (accepted s)"

lemma shutdown_step:
  assumes "pool_step s s'" "pool_inv sz s" "pills s \<noteq> None"
  shows "shutdown_left s' < shutdown_left s \<and> pills s' \<noteq> None"
  using assms
proof (induction rule: pool_step.induct)
  case (p_take s t go j p)
  let ?s = "s\<lparr>pool := p, work := (work s)(t := (case j of Job x \<Rightarrow> Running x | Pill \<Rightarrow> Exited))\<rparr>"
  obtain q where "elems (jobq (pool s)) = j # q" "elems (jobq p) = q"
    using takeJob_SomeD [OF p_take(2)] by auto
  moreover have "busy ?s \<le> busy s + 1"
    using worker_moves(3) [OF p_take(3), of ?s t] p_take(1) by (auto split: if_splits)
  ultimately show ?case
    using p_take(4) by (simp add: shutdown_left_def)
next
  case (p_run s t j)
  let ?s = "s\<lparr>work := (work s)(t := Take_Next), ran := ran s @ [j]\<rparr>"
  have "busy ?s + 1 = busy s"
    using worker_moves(3) [OF p_run(2), of ?s t Take_Next] p_run(1) by simp
  then show ?case
    using p_run(3) by (simp add: shutdown_left_def)
qed (auto simp: shutdown_left_def dest: enq_SomeD)

lemma shutdown_progress:
  assumes inv: "pool_inv sz s" and sz: "0 < sz" and n: "pills s = Some n"
  shows "finished s \<or> (\<exists>s'. pool_step s s')"
proof (rule disjCI)
  assume stuck: "\<not> (\<exists>s'. pool_step s s')"
  obtain js k where sp: "queue_split sz s js k"
    using inv by (rule pool_invE)
  have idle: "work s t \<noteq> Running j" for t j
    using stuck p_run [of s t j] by blast
  have all: "work s t = Exited" for t
  proof (rule ccontr)
    assume t: "work s t \<noteq> Exited"
    then have "work s t = Take_Next"
      using idle [of t] by (cases "work s t") auto
    then have "takeJob (pool s) = None"
      using stuck p_take [of s t] by (cases "takeJob (pool s)") (auto simp: split_paired_all)
    then have empty: "elems (jobq (pool s)) = []"
      by (rule takeJob_NoneD)
    have "live s = 0"
    proof (rule ccontr)
      assume "live s \<noteq> 0"
      then obtain n' where "n = Suc n'"
        using sp empty n by (cases n) (auto simp: queue_split_def)
      moreover obtain q where "enq Pill (jobq (pool s)) = Some q"
        using empty sz pool_invD(1) [OF inv] by (simp add: enq_def)
      ultimately show False
        using stuck p_pill [of s n' q] n by simp
    qed
    then show False
      using pool_inv_finite [OF inv, of "\<lambda>w. w \<noteq> Exited"] t by (auto simp: live_def)
  qed
  then have zero: "live s = 0" "running s j = 0" for j
    by (simp_all add: live_def running_def)
  then have "js = []" "n = 0" "k = 0"
    using sp n sz by (simp_all add: queue_split_def)
  moreover have "mset (ran s) = mset (accepted s)"
    using sp zero(2) \<open>js = []\<close> by (intro multiset_eqI) (simp add: queue_split_def)
  ultimately show "finished s"
    using sp n all by (simp add: finished_def queue_split_def)
qed

text \<open>A pool of one worker that has one job and is being destroyed.\<close>

definition demo_pool :: "nat pool_sys" where
  "demo_pool = \<lparr>pool = \<lparr>jobq = \<lparr>elems = [Job 5], cap = 100\<rparr>, nthreads = 1, blockadd = True\<rparr>,
     work = (\<lambda>t. if t < 1 then Take_Next else Exited), pills = Some 1, accepted = [5], ran = []\<rparr>"

lemma demo_pool_reach: "pool_reach 1 True demo_pool"
proof -
  let ?p = "\<lparr>jobq = \<lparr>elems = [Job 5], cap = 100\<rparr>, nthreads = 1, blockadd = True\<rparr> :: nat pool"
  let ?s0 = "init_pool 1 True :: nat pool_sys"
  let ?s1 = "?s0\<lparr>pool := ?p, accepted := accepted ?s0 @ [5]\<rparr>"
  have "pool_step ?s0 ?s1"
    by (rule p_add) (simp_all add: init_pool_def new_pool_def new_fifo_def addJob_def enq_def)
  then have "pool_reach 1 True ?s1"
    by (rule pool_reach.step [OF pool_reach.start])
  moreover have "pool_step ?s1 (?s1\<lparr>pills := Some (nthreads (pool ?s1))\<rparr>)"
    by (rule p_shutdown) (simp add: init_pool_def)
  moreover have "?s1\<lparr>pills := Some (nthreads (pool ?s1))\<rparr> = demo_pool"
    by (simp add: init_pool_def demo_pool_def)
  ultimately show ?thesis
    using pool_reach.step by metis
qed

text \<open>
  C10. The destructor terminates and loses no job: from the moment it sends the first pill, every
  schedule of the workers is finite, and it cannot stop before every pill is sent, every worker has
  exited, the queue is empty and each job that \<open>addJob\<close> accepted has run exactly once.
\<close>

theorem pool_shutdown:
  assumes "pool_reach sz blocking s" "0 < sz" "pills s \<noteq> None"
  shows "(pool_step ^^ k) s s' \<Longrightarrow>
    k + shutdown_left s' \<le> shutdown_left s \<and> (finished s' \<or> (\<exists>s''. pool_step s' s''))"
proof -
  assume run: "(pool_step ^^ k) s s'"
  have "pool_inv sz s' \<and> pills s' \<noteq> None \<and> k + shutdown_left s' \<le> shutdown_left s"
    using run
  proof (induction k arbitrary: s')
    case 0
    then show ?case
      using pool_reach_inv [OF assms(1)] assms(3) by simp
  next
    case (Suc k)
    then obtain t where t: "(pool_step ^^ k) s t" "pool_step t s'"
      by auto
    show ?case
      using Suc.IH [OF t(1)] pool_step_inv [OF t(2)] shutdown_step [OF t(2)] by fastforce
  qed
  then show ?thesis
    using shutdown_progress [OF _ assms(2)] by blast
qed

theorem pool_shutdown_witness:
  "0 + shutdown_left demo_pool \<le> shutdown_left demo_pool \<and>
    (finished demo_pool \<or> (\<exists>s''. pool_step demo_pool s''))"
proof (rule pool_shutdown)
  show "pool_reach 1 True demo_pool"
    by (rule demo_pool_reach)
qed (simp_all add: demo_pool_def)

end
