(* ===== verification/Bound_Calls.thy ===== *)
theory Bound_Calls
  imports Thread_Pool
begin

text \<open>
  Calls that are handed to another thread: \<open>method_thread\<close> of \<open>rpc/method_thread.h\<close>, which starts a
  thread for the call of a method, and \<open>ThrPool::addObjJob\<close> of \<open>rpc/thr_pool.h\<close>, which makes a job of
  the pool of it. Both put the object, the method and its arguments into a block of memory, pass
  its address through a C interface, and the other thread deletes it.
\<close>

section \<open>The block\<close>

text \<open>One class per number of arguments; the values of all argument types are one type here.\<close>

datatype ('o, 'm, 'a) bound_call =
    Call0 'o 'm
  | Call1 'o 'm 'a
  | Call2 'o 'm 'a 'a
  | Call3 'o 'm 'a 'a 'a

text \<open>\<open>new\<close> gives a block that is not in use.\<close>

definition new_call :: "nat \<Rightarrow> 'x \<Rightarrow> (nat \<rightharpoonup> 'x) \<Rightarrow> (nat \<rightharpoonup> 'x) option" where
  "new_call a x h = (if h a \<noteq> None then None else Some (h(a \<mapsto> x)))"

section \<open>Threads that run a method\<close>

datatype 'x phase = Starting | Calling 'x | Ended

record 'x thread =
  th_arg :: nat
  th_detached :: bool
  th_phase :: "'x phase"

record 'x threads =
  th_heap :: "nat \<rightharpoonup> 'x"
  th_list :: "'x thread list"
  th_called :: "'x list"

text \<open>\<open>err\<close> is the result of \<open>pthread_create\<close>; the program ends when it fails.\<close>

definition method_thread_parent :: "int \<Rightarrow> nat \<Rightarrow> bool \<Rightarrow> 'x threads \<Rightarrow> (nat \<times> 'x threads) option" where
  "method_thread_parent err arg detach s =
     (if err \<noteq> 0 then None
      else Some (length (th_list s), s\<lparr>th_list := th_list s @
        [\<lparr>th_arg = arg, th_detached = detach, th_phase = Starting\<rparr>]\<rparr>))"

definition method_thread0 :: "int \<Rightarrow> nat \<Rightarrow> 'o \<Rightarrow> bool \<Rightarrow> 'm \<Rightarrow> ('o, 'm, 'a) bound_call threads
    \<Rightarrow> (nat \<times> ('o, 'm, 'a) bound_call threads) option" where
  "method_thread0 err a ob detach m s = do {
     h \<leftarrow> new_call a (Call0 ob m) (th_heap s);
     method_thread_parent err a detach (s\<lparr>th_heap := h\<rparr>)
   }"

definition method_thread1 :: "int \<Rightarrow> nat \<Rightarrow> 'o \<Rightarrow> bool \<Rightarrow> 'm \<Rightarrow> 'a \<Rightarrow> ('o, 'm, 'a) bound_call threads
    \<Rightarrow> (nat \<times> ('o, 'm, 'a) bound_call threads) option" where
  "method_thread1 err a ob detach m a1 s = do {
     h \<leftarrow> new_call a (Call1 ob m a1) (th_heap s);
     method_thread_parent err a detach (s\<lparr>th_heap := h\<rparr>)
   }"

definition method_thread2 :: "int \<Rightarrow> nat \<Rightarrow> 'o \<Rightarrow> bool \<Rightarrow> 'm \<Rightarrow> 'a \<Rightarrow> 'a \<Rightarrow> ('o, 'm, 'a) bound_call threads
    \<Rightarrow> (nat \<times> ('o, 'm, 'a) bound_call threads) option" where
  "method_thread2 err a ob detach m a1 a2 s = do {
     h \<leftarrow> new_call a (Call2 ob m a1 a2) (th_heap s);
     method_thread_parent err a detach (s\<lparr>th_heap := h\<rparr>)
   }"

definition method_thread3 :: "int \<Rightarrow> nat \<Rightarrow> 'o \<Rightarrow> bool \<Rightarrow> 'm \<Rightarrow> 'a \<Rightarrow> 'a \<Rightarrow> 'a \<Rightarrow> ('o, 'm, 'a) bound_call threads
    \<Rightarrow> (nat \<times> ('o, 'm, 'a) bound_call threads) option" where
  "method_thread3 err a ob detach m a1 a2 a3 s = do {
     h \<leftarrow> new_call a (Call3 ob m a1 a2 a3) (th_heap s);
     method_thread_parent err a detach (s\<lparr>th_heap := h\<rparr>)
   }"

text \<open>
  The new thread, the function \<open>yyy\<close> of each class: it reads its block and deletes it, and then
  calls the method. Between the two other threads run.
\<close>

definition thread_entry :: "nat \<Rightarrow> 'x threads \<Rightarrow> 'x threads option" where
  "thread_entry t s =
     (if t < length (th_list s) then
        let r = th_list s ! t in
        case th_phase r of
          Starting \<Rightarrow> do {
            x \<leftarrow> th_heap s (th_arg r);
            Some (s\<lparr>th_heap := (th_heap s)(th_arg r := None), th_list := (th_list s)[t := r\<lparr>th_phase := Calling x\<rparr>]\<rparr>)
          }
        | _ \<Rightarrow> None
      else None)"

definition thread_call :: "nat \<Rightarrow> 'x threads \<Rightarrow> 'x threads option" where
  "thread_call t s =
     (if t < length (th_list s) then
        let r = th_list s ! t in
        case th_phase r of
          Calling x \<Rightarrow> Some (s\<lparr>th_list := (th_list s)[t := r\<lparr>th_phase := Ended\<rparr>], th_called := th_called s @ [x]\<rparr>)
        | _ \<Rightarrow> None
      else None)"

text \<open>\<open>rs\<close> are the calls that were asked for, in the order of the threads made for them.\<close>

definition no_threads :: "'x threads" where
  "no_threads = \<lparr>th_heap = (\<lambda>_. None), th_list = [], th_called = []\<rparr>"

inductive mt_reach :: "('o, 'm, 'a) bound_call list \<Rightarrow> ('o, 'm, 'a) bound_call threads \<Rightarrow> bool" where
  mt_start: "mt_reach [] no_threads"
| mt_thread0: "mt_reach rs s \<Longrightarrow> method_thread0 err a ob d m s = Some (t, s') \<Longrightarrow> mt_reach (rs @ [Call0 ob m]) s'"
| mt_thread1: "mt_reach rs s \<Longrightarrow> method_thread1 err a ob d m a1 s = Some (t, s') \<Longrightarrow>
    mt_reach (rs @ [Call1 ob m a1]) s'"
| mt_thread2: "mt_reach rs s \<Longrightarrow> method_thread2 err a ob d m a1 a2 s = Some (t, s') \<Longrightarrow>
    mt_reach (rs @ [Call2 ob m a1 a2]) s'"
| mt_thread3: "mt_reach rs s \<Longrightarrow> method_thread3 err a ob d m a1 a2 a3 s = Some (t, s') \<Longrightarrow>
    mt_reach (rs @ [Call3 ob m a1 a2 a3]) s'"
| mt_entry: "mt_reach rs s \<Longrightarrow> thread_entry t s = Some s' \<Longrightarrow> mt_reach rs s'"
| mt_call: "mt_reach rs s \<Longrightarrow> thread_call t s = Some s' \<Longrightarrow> mt_reach rs s'"

subsection \<open>Invariant\<close>

text \<open>
  The blocks in use are those of the threads that have not started, each with the call that was
  asked for, and the calls made are those of the threads that have ended.
\<close>

definition thread_ok :: "'x threads \<Rightarrow> 'x thread \<Rightarrow> 'x \<Rightarrow> bool" where
  "thread_ok s r x \<longleftrightarrow>
     (case th_phase r of Starting \<Rightarrow> th_heap s (th_arg r) = Some x | Calling y \<Rightarrow> y = x | Ended \<Rightarrow> True)"

definition waiting_at :: "'x threads \<Rightarrow> nat \<Rightarrow> nat \<Rightarrow> bool" where
  "waiting_at s t a \<longleftrightarrow> t < length (th_list s) \<and> th_phase (th_list s ! t) = Starting \<and> th_arg (th_list s ! t) = a"

definition ended :: "'x threads \<Rightarrow> nat set" where
  "ended s = {t. t < length (th_list s) \<and> th_phase (th_list s ! t) = Ended}"

definition mt_inv :: "'x list \<Rightarrow> 'x threads \<Rightarrow> bool" where
  "mt_inv rs s \<longleftrightarrow> list_all2 (thread_ok s) (th_list s) rs \<and>
     (\<forall>a. th_heap s a \<noteq> None \<longrightarrow> (\<exists>t. waiting_at s t a)) \<and>
     (\<forall>t u a. waiting_at s t a \<longrightarrow> waiting_at s u a \<longrightarrow> t = u) \<and>
     mset (th_called s) = image_mset ((!) rs) (mset_set (ended s))"

lemma mt_inv_length: "mt_inv rs s \<Longrightarrow> length (th_list s) = length rs"
  by (auto simp: mt_inv_def dest: list_all2_lengthD)

lemma finite_ended [simp]: "finite (ended s)"
  by (simp add: ended_def)

text \<open>A new thread, whatever its call.\<close>

lemma spawned_inv:
  assumes inv: "mt_inv rs s" and new: "new_call a x (th_heap s) = Some h"
    and made: "method_thread_parent err a d (s\<lparr>th_heap := h\<rparr>) = Some (t, s')"
  shows "mt_inv (rs @ [x]) s'"
proof -
  have len: "length (th_list s) = length rs"
    by (rule mt_inv_length [OF inv])
  have a: "th_heap s a = None" "h = (th_heap s)(a \<mapsto> x)"
    using new by (auto simp: new_call_def split: if_splits)
  have s': "s' = s\<lparr>th_heap := h, th_list := th_list s @ [\<lparr>th_arg = a, th_detached = d, th_phase = Starting\<rparr>]\<rparr>"
    using made by (auto simp: method_thread_parent_def split: if_splits)
  have "thread_ok s' r y" if "thread_ok s r y" for r y
    using that a by (auto simp: thread_ok_def s' split: phase.splits)
  then have "list_all2 (thread_ok s') (th_list s) rs"
    using inv by (auto simp: mt_inv_def intro: list_all2_mono)
  then have all: "list_all2 (thread_ok s') (th_list s') (rs @ [x])"
    by (simp add: s' thread_ok_def a list_all2_appendI)
  have wait: "waiting_at s' u b \<longleftrightarrow> waiting_at s u b \<or> u = length rs \<and> b = a" for u b
    by (auto simp: waiting_at_def s' nth_append len less_Suc_eq)
  have used: "th_heap s b = Some y" if w: "waiting_at s u b" and y: "y = rs ! u" for u b y
  proof -
    have "u < length (th_list s)" "th_phase (th_list s ! u) = Starting" "th_arg (th_list s ! u) = b"
      using w by (auto simp: waiting_at_def)
    with inv y show ?thesis
      by (auto simp: mt_inv_def list_all2_conv_all_nth thread_ok_def split: phase.splits)
  qed
  have ended: "ended s' = ended s"
    by (auto simp: ended_def s' nth_append)
  have "image_mset ((!) (rs @ [x])) (mset_set (ended s)) = image_mset ((!) rs) (mset_set (ended s))"
    by (rule image_mset_cong) (simp add: ended_def nth_append len)
  then have "mset (th_called s') = image_mset ((!) (rs @ [x])) (mset_set (ended s'))"
    using inv ended by (simp add: mt_inv_def s')
  moreover have "\<exists>u. waiting_at s' u b" if "th_heap s' b \<noteq> None" for b
    using that inv wait by (cases "b = a") (auto simp: mt_inv_def s' a)
  moreover have "u = v" if "waiting_at s' u b" "waiting_at s' v b" for u v b
    using that inv used a(1) unfolding wait mt_inv_def by (metis option.distinct(1))
  ultimately show ?thesis
    using all by (simp add: mt_inv_def)
qed

lemma entry_inv:
  assumes inv: "mt_inv rs s" and step: "thread_entry t s = Some s'"
  shows "mt_inv rs s'"
proof -
  let ?r = "th_list s ! t"
  have len: "length (th_list s) = length rs"
    by (rule mt_inv_length [OF inv])
  obtain x where t: "t < length (th_list s)" "th_phase ?r = Starting" "th_heap s (th_arg ?r) = Some x"
      and s': "s' = s\<lparr>th_heap := (th_heap s)(th_arg ?r := None), th_list := (th_list s)[t := ?r\<lparr>th_phase := Calling x\<rparr>]\<rparr>"
    using step by (auto simp: thread_entry_def Let_def split: if_splits phase.splits Option.bind_splits)
  have here: "waiting_at s t (th_arg ?r)"
    using t by (simp add: waiting_at_def)
  have wait: "waiting_at s' u b \<longleftrightarrow> waiting_at s u b \<and> u \<noteq> t" for u b
    using t(1) by (cases "u = t") (auto simp: waiting_at_def s')
  have only: "u = t" if "waiting_at s u (th_arg ?r)" for u
    using inv that here by (auto simp: mt_inv_def)
  have ok: "thread_ok s (th_list s ! u) (rs ! u)" if "u < length rs" for u
    using inv that by (auto simp: mt_inv_def list_all2_conv_all_nth)
  have "thread_ok s' (th_list s' ! u) (rs ! u)" if u: "u < length rs" for u
  proof (cases "u = t")
    case True
    with ok [OF u] t show ?thesis
      by (auto simp: thread_ok_def s')
  next
    case False
    then have "\<not> waiting_at s u (th_arg ?r)"
      using only by blast
    with ok [OF u] u len False show ?thesis
      by (auto simp: thread_ok_def waiting_at_def s' split: phase.splits)
  qed
  then have all: "list_all2 (thread_ok s') (th_list s') rs"
    using len by (simp add: list_all2_conv_all_nth s')
  have "ended s' = ended s"
    using t by (auto simp: ended_def s' nth_list_update)
  moreover have "th_called s' = th_called s"
    by (simp add: s')
  moreover have "\<exists>u. waiting_at s' u b" if "th_heap s' b \<noteq> None" for b
  proof -
    have b: "b \<noteq> th_arg ?r" "th_heap s b \<noteq> None"
      using that by (auto simp: s' split: if_splits)
    then obtain u where "waiting_at s u b"
      using inv by (auto simp: mt_inv_def)
    with b(1) show ?thesis
      unfolding wait by (auto simp: waiting_at_def)
  qed
  ultimately show ?thesis
    using inv all by (auto simp: mt_inv_def wait)
qed

lemma call_inv:
  assumes inv: "mt_inv rs s" and step: "thread_call t s = Some s'"
  shows "mt_inv rs s'"
proof -
  let ?r = "th_list s ! t"
  have len: "length (th_list s) = length rs"
    by (rule mt_inv_length [OF inv])
  obtain x where t: "t < length (th_list s)" "th_phase ?r = Calling x"
      and s': "s' = s\<lparr>th_list := (th_list s)[t := ?r\<lparr>th_phase := Ended\<rparr>], th_called := th_called s @ [x]\<rparr>"
    using step by (auto simp: thread_call_def Let_def split: if_splits phase.splits)
  have ok: "thread_ok s (th_list s ! u) (rs ! u)" if "u < length rs" for u
    using inv that by (auto simp: mt_inv_def list_all2_conv_all_nth)
  have x: "x = rs ! t"
    using ok [of t] t len by (simp add: thread_ok_def)
  have wait: "waiting_at s' u b \<longleftrightarrow> waiting_at s u b" for u b
    using t by (cases "u = t") (auto simp: waiting_at_def s')
  have "thread_ok s' (th_list s' ! u) (rs ! u)" if u: "u < length rs" for u
    using ok [OF u] u len t by (cases "u = t") (auto simp: thread_ok_def s' split: phase.splits)
  then have all: "list_all2 (thread_ok s') (th_list s') rs"
    using len by (simp add: list_all2_conv_all_nth s')
  have "ended s' = insert t (ended s)" "t \<notin> ended s"
    using t by (auto simp: ended_def s' nth_list_update)
  then have "mset (th_called s') = image_mset ((!) rs) (mset_set (ended s'))"
    using inv by (simp add: mt_inv_def s' x)
  moreover have "th_heap s' = th_heap s"
    by (simp add: s')
  ultimately show ?thesis
    using inv all by (auto simp: mt_inv_def wait)
qed

lemma mt_reach_inv: "mt_reach rs s \<Longrightarrow> mt_inv rs s"
proof (induction rule: mt_reach.induct)
  case mt_start
  then show ?case
    by (simp add: mt_inv_def no_threads_def waiting_at_def ended_def)
next
  case mt_thread0
  then show ?case
    by (auto simp: method_thread0_def bind_eq_Some_conv intro: spawned_inv)
next
  case mt_thread1
  then show ?case
    by (auto simp: method_thread1_def bind_eq_Some_conv intro: spawned_inv)
next
  case mt_thread2
  then show ?case
    by (auto simp: method_thread2_def bind_eq_Some_conv intro: spawned_inv)
next
  case mt_thread3
  then show ?case
    by (auto simp: method_thread3_def bind_eq_Some_conv intro: spawned_inv)
qed (auto intro: entry_inv call_inv)

section \<open>Calls as jobs of the pool\<close>

text \<open>
  \<open>addObjJob\<close> makes the block and adds a job with its address; \<open>func\<close>, the function of the job,
  calls the method and then deletes the block. The jobs of the pool are the addresses.
\<close>

definition addObjJob :: "nat \<Rightarrow> 'o \<Rightarrow> 'm \<Rightarrow> 'a \<Rightarrow> (nat \<rightharpoonup> ('o, 'm, 'a) bound_call) \<Rightarrow> nat pool
    \<Rightarrow> (add_result \<times> (nat \<rightharpoonup> ('o, 'm, 'a) bound_call) \<times> nat pool) option" where
  "addObjJob a ob m a1 h p = do {
     h \<leftarrow> new_call a (Call1 ob m a1) h;
     Some (case addJob a p of (r, p) \<Rightarrow> (r, h, p))
   }"

definition objfunc :: "nat \<Rightarrow> (nat \<rightharpoonup> 'x) \<Rightarrow> ('x \<times> (nat \<rightharpoonup> 'x)) option" where
  "objfunc a h = do { x \<leftarrow> h a; Some (x, h(a := None)) }"

text \<open>
  The blocks, the pool, and what has happened: the blocks of rejected jobs, the calls that were
  added, and the calls that were made.
\<close>

record 'x obj_pool =
  ob_heap :: "nat \<rightharpoonup> 'x"
  ob_sys :: "nat pool_sys"
  ob_lost :: "nat set"
  ob_added :: "'x list"
  ob_called :: "'x list"

definition new_obj_pool :: "nat \<Rightarrow> bool \<Rightarrow> 'x obj_pool" where
  "new_obj_pool sz blocking = \<lparr>ob_heap = (\<lambda>_. None), ob_sys = init_pool sz blocking, ob_lost = {}, ob_added = [],
     ob_called = []\<rparr>"

inductive obj_reach :: "nat \<Rightarrow> bool \<Rightarrow> ('o, 'm, 'a) bound_call obj_pool \<Rightarrow> bool" for sz blocking where
  obj_start: "obj_reach sz blocking (new_obj_pool sz blocking)"
| obj_added:
  "obj_reach sz blocking s \<Longrightarrow> pills (ob_sys s) = None \<Longrightarrow>
   addObjJob a ob m a1 (ob_heap s) (pool (ob_sys s)) = Some (Added, h, p) \<Longrightarrow>
   obj_reach sz blocking (s\<lparr>ob_heap := h,
     ob_sys := (ob_sys s)\<lparr>pool := p, accepted := accepted (ob_sys s) @ [a]\<rparr>, ob_added := ob_added s @ [Call1 ob m a1]\<rparr>)"
| obj_rejected:
  "obj_reach sz blocking s \<Longrightarrow>
   addObjJob a ob m a1 (ob_heap s) (pool (ob_sys s)) = Some (Rejected, h, p) \<Longrightarrow>
   obj_reach sz blocking (s\<lparr>ob_heap := h, ob_lost := insert a (ob_lost s)\<rparr>)"
| obj_run:
  "obj_reach sz blocking s \<Longrightarrow> work (ob_sys s) t = Running a \<Longrightarrow> objfunc a (ob_heap s) = Some (x, h) \<Longrightarrow>
   obj_reach sz blocking (s\<lparr>ob_heap := h,
     ob_sys := (ob_sys s)\<lparr>work := (work (ob_sys s))(t := Take_Next), ran := ran (ob_sys s) @ [a]\<rparr>,
     ob_called := ob_called s @ [x]\<rparr>)"
| obj_pool:
  "obj_reach sz blocking s \<Longrightarrow> pool_step (ob_sys s) p \<Longrightarrow> accepted p = accepted (ob_sys s) \<Longrightarrow>
   ran p = ran (ob_sys s) \<Longrightarrow> obj_reach sz blocking (s\<lparr>ob_sys := p\<rparr>)"

lemma addObjJobD:
  assumes "addObjJob a ob m a1 h p = Some (r, h', p')"
  shows "h a = None" "h' = h(a \<mapsto> Call1 ob m a1)" "addJob a p = (r, p')"
  using assms by (cases "addJob a p"; auto simp: addObjJob_def new_call_def split: if_splits)+

lemma obj_reach_pool: "obj_reach sz blocking s \<Longrightarrow> pool_reach sz blocking (ob_sys s)"
proof (induction rule: obj_reach.induct)
  case obj_start
  then show ?case
    by (simp add: new_obj_pool_def pool_reach.start)
next
  case (obj_added s a ob m a1 h p)
  show ?case
    using pool_reach.step [OF obj_added.IH p_add [OF obj_added.hyps(2) addObjJobD(3) [OF obj_added.hyps(3)]]] by simp
next
  case (obj_run s t a x h)
  then show ?case
    using pool_reach.step [OF obj_run.IH p_run] by simp
qed (auto intro: pool_reach.step)

text \<open>
  A block that is not lost is in use from the time its job is accepted until it has run, and what
  has been added and not been called is in these blocks.
\<close>

definition obj_inv :: "'x obj_pool \<Rightarrow> bool" where
  "obj_inv s \<longleftrightarrow> ob_lost s \<subseteq> dom (ob_heap s) \<and> finite (dom (ob_heap s)) \<and>
     (\<forall>a. count (mset (accepted (ob_sys s))) a
        = count (mset (ran (ob_sys s))) a + (if a \<in> dom (ob_heap s) - ob_lost s then 1 else 0)) \<and>
     mset (ob_added s)
       = mset (ob_called s) + image_mset (\<lambda>a. the (ob_heap s a)) (mset_set (dom (ob_heap s) - ob_lost s))"

lemma obj_invI:
  assumes "ob_lost s \<subseteq> dom (ob_heap s)" "finite (dom (ob_heap s))"
    and "\<And>a. count (mset (accepted (ob_sys s))) a
        = count (mset (ran (ob_sys s))) a + (if a \<in> dom (ob_heap s) - ob_lost s then 1 else 0)"
    and "mset (ob_added s)
       = mset (ob_called s) + image_mset (\<lambda>a. the (ob_heap s a)) (mset_set (dom (ob_heap s) - ob_lost s))"
  shows "obj_inv s"
  using assms by (simp add: obj_inv_def)

lemma obj_invD:
  assumes "obj_inv s"
  shows "ob_lost s \<subseteq> dom (ob_heap s)" "finite (dom (ob_heap s))"
    "count (mset (accepted (ob_sys s))) a
        = count (mset (ran (ob_sys s))) a + (if a \<in> dom (ob_heap s) - ob_lost s then 1 else 0)"
    "mset (ob_added s)
       = mset (ob_called s) + image_mset (\<lambda>a. the (ob_heap s a)) (mset_set (dom (ob_heap s) - ob_lost s))"
  using assms by (simp_all add: obj_inv_def)

lemma running_in_use:
  assumes "pool_inv sz (ob_sys s)" "obj_inv s" "work (ob_sys s) t = Running a"
  shows "a \<in> dom (ob_heap s) - ob_lost s"
proof -
  obtain js k where "queue_split sz (ob_sys s) js k"
    by (rule pool_invE [OF assms(1)])
  then have "count (mset (accepted (ob_sys s))) a
      = count (mset (ran (ob_sys s))) a + running (ob_sys s) a + count (mset js) a"
    by (simp add: queue_split_def)
  moreover have "finite {u. work (ob_sys s) u = Running a}"
    by (rule pool_inv_finite [OF assms(1)]) simp
  then have "0 < running (ob_sys s) a"
    using assms(3) by (auto simp: running_def card_gt_0_iff)
  ultimately show ?thesis
    using obj_invD(3) [OF assms(2), of a] by (simp split: if_splits)
qed

text \<open>The blocks of other addresses keep their calls.\<close>

lemma same_blocks:
  assumes "\<And>b. b \<in> L \<Longrightarrow> h b = h' b"
  shows "image_mset (\<lambda>b. the (h b)) (mset_set L) = image_mset (\<lambda>b. the (h' b)) (mset_set L)"
proof (cases "finite L")
  case True
  with assms show ?thesis
    by (intro image_mset_cong) simp
qed simp

text \<open>An accepted job: its wrapper is a new block, which the queue now owns.\<close>

lemma obj_added_inv:
  assumes "obj_inv s" "addObjJob a ob m a1 (ob_heap s) (pool (ob_sys s)) = Some (Added, h, p)"
  shows "obj_inv (s\<lparr>ob_heap := h,
     ob_sys := (ob_sys s)\<lparr>pool := p, accepted := accepted (ob_sys s) @ [a]\<rparr>, ob_added := ob_added s @ [Call1 ob m a1]\<rparr>)"
    (is "obj_inv ?s")
proof -
  note a = addObjJobD(1,2) [OF assms(2)] and inv = obj_invD [OF assms(1)]
  let ?L = "dom (ob_heap s) - ob_lost s"
  have new: "a \<notin> ob_lost s" "a \<notin> dom (ob_heap s)"
    using inv(1) a(1) by auto
  have dom: "dom h = insert a (dom (ob_heap s))" "dom h - ob_lost s = insert a ?L"
    using new a by auto
  have blocks: "image_mset (\<lambda>b. the (h b)) (mset_set ?L) = image_mset (\<lambda>b. the (ob_heap s b)) (mset_set ?L)"
    by (rule same_blocks) (use new a in auto)
  show ?thesis
  proof (rule obj_invI)
    show "count (mset (accepted (ob_sys ?s))) b
      = count (mset (ran (ob_sys ?s))) b + (if b \<in> dom (ob_heap ?s) - ob_lost ?s then 1 else 0)" for b
      using inv(3) [of b] new dom(2) by (cases "b = a") simp_all
    show "mset (ob_added ?s)
       = mset (ob_called ?s) + image_mset (\<lambda>a. the (ob_heap ?s a)) (mset_set (dom (ob_heap ?s) - ob_lost ?s))"
      using inv(2,4) blocks dom(2) new by (simp add: a(2))
  qed (use inv(1,2) dom(1) in auto)
qed

text \<open>A rejected job: the wrapper stays in the heap, and nobody owns it.\<close>

lemma obj_rejected_inv:
  assumes "obj_inv s" "addObjJob a ob m a1 (ob_heap s) (pool (ob_sys s)) = Some (Rejected, h, p)"
  shows "obj_inv (s\<lparr>ob_heap := h, ob_lost := insert a (ob_lost s)\<rparr>)"
proof -
  note a = addObjJobD(1,2) [OF assms(2)] and inv = obj_invD [OF assms(1)]
  let ?L = "dom (ob_heap s) - ob_lost s"
  have dom: "dom h = insert a (dom (ob_heap s))" "dom h - insert a (ob_lost s) = ?L" "a \<notin> ?L"
    using a by auto
  have blocks: "image_mset (\<lambda>b. the (h b)) (mset_set ?L) = image_mset (\<lambda>b. the (ob_heap s b)) (mset_set ?L)"
    by (rule same_blocks) (use a in auto)
  show ?thesis
    by (rule obj_invI) (use inv dom blocks in auto)
qed

text \<open>A job that is called: its wrapper is taken from the heap.\<close>

lemma obj_run_inv:
  assumes "obj_inv s" "a \<in> dom (ob_heap s) - ob_lost s" "objfunc a (ob_heap s) = Some (x, h)"
  shows "obj_inv (s\<lparr>ob_heap := h,
     ob_sys := (ob_sys s)\<lparr>work := (work (ob_sys s))(t := Take_Next), ran := ran (ob_sys s) @ [a]\<rparr>,
     ob_called := ob_called s @ [x]\<rparr>)" (is "obj_inv ?s")
proof -
  have h: "ob_heap s a = Some x" "h = (ob_heap s)(a := None)"
    using assms(3) by (auto simp: objfunc_def bind_eq_Some_conv)
  note inv = obj_invD [OF assms(1)] and a = assms(2)
  let ?L = "dom (ob_heap s) - ob_lost s"
  have dom: "dom h = dom (ob_heap s) - {a}" "dom h - ob_lost s = ?L - {a}"
    using h by auto
  have "mset_set ?L = add_mset a (mset_set (?L - {a}))"
    using a inv(2) by (simp add: mset_set.remove)
  moreover have "image_mset (\<lambda>b. the (h b)) (mset_set (?L - {a}))
      = image_mset (\<lambda>b. the (ob_heap s b)) (mset_set (?L - {a}))"
    by (rule same_blocks) (use h in auto)
  ultimately have blocks: "image_mset (\<lambda>b. the (ob_heap s b)) (mset_set ?L)
      = add_mset x (image_mset (\<lambda>b. the (h b)) (mset_set (dom h - ob_lost s)))"
    using h(1) dom(2) by simp
  show ?thesis
  proof (rule obj_invI)
    show "count (mset (accepted (ob_sys ?s))) b
      = count (mset (ran (ob_sys ?s))) b + (if b \<in> dom (ob_heap ?s) - ob_lost ?s then 1 else 0)" for b
      using inv(3) [of b] a dom(2) by (cases "b = a") auto
    show "ob_lost ?s \<subseteq> dom (ob_heap ?s)"
      using inv(1) a dom(1) by auto
    show "mset (ob_added ?s)
       = mset (ob_called ?s) + image_mset (\<lambda>a. the (ob_heap ?s a)) (mset_set (dom (ob_heap ?s) - ob_lost ?s))"
      using inv(4) blocks by simp
  qed (use inv(2) dom(1) in simp)
qed

lemma obj_reach_inv: "obj_reach sz blocking s \<Longrightarrow> obj_inv s"
proof (induction rule: obj_reach.induct)
  case obj_start
  then show ?case
    by (simp add: obj_inv_def new_obj_pool_def init_pool_def)
next
  case (obj_added s a ob m a1 h p)
  then show ?case
    by (intro obj_added_inv)
next
  case (obj_rejected s a ob m a1 h p)
  then show ?case
    by (intro obj_rejected_inv)
next
  case (obj_run s t a x h)
  then show ?case
    by (intro obj_run_inv running_in_use [OF pool_reach_inv [OF obj_reach_pool [OF obj_run.hyps(1)]]])
next
  case (obj_pool s p)
  then show ?case
    by (simp add: obj_inv_def)
qed

section \<open>Properties\<close>

text \<open>
  C35. \<open>method_thread\<close>, for methods with up to three arguments, any number of threads and any
  order in which they start and go on: a thread that starts finds its block, it calls the method it
  was made for with the arguments it was given, and when all threads have ended every call was made
  exactly once and every block is deleted.
\<close>

theorem method_threads_call:
  assumes "mt_reach rs s"
  shows "length (th_list s) = length rs \<and>
    (\<forall>t < length rs. case th_phase (th_list s ! t) of
        Starting \<Rightarrow> thread_entry t s \<noteq> None
      | Calling x \<Rightarrow> x = rs ! t
      | Ended \<Rightarrow> rs ! t \<in> set (th_called s)) \<and>
    (list_all (\<lambda>r. th_phase r = Ended) (th_list s) \<longrightarrow>
       th_heap s = (\<lambda>_. None) \<and> mset (th_called s) = mset rs)"
proof (intro conjI allI impI)
  note inv = mt_reach_inv [OF assms]
  show len: "length (th_list s) = length rs"
    by (rule mt_inv_length [OF inv])
  have called: "set (th_called s) = (!) rs ` ended s"
    using inv by (metis (no_types, lifting) finite_ended finite_set_mset_mset_set mt_inv_def set_image_mset set_mset_mset)
  show "case th_phase (th_list s ! t) of
        Starting \<Rightarrow> thread_entry t s \<noteq> None
      | Calling x \<Rightarrow> x = rs ! t
      | Ended \<Rightarrow> rs ! t \<in> set (th_called s)" if t: "t < length rs" for t
  proof -
    have "thread_ok s (th_list s ! t) (rs ! t)"
      using inv t by (auto simp: mt_inv_def list_all2_conv_all_nth)
    with t len show ?thesis
      by (auto simp: thread_ok_def thread_entry_def called ended_def Let_def split: phase.splits)
  qed
  assume all: "list_all (\<lambda>r. th_phase r = Ended) (th_list s)"
  then have none: "\<not> waiting_at s t a" for t a
    by (auto simp: waiting_at_def list_all_length)
  then show "th_heap s = (\<lambda>_. None)"
    using inv by (auto simp: mt_inv_def fun_eq_iff)
  have "ended s = {0..<length rs}"
    using all len by (auto simp: ended_def list_all_length)
  then have "mset (th_called s) = mset (map ((!) rs) [0..<length rs])"
    using inv by (simp add: mt_inv_def del: map_nth)
  also have "\<dots> = mset rs"
    by (simp only: map_nth)
  finally show "mset (th_called s) = mset rs" .
qed

text \<open>Two threads, of which the second starts and ends before the first.\<close>

definition demo_threads :: "(nat, nat, nat) bound_call threads" where
  "demo_threads = \<lparr>th_heap = (\<lambda>_. None), th_list = [\<lparr>th_arg = 7, th_detached = False, th_phase = Ended\<rparr>,
     \<lparr>th_arg = 8, th_detached = True, th_phase = Ended\<rparr>], th_called = [Call0 4 5, Call1 1 2 3]\<rparr>"

lemma demo_threads_reach: "mt_reach [Call1 1 2 3, Call0 4 5] demo_threads"
proof -
  let ?r = "\<lparr>th_arg = 7, th_detached = False, th_phase = Starting\<rparr> :: (nat, nat, nat) bound_call thread"
  let ?q = "\<lparr>th_arg = 8, th_detached = True, th_phase = Starting\<rparr> :: (nat, nat, nat) bound_call thread"
  let ?s1 = "\<lparr>th_heap = [7 \<mapsto> Call1 1 2 3], th_list = [?r], th_called = []\<rparr>"
  let ?s2 = "\<lparr>th_heap = [7 \<mapsto> Call1 1 2 3, 8 \<mapsto> Call0 4 5], th_list = [?r, ?q], th_called = []\<rparr>"
  let ?s3 = "\<lparr>th_heap = [7 \<mapsto> Call1 1 2 3], th_list = [?r, ?q\<lparr>th_phase := Calling (Call0 4 5)\<rparr>], th_called = []\<rparr>"
  let ?s4 = "\<lparr>th_heap = [7 \<mapsto> Call1 1 2 3], th_list = [?r, ?q\<lparr>th_phase := Ended\<rparr>], th_called = [Call0 4 5]\<rparr>"
  let ?s5 = "\<lparr>th_heap = (\<lambda>_. None), th_list = [?r\<lparr>th_phase := Calling (Call1 1 2 3)\<rparr>, ?q\<lparr>th_phase := Ended\<rparr>],
    th_called = [Call0 4 5]\<rparr>"
  have "mt_reach ([] @ [Call1 1 2 3]) ?s1"
    by (rule mt_thread1 [OF mt_start, of 0 7 _ False])
      (simp add: method_thread1_def new_call_def method_thread_parent_def no_threads_def)
  then have "mt_reach (([] @ [Call1 1 2 3]) @ [Call0 4 5]) ?s2"
    by (rule mt_thread0 [of _ _ 0 8 _ True]) (simp add: method_thread0_def new_call_def method_thread_parent_def)
  then have "mt_reach (([] @ [Call1 1 2 3]) @ [Call0 4 5]) ?s3"
    by (rule mt_entry [of _ _ 1]) (auto simp: thread_entry_def)
  then have "mt_reach (([] @ [Call1 1 2 3]) @ [Call0 4 5]) ?s4"
    by (rule mt_call [of _ _ 1]) (simp add: thread_call_def)
  then have "mt_reach (([] @ [Call1 1 2 3]) @ [Call0 4 5]) ?s5"
    by (rule mt_entry [of _ _ 0]) (auto simp: thread_entry_def)
  then have "mt_reach (([] @ [Call1 1 2 3]) @ [Call0 4 5]) demo_threads"
    by (rule mt_call [of _ _ 0]) (simp add: thread_call_def demo_threads_def)
  then show ?thesis
    by simp
qed

theorem method_threads_call_witness:
  "th_heap demo_threads = (\<lambda>_. None) \<and> mset (th_called demo_threads) = mset [Call1 1 2 3, Call0 4 5]"
proof -
  have "list_all (\<lambda>r. th_phase r = Ended) (th_list demo_threads)"
    by (simp add: demo_threads_def)
  then show ?thesis
    using method_threads_call [OF demo_threads_reach] by blast
qed

text \<open>
  C34. \<open>addObjJob\<close> on the pool: a worker that runs a job finds its block in use, and when all
  workers have exited every call that was added has been made exactly once; what is left in memory
  then are exactly the blocks of the jobs the full queue rejected.
\<close>

theorem object_jobs_called:
  assumes "obj_reach sz blocking s"
  shows "(\<forall>t a. work (ob_sys s) t = Running a \<longrightarrow> objfunc a (ob_heap s) \<noteq> None) \<and>
    (0 < sz \<and> (\<forall>t. work (ob_sys s) t = Exited) \<longrightarrow>
       dom (ob_heap s) = ob_lost s \<and> mset (ob_called s) = mset (ob_added s))"
proof (intro conjI allI impI)
  note pool = pool_reach_inv [OF obj_reach_pool [OF assms]]
  note inv = obj_reach_inv [OF assms]
  show "objfunc a (ob_heap s) \<noteq> None" if "work (ob_sys s) t = Running a" for t a
    using running_in_use [OF pool inv that] by (auto simp: objfunc_def)
  assume over: "0 < sz \<and> (\<forall>t. work (ob_sys s) t = Exited)"
  then have "live (ob_sys s) = 0" "running (ob_sys s) a = 0" for a
    by (simp_all add: live_def running_def)
  moreover obtain js k where "queue_split sz (ob_sys s) js k"
    by (rule pool_invE [OF pool])
  ultimately have "count (mset (accepted (ob_sys s))) a = count (mset (ran (ob_sys s))) a" for a
    using over by (simp add: queue_split_def)
  then have "dom (ob_heap s) - ob_lost s = {}"
    using inv by (auto simp: obj_inv_def split: if_splits)
  then show "dom (ob_heap s) = ob_lost s" "mset (ob_called s) = mset (ob_added s)"
    using inv by (auto simp: obj_inv_def)
qed

text \<open>One worker, which runs one job and exits.\<close>

definition demo_objects :: "(nat, nat, nat) bound_call obj_pool" where
  "demo_objects = \<lparr>ob_heap = (\<lambda>_. None), ob_sys = \<lparr>pool = \<lparr>jobq = \<lparr>elems = [], cap = 100\<rparr>, nthreads = 1,
     blockadd = False\<rparr>, work = (\<lambda>_. Exited), pills = Some 0, accepted = [7], ran = [7]\<rparr>, ob_lost = {},
     ob_added = [Call1 1 2 3], ob_called = [Call1 1 2 3]\<rparr>"

lemma demo_objects_reach: "obj_reach 1 False demo_objects"
proof -
  let ?p = "\<lambda>js. \<lparr>jobq = \<lparr>elems = js, cap = 100\<rparr>, nthreads = 1, blockadd = False\<rparr> :: nat pool"
  let ?c = "Call1 1 2 3 :: (nat, nat, nat) bound_call"
  let ?w = "work (init_pool 1 False :: nat pool_sys)"
  let ?s = "\<lambda>js w n r c h. \<lparr>ob_heap = h, ob_sys = \<lparr>pool = ?p js, work = w, pills = n, accepted = [7], ran = r\<rparr>,
    ob_lost = {}, ob_added = [?c], ob_called = c\<rparr>"
  note defs = new_obj_pool_def init_pool_def new_pool_def new_fifo_def
  have enq: "enq j \<lparr>elems = [], cap = 100\<rparr> = Some \<lparr>elems = [j], cap = 100\<rparr>" for j :: "nat job"
    by (simp add: enq_def)
  have take: "takeJob (?p [j]) = Some (j \<noteq> Pill, j, ?p [])" for j
    by (simp add: takeJob_def get_fifo_def deq_def)
  have "obj_reach 1 False (?s [Job 7] ?w None [] [] [7 \<mapsto> ?c])"
    using obj_added [OF obj_start [of 1 False], of 7 1 2 3 "[7 \<mapsto> ?c]" "?p [Job 7]"]
    by (simp add: defs addObjJob_def new_call_def addJob_def enq)
  from obj_pool [OF this, of "\<lparr>pool = ?p [], work = ?w(0 := Running 7), pills = None, accepted = [7], ran = []\<rparr>"]
  have "obj_reach 1 False (?s [] (?w(0 := Running 7)) None [] [] [7 \<mapsto> ?c])"
    using p_take [of "\<lparr>pool = ?p [Job 7], work = ?w, pills = None, accepted = [7], ran = []\<rparr>" 0 True "Job 7" "?p []"] take [of "Job 7"]
    by (simp add: init_pool_def)
  from obj_run [OF this, of 0 7 ?c "\<lambda>_. None"]
  have "obj_reach 1 False (?s [] (?w(0 := Take_Next)) None [7] [?c] (\<lambda>_. None))"
    by (simp add: objfunc_def fun_eq_iff)
  from obj_pool [OF this, of "\<lparr>pool = ?p [], work = ?w(0 := Take_Next), pills = Some 1, accepted = [7], ran = [7]\<rparr>"]
  have "obj_reach 1 False (?s [] (?w(0 := Take_Next)) (Some 1) [7] [?c] (\<lambda>_. None))"
    using p_shutdown [of "\<lparr>pool = ?p [], work = ?w(0 := Take_Next), pills = None, accepted = [7], ran = [7]\<rparr>"]
    by simp
  from obj_pool [OF this, of "\<lparr>pool = ?p [Pill], work = ?w(0 := Take_Next), pills = Some 0, accepted = [7], ran = [7]\<rparr>"]
  have "obj_reach 1 False (?s [Pill] (?w(0 := Take_Next)) (Some 0) [7] [?c] (\<lambda>_. None))"
    using p_pill [of "\<lparr>pool = ?p [], work = ?w(0 := Take_Next), pills = Some 1, accepted = [7], ran = [7]\<rparr>" 0] enq [of Pill]
    by simp
  from obj_pool [OF this, of "\<lparr>pool = ?p [], work = ?w(0 := Exited), pills = Some 0, accepted = [7], ran = [7]\<rparr>"]
  have "obj_reach 1 False (?s [] (?w(0 := Exited)) (Some 0) [7] [?c] (\<lambda>_. None))"
    using p_take [of "\<lparr>pool = ?p [Pill], work = ?w(0 := Take_Next), pills = Some 0, accepted = [7], ran = [7]\<rparr>" 0 False Pill "?p []"] take [of Pill]
    by simp
  moreover have "?w(0 := Exited) = (\<lambda>_. Exited)"
    by (auto simp: init_pool_def)
  ultimately show ?thesis
    by (simp add: demo_objects_def)
qed

theorem object_jobs_called_witness:
  "dom (ob_heap demo_objects) = ob_lost demo_objects \<and>
    mset (ob_called demo_objects) = mset (ob_added demo_objects)"
proof -
  have "work (ob_sys demo_objects) t = Exited" for t
    by (simp add: demo_objects_def)
  then show ?thesis
    using object_jobs_called [OF demo_objects_reach] by simp
qed

end
