(* ===== verification/Lock_Server.thy ===== *)
theory Lock_Server
  imports Prelude
begin

text \<open>
  The lock server of \<open>lock_server.cc\<close>: its handlers, which run under the mutex \<open>m\<close>, cut at the
  place where \<open>acquire\<close> waits on the condition variable of the lock; the contract of a lock
  service, which the handlers keep; and the step relation of the worker threads that run them.
\<close>

section \<open>Data\<close>

text \<open>\<open>lock_protocol.h\<close> and \<open>lock_server.h\<close>. A client id is an \<open>int\<close> compared for equality.\<close>

datatype lock_status = OK | RETRY | RPCERR | NOENT | IOERR

datatype lock_state = FREE | LOCKED

record lock_handle =
  lh_state :: lock_state
  lh_clt :: u32

record lock_server =
  locks :: "u64 \<rightharpoonup> lock_handle"
  nacquire :: int

definition new_lock_handle :: lock_handle where
  "new_lock_handle = \<lparr>lh_state = FREE, lh_clt = -1\<rparr>"

definition new_lock_server :: lock_server where
  "new_lock_server = \<lparr>locks = (\<lambda>_. None), nacquire = 0\<rparr>"

section \<open>Handlers\<close>

definition ls_stat :: "u32 \<Rightarrow> u64 \<Rightarrow> lock_server \<Rightarrow> lock_status \<times> int" where
  "ls_stat clt lid s = (OK, nacquire s)"

text \<open>The first part of \<open>acquire\<close>: a lock nobody has asked for is created free.\<close>

definition ensure_lock :: "u64 \<Rightarrow> lock_server \<Rightarrow> lock_server" where
  "ensure_lock lid s =
     (case locks s lid of
        None \<Rightarrow> s\<lparr>locks := (locks s)(lid \<mapsto> new_lock_handle)\<rparr>
      | Some _ \<Rightarrow> s)"

text \<open>
  The test of the waiting loop and what follows it: \<open>None\<close> sends the thread into
  \<open>pthread_cond_wait\<close>, and it runs the test again when it comes out.
\<close>

definition try_lock :: "u32 \<Rightarrow> u64 \<Rightarrow> lock_server \<Rightarrow> (lock_status \<times> lock_server) option" where
  "try_lock clt lid s =
     (case locks s lid of
        None \<Rightarrow> None
      | Some lh \<Rightarrow>
          if lh_state lh \<noteq> FREE then None
          else Some (OK, s\<lparr>nacquire := nacquire s + 1,
                           locks := (locks s)(lid \<mapsto> lh\<lparr>lh_state := LOCKED, lh_clt := clt\<rparr>)\<rparr>))"

definition acquire :: "u32 \<Rightarrow> u64 \<Rightarrow> lock_server \<Rightarrow> (lock_status \<times> lock_server) option" where
  "acquire clt lid s = try_lock clt lid (ensure_lock lid s)"

text \<open>\<open>release\<close> returns its status; a status of \<open>OK\<close> has signalled the condition variable.\<close>

definition release :: "u32 \<Rightarrow> u64 \<Rightarrow> lock_server \<Rightarrow> lock_status \<times> lock_server" where
  "release clt lid s =
     (case locks s lid of
        Some lh \<Rightarrow>
          if lh_clt lh \<noteq> clt then (RPCERR, s)
          else (OK, s\<lparr>locks := (locks s)(lid \<mapsto> lh\<lparr>lh_state := FREE, lh_clt := -1\<rparr>),
                      nacquire := nacquire s - 1\<rparr>)
      | None \<Rightarrow> (RPCERR, s))"

section \<open>The contract of a lock service\<close>

text \<open>
  \<open>holder s lid\<close> is the client that holds the lock \<open>lid\<close>. A service may refuse clients (the
  set \<open>ids\<close> are those it serves). From the laws alone, the grants and the releases of a lock
  alternate, and only the holder releases.
\<close>

datatype lock_op = Acquire u32 u64 | Release u32 u64

datatype lock_event = Granted u32 u64 | Released u32 u64

fun event_lock :: "lock_event \<Rightarrow> u64" where
  "event_lock (Granted c l) = l"
| "event_lock (Released c l) = l"

fun op_client :: "lock_op \<Rightarrow> u32" where
  "op_client (Acquire c l) = c"
| "op_client (Release c l) = c"

text \<open>The events of one lock, from the state where \<open>h\<close> is the holder.\<close>

fun alternates :: "u32 option \<Rightarrow> lock_event list \<Rightarrow> bool" where
  "alternates h [] = True"
| "alternates h (Granted c l # es) = (h = None \<and> alternates (Some c) es)"
| "alternates h (Released c l # es) = (h = Some c \<and> alternates None es)"

locale lock_service =
  fixes acq :: "u32 \<Rightarrow> u64 \<Rightarrow> 's \<Rightarrow> 's option"
    and rel :: "u32 \<Rightarrow> u64 \<Rightarrow> 's \<Rightarrow> 's option"
    and holder :: "'s \<Rightarrow> u64 \<Rightarrow> u32 option"
    and inv :: "'s \<Rightarrow> bool"
    and ids :: "u32 set"
  assumes acq_grants: "inv s \<Longrightarrow> c \<in> ids \<Longrightarrow> acq c l s = Some s' \<Longrightarrow>
      holder s l = None \<and> holder s' = (holder s)(l := Some c) \<and> inv s'"
    and acq_free: "inv s \<Longrightarrow> c \<in> ids \<Longrightarrow> holder s l = None \<Longrightarrow> acq c l s \<noteq> None"
    and rel_frees: "inv s \<Longrightarrow> c \<in> ids \<Longrightarrow> rel c l s = Some s' \<Longrightarrow>
      holder s l = Some c \<and> holder s' = (holder s)(l := None) \<and> inv s'"
    and rel_holder: "inv s \<Longrightarrow> c \<in> ids \<Longrightarrow> holder s l = Some c \<Longrightarrow> rel c l s \<noteq> None"
begin

text \<open>The events of a sequence of calls; a call that is blocked or refused leaves none.\<close>

fun events :: "lock_op list \<Rightarrow> 's \<Rightarrow> lock_event list" where
  "events [] s = []"
| "events (Acquire c l # os) s =
     (case acq c l s of None \<Rightarrow> events os s | Some s' \<Rightarrow> Granted c l # events os s')"
| "events (Release c l # os) s =
     (case rel c l s of None \<Rightarrow> events os s | Some s' \<Rightarrow> Released c l # events os s')"

lemma events_alternate:
  assumes "inv s" "\<forall>x \<in> set os. op_client x \<in> ids"
  shows "alternates (holder s l) (filter (\<lambda>e. event_lock e = l) (events os s))"
  using assms
proof (induction os s rule: events.induct)
  case (2 c l' os s)
  then show ?case
    by (cases "acq c l' s") (auto dest: acq_grants)
next
  case (3 c l' os s)
  then show ?case
    by (cases "rel c l' s") (auto dest: rel_frees)
qed simp

text \<open>A blocked or refused call is one that would have broken the exclusion.\<close>

lemma acq_blocked_iff: "inv s \<Longrightarrow> c \<in> ids \<Longrightarrow> acq c l s = None \<longleftrightarrow> holder s l \<noteq> None"
  using acq_free acq_grants by (metis not_Some_eq)

lemma rel_refused_iff: "inv s \<Longrightarrow> c \<in> ids \<Longrightarrow> rel c l s = None \<longleftrightarrow> holder s l \<noteq> Some c"
  using rel_holder rel_frees by (metis not_Some_eq)

end

section \<open>The handlers keep it\<close>

definition ls_holder :: "lock_server \<Rightarrow> u64 \<Rightarrow> u32 option" where
  "ls_holder s lid =
     (case locks s lid of
        None \<Rightarrow> None
      | Some lh \<Rightarrow> if lh_state lh = LOCKED then Some (lh_clt lh) else None)"

text \<open>
  The id of a free lock is \<open>-1\<close>, no client is \<open>-1\<close>, and \<open>nacquire\<close> counts the locks that are
  held.
\<close>

definition ls_inv :: "lock_server \<Rightarrow> bool" where
  "ls_inv s \<longleftrightarrow> (\<forall>lid lh. locks s lid = Some lh \<longrightarrow> (lh_state lh = FREE \<longleftrightarrow> lh_clt lh = -1))
     \<and> finite (dom (locks s)) \<and> nacquire s = int (card {lid. ls_holder s lid \<noteq> None})"

definition ls_acquire :: "u32 \<Rightarrow> u64 \<Rightarrow> lock_server \<Rightarrow> lock_server option" where
  "ls_acquire clt lid s = map_option snd (acquire clt lid s)"

definition ls_release :: "u32 \<Rightarrow> u64 \<Rightarrow> lock_server \<Rightarrow> lock_server option" where
  "ls_release clt lid s = (case release clt lid s of (OK, s') \<Rightarrow> Some s' | _ \<Rightarrow> None)"

lemma lock_state_neq [simp]: "st = LOCKED \<longleftrightarrow> st \<noteq> FREE"
  by (cases st) auto

lemma finite_holders: "ls_inv s \<Longrightarrow> finite {lid. ls_holder s lid \<noteq> None}"
  by (rule finite_subset [of _ "dom (locks s)"])
    (auto simp: ls_inv_def ls_holder_def split: option.splits)

lemma ls_holder_ensure [simp]: "ls_holder (ensure_lock lid s) = ls_holder s"
  by (auto simp: ls_holder_def ensure_lock_def new_lock_handle_def split: option.splits)

lemma ls_inv_ensure [simp]: "ls_inv s \<Longrightarrow> ls_inv (ensure_lock lid s)"
  by (simp add: ls_inv_def) (auto simp: ensure_lock_def new_lock_handle_def split: option.splits)

lemma ls_inv_new: "ls_inv new_lock_server"
  by (simp add: ls_inv_def ls_holder_def new_lock_server_def)

lemma try_lock_Some:
  assumes "ls_inv s" "clt \<noteq> -1" "try_lock clt lid s = Some (r, s')"
  shows "r = OK \<and> ls_holder s lid = None \<and> ls_holder s' = (ls_holder s)(lid := Some clt)
    \<and> nacquire s' = nacquire s + 1 \<and> dom (locks s') = dom (locks s) \<and> ls_inv s'"
proof -
  obtain lh where lh: "locks s lid = Some lh" "lh_state lh = FREE"
    and s': "r = OK" "s' = s\<lparr>nacquire := nacquire s + 1,
      locks := (locks s)(lid \<mapsto> lh\<lparr>lh_state := LOCKED, lh_clt := clt\<rparr>)\<rparr>"
    using assms(3) by (auto simp: try_lock_def split: option.splits if_splits)
  have none: "ls_holder s lid = None" and upd: "ls_holder s' = (ls_holder s)(lid := Some clt)"
    using lh s' by (auto simp: ls_holder_def)
  then have "{l. ls_holder s' l \<noteq> None} = insert lid {l. ls_holder s l \<noteq> None}"
    by auto
  then have "card {l. ls_holder s' l \<noteq> None} = card {l. ls_holder s l \<noteq> None} + 1"
    using finite_holders [OF assms(1)] none by simp
  then have "ls_inv s'"
    using assms(1,2) s' unfolding ls_inv_def by (auto split: if_splits)
  with none upd lh s' show ?thesis
    by auto
qed

lemma release_OK:
  assumes "ls_inv s" "clt \<noteq> -1" "release clt lid s = (OK, s')"
  shows "ls_holder s lid = Some clt \<and> ls_holder s' = (ls_holder s)(lid := None)
    \<and> nacquire s' = nacquire s - 1 \<and> dom (locks s') = dom (locks s) \<and> ls_inv s'"
proof -
  obtain lh where lh: "locks s lid = Some lh" "lh_clt lh = clt"
    and s': "s' = s\<lparr>locks := (locks s)(lid \<mapsto> lh\<lparr>lh_state := FREE, lh_clt := -1\<rparr>),
                      nacquire := nacquire s - 1\<rparr>"
    using assms(3) by (auto simp: release_def split: option.splits if_splits)
  have "lh_state lh \<noteq> FREE"
    using assms(1,2) lh by (auto simp: ls_inv_def)
  then have some: "ls_holder s lid = Some clt" and upd: "ls_holder s' = (ls_holder s)(lid := None)"
    using lh s' by (auto simp: ls_holder_def)
  then have "{l. ls_holder s l \<noteq> None} = insert lid {l. ls_holder s' l \<noteq> None}"
    by auto
  then have "card {l. ls_holder s l \<noteq> None} = card {l. ls_holder s' l \<noteq> None} + 1"
    using finite_holders [OF assms(1)] upd by simp
  then have "ls_inv s'"
    using assms(1) s' unfolding ls_inv_def by (auto split: if_splits)
  with some upd lh s' show ?thesis
    by auto
qed

lemma release_not_OK: "release clt lid s = (r, s') \<Longrightarrow> r \<noteq> OK \<Longrightarrow> r = RPCERR \<and> s' = s"
  by (auto simp: release_def split: option.splits if_splits)

interpretation ls: lock_service ls_acquire ls_release ls_holder ls_inv "- {-1}"
proof
  fix s s' :: lock_server and c :: u32 and l :: u64
  assume inv: "ls_inv s" and c: "c \<in> - {-1}"
  show "ls_holder s l = None \<and> ls_holder s' = (ls_holder s)(l := Some c) \<and> ls_inv s'"
    if "ls_acquire c l s = Some s'"
    using that try_lock_Some [of "ensure_lock l s" c l] inv c
    by (auto simp: ls_acquire_def acquire_def)
  show "ls_acquire c l s \<noteq> None" if "ls_holder s l = None"
    using that by (auto simp: ls_acquire_def acquire_def try_lock_def ensure_lock_def ls_holder_def
        new_lock_handle_def split: option.splits if_splits)
  show "ls_holder s l = Some c \<and> ls_holder s' = (ls_holder s)(l := None) \<and> ls_inv s'"
    if "ls_release c l s = Some s'"
    using that release_OK [of s c l] inv c
    by (auto simp: ls_release_def split: prod.splits lock_status.splits)
  show "ls_release c l s \<noteq> None" if "ls_holder s l = Some c"
    using that by (auto simp: ls_release_def release_def ls_holder_def split: option.splits if_splits)
qed

section \<open>Properties\<close>

text \<open>
  C37. The handlers, call by call: \<open>acquire\<close> waits exactly while the lock is held and otherwise
  makes its client the holder; \<open>release\<close> answers \<open>OK\<close> exactly to the holder and frees the lock,
  and answers \<open>RPCERR\<close> to everyone else and for unknown locks, without changing anything.
\<close>

theorem lock_handlers_correct:
  assumes "ls_inv s" "clt \<noteq> -1"
  shows "(case acquire clt lid s of
      None \<Rightarrow> ls_holder s lid \<noteq> None
    | Some (r, s') \<Rightarrow> ls_holder s lid = None \<and> r = OK \<and> ls_inv s' \<and>
        ls_holder s' = (ls_holder s)(lid := Some clt)) \<and>
    (case release clt lid s of (r, s') \<Rightarrow>
      if ls_holder s lid = Some clt
      then r = OK \<and> ls_inv s' \<and> ls_holder s' = (ls_holder s)(lid := None)
      else r = RPCERR \<and> s' = s)"
proof
  have ids: "clt \<in> - {-1}"
    using assms(2) by simp
  show "case acquire clt lid s of
      None \<Rightarrow> ls_holder s lid \<noteq> None
    | Some (r, s') \<Rightarrow> ls_holder s lid = None \<and> r = OK \<and> ls_inv s' \<and>
        ls_holder s' = (ls_holder s)(lid := Some clt)"
    using ls.acq_blocked_iff [OF assms(1) ids, of lid]
      try_lock_Some [OF ls_inv_ensure [OF assms(1)] assms(2)]
    by (auto simp: ls_acquire_def acquire_def split: option.splits)
  show "case release clt lid s of (r, s') \<Rightarrow>
      if ls_holder s lid = Some clt
      then r = OK \<and> ls_inv s' \<and> ls_holder s' = (ls_holder s)(lid := None)
      else r = RPCERR \<and> s' = s"
    using ls.rel_refused_iff [OF assms(1) ids, of lid] release_OK [OF assms, of lid]
      release_not_OK [of clt lid s]
    by (auto simp: ls_release_def split: prod.splits lock_status.splits)
qed

theorem lock_handlers_correct_witness:
  "(case acquire 5 9 new_lock_server of
      None \<Rightarrow> ls_holder new_lock_server 9 \<noteq> None
    | Some (r, s') \<Rightarrow> ls_holder new_lock_server 9 = None \<and> r = OK \<and> ls_inv s' \<and>
        ls_holder s' = (ls_holder new_lock_server)(9 := Some 5)) \<and>
    (case release 5 9 new_lock_server of (r, s') \<Rightarrow>
      if ls_holder new_lock_server 9 = Some 5
      then r = OK \<and> ls_inv s' \<and> ls_holder s' = (ls_holder new_lock_server)(9 := None)
      else r = RPCERR \<and> s' = new_lock_server)"
  by (rule lock_handlers_correct [OF ls_inv_new]) simp

text \<open>
  The code relies on no client having the id \<open>-1\<close>, the mark of a free lock: to such a
  client \<open>release\<close> answers \<open>OK\<close> for a lock nobody holds, and the count of held locks that
  \<open>stat\<close> reports goes below zero.
\<close>

theorem release_of_free_lock_accepted:
  "(case acquire 5 9 new_lock_server of None \<Rightarrow> None
    | Some (_, s1) \<Rightarrow> (case release 5 9 s1 of (_, s2) \<Rightarrow>
        case release (-1) 9 s2 of (r, s3) \<Rightarrow> Some (ls_holder s2 9, r, ls_stat 5 9 s3)))
   = Some (None, OK, (OK, -1))"
  by code_simp

end
