(* ===== verification/Lock_Threads.thy ===== *)
theory Lock_Threads
  imports Lock_Server
begin

text \<open>
  The worker threads of the RPC server (\<open>ThrPool\<close>) running the handlers of the lock server.
  The mutex makes a handler atomic up to \<open>pthread_cond_wait\<close>, so a step is a handler run to its
  end or to its wait, a thread leaving its wait, or the test after that. The scheduler, the
  clients and spurious wake-ups are the choices of the relation.
\<close>

datatype worker =
    Idle
  | Waiting u32 u64  \<comment> \<open>inside \<open>pthread_cond_wait\<close> of the lock\<close>
  | Woken u32 u64  \<comment> \<open>out of it, before the test of the loop\<close>

record lock_sys =
  server :: lock_server
  workers :: nat
  thr :: "nat \<Rightarrow> worker"

definition init_lock_sys :: "nat \<Rightarrow> lock_sys" where
  "init_lock_sys n = \<lparr>server = new_lock_server, workers = n, thr = (\<lambda>_. Idle)\<rparr>"

text \<open>A client id is the nonce of its \<open>rpcc\<close>, a value of \<open>random()\<close>: it has 31 bits.\<close>

definition client_nonce :: "u32 \<Rightarrow> bool" where
  "client_nonce c \<longleftrightarrow> unat c < 2 ^ 31"

datatype lock_label =
    L_grant nat u32 u64 | L_block nat u32 u64 | L_release nat u32 u64 | L_refuse nat u32 u64
  | L_stat nat | L_wake nat | L_rewait nat

definition waiting_on :: "lock_sys \<Rightarrow> u64 \<Rightarrow> nat set" where
  "waiting_on s l = {t. \<exists>c. thr s t = Waiting c l}"

text \<open>\<open>pthread_cond_signal\<close> wakes at least one of the waiting threads: the set \<open>W\<close>.\<close>

fun wake :: "worker \<Rightarrow> worker" where
  "wake (Waiting c l) = Woken c l"
| "wake w = w"

definition wake_set :: "nat set \<Rightarrow> (nat \<Rightarrow> worker) \<Rightarrow> nat \<Rightarrow> worker" where
  "wake_set W th = (\<lambda>t. if t \<in> W then wake (th t) else th t)"

inductive lock_step :: "lock_sys \<Rightarrow> lock_label \<Rightarrow> lock_sys \<Rightarrow> bool" where
  call_grant:
  "t < workers s \<Longrightarrow> thr s t = Idle \<Longrightarrow> client_nonce c \<Longrightarrow>
   acquire c l (server s) = Some (r, ls') \<Longrightarrow>
   lock_step s (L_grant t c l) (s\<lparr>server := ls'\<rparr>)"
| call_block:
  "t < workers s \<Longrightarrow> thr s t = Idle \<Longrightarrow> client_nonce c \<Longrightarrow> acquire c l (server s) = None \<Longrightarrow>
   lock_step s (L_block t c l)
     (s\<lparr>server := ensure_lock l (server s), thr := (thr s)(t := Waiting c l)\<rparr>)"
| spurious:
  "thr s t = Waiting c l \<Longrightarrow> lock_step s (L_wake t) (s\<lparr>thr := (thr s)(t := Woken c l)\<rparr>)"
| resume_grant:
  "thr s t = Woken c l \<Longrightarrow> try_lock c l (server s) = Some (r, ls') \<Longrightarrow>
   lock_step s (L_grant t c l) (s\<lparr>server := ls', thr := (thr s)(t := Idle)\<rparr>)"
| resume_wait:
  "thr s t = Woken c l \<Longrightarrow> try_lock c l (server s) = None \<Longrightarrow>
   lock_step s (L_rewait t) (s\<lparr>thr := (thr s)(t := Waiting c l)\<rparr>)"
| call_release:
  "t < workers s \<Longrightarrow> thr s t = Idle \<Longrightarrow> client_nonce c \<Longrightarrow>
   release c l (server s) = (OK, ls') \<Longrightarrow>
   W \<subseteq> waiting_on s l \<Longrightarrow> waiting_on s l \<noteq> {} \<longrightarrow> W \<noteq> {} \<Longrightarrow>
   lock_step s (L_release t c l) (s\<lparr>server := ls', thr := wake_set W (thr s)\<rparr>)"
| call_refused:
  "t < workers s \<Longrightarrow> thr s t = Idle \<Longrightarrow> client_nonce c \<Longrightarrow>
   release c l (server s) = (r, ls') \<Longrightarrow> r \<noteq> OK \<Longrightarrow>
   lock_step s (L_refuse t c l) (s\<lparr>server := ls'\<rparr>)"
| call_stat:
  "t < workers s \<Longrightarrow> thr s t = Idle \<Longrightarrow> ls_stat c l (server s) = (r, n) \<Longrightarrow>
   lock_step s (L_stat t) s"

inductive_cases lock_stepE: "lock_step s e s'"

inductive lock_reach :: "nat \<Rightarrow> lock_sys \<Rightarrow> bool" for n where
  start: "lock_reach n (init_lock_sys n)"
| step: "lock_reach n s \<Longrightarrow> lock_step s e s' \<Longrightarrow> lock_reach n s'"

section \<open>Invariant\<close>

definition blocked_on :: "worker \<Rightarrow> u64 option" where
  "blocked_on w = (case w of Idle \<Rightarrow> None | Waiting c l \<Rightarrow> Some l | Woken c l \<Rightarrow> Some l)"

definition worker_ok :: "lock_server \<Rightarrow> worker \<Rightarrow> bool" where
  "worker_ok ls w \<longleftrightarrow> (case w of Idle \<Rightarrow> True
     | Waiting c l \<Rightarrow> client_nonce c \<and> locks ls l \<noteq> None
     | Woken c l \<Rightarrow> client_nonce c \<and> locks ls l \<noteq> None)"

text \<open>
  No wake-up is lost: while a lock is free and a thread waits for it, another thread that was
  woken for it has yet to run the test of its loop.
\<close>

definition lock_sys_inv :: "lock_sys \<Rightarrow> bool" where
  "lock_sys_inv s \<longleftrightarrow> ls_inv (server s) \<and> (\<forall>t. worker_ok (server s) (thr s t))
     \<and> (\<forall>l t c. ls_holder (server s) l = None \<longrightarrow> thr s t = Waiting c l \<longrightarrow>
          (\<exists>t' c'. thr s t' = Woken c' l))"

lemma client_nonce_valid: "client_nonce c \<Longrightarrow> c \<noteq> -1"
  by (auto simp: client_nonce_def unsigned_minus_1_eq_mask mask_eq_exp_minus_1)

lemma worker_ok_mono:
  "worker_ok ls w \<Longrightarrow> dom (locks ls) \<subseteq> dom (locks ls') \<Longrightarrow> worker_ok ls' w"
  by (auto simp: worker_ok_def split: worker.splits)

lemma worker_ok_wake [simp]: "worker_ok ls (wake w) = worker_ok ls w"
  by (cases w) (simp_all add: worker_ok_def)

lemma dom_ensure: "dom (locks (ensure_lock l s)) = insert l (dom (locks s))"
  by (auto simp: ensure_lock_def split: option.splits)

lemma acquire_Some:
  assumes "ls_inv s" "clt \<noteq> -1" "acquire clt lid s = Some (r, s')"
  shows "ls_holder s lid = None \<and> ls_holder s' = (ls_holder s)(lid := Some clt)
    \<and> dom (locks s') = insert lid (dom (locks s)) \<and> ls_inv s'"
  using try_lock_Some [of "ensure_lock lid s" clt lid r s'] assms
  by (simp add: acquire_def dom_ensure)

lemma acquire_None:
  assumes "ls_inv s" "clt \<noteq> -1" "acquire clt lid s = None"
  shows "ls_holder s lid \<noteq> None"
  using assms ls.acq_free [of s clt lid] by (auto simp: ls_acquire_def)

lemma try_lock_None:
  assumes "locks s lid \<noteq> None" "try_lock clt lid s = None"
  shows "ls_holder s lid \<noteq> None"
  using assms by (auto simp: try_lock_def ls_holder_def split: if_splits)

lemma lock_sys_invI:
  assumes "ls_inv ls'" "\<And>t. worker_ok ls' (th t)"
    and "\<And>l t c. ls_holder ls' l = None \<Longrightarrow> th t = Waiting c l \<Longrightarrow> \<exists>t' c'. th t' = Woken c' l"
  shows "lock_sys_inv (s\<lparr>server := ls', thr := th\<rparr>)"
  using assms by (simp add: lock_sys_inv_def)

lemma lock_sys_invD:
  assumes "lock_sys_inv s"
  shows "ls_inv (server s)" "worker_ok (server s) (thr s t)"
    "ls_holder (server s) l = None \<Longrightarrow> thr s t = Waiting c l \<Longrightarrow> \<exists>t' c'. thr s t' = Woken c' l"
  using assms unfolding lock_sys_inv_def by blast+

lemma lock_sys_inv_server:
  "lock_sys_inv s \<Longrightarrow> ls_inv ls' \<Longrightarrow> dom (locks (server s)) \<subseteq> dom (locks ls') \<Longrightarrow>
   (\<And>l. ls_holder ls' l = None \<Longrightarrow> ls_holder (server s) l = None) \<Longrightarrow>
   lock_sys_inv (s\<lparr>server := ls'\<rparr>)"
  unfolding lock_sys_inv_def by (simp, meson worker_ok_mono)

text \<open>
  A step that changes one thread and frees no lock: the thread may leave the woken threads of
  a lock, or join the waiting threads of one, only while that lock is held.
\<close>

lemma lock_sys_inv_thread:
  assumes inv: "lock_sys_inv s" and ls': "ls_inv ls'" "dom (locks (server s)) \<subseteq> dom (locks ls')"
    and held: "\<And>l. ls_holder ls' l = None \<Longrightarrow> ls_holder (server s) l = None"
    and w: "worker_ok ls' w"
    and leave: "\<And>c l. thr s t = Woken c l \<Longrightarrow> ls_holder ls' l \<noteq> None"
    and enter: "\<And>c l. w = Waiting c l \<Longrightarrow> ls_holder ls' l \<noteq> None"
  shows "lock_sys_inv (s\<lparr>server := ls', thr := (thr s)(t := w)\<rparr>)"
proof (rule lock_sys_invI)
  fix u
  show "worker_ok ls' (((thr s)(t := w)) u)"
    using w worker_ok_mono [OF lock_sys_invD(2) [OF inv] ls'(2)] by simp
next
  fix l u c
  assume *: "ls_holder ls' l = None" "((thr s)(t := w)) u = Waiting c l"
  then have "thr s u = Waiting c l"
    using enter by (auto split: if_splits)
  then obtain t' c' where t': "thr s t' = Woken c' l"
    using lock_sys_invD(3) [OF inv] held [OF *(1)] by blast
  then have "t' \<noteq> t"
    using leave *(1) by auto
  with t' show "\<exists>t' c'. ((thr s)(t := w)) t' = Woken c' l"
    by (intro exI [of _ t']) auto
qed (rule ls')

lemma inv_call_grant:
  assumes "lock_sys_inv s" "client_nonce c" "acquire c l (server s) = Some (r, ls')"
  shows "lock_sys_inv (s\<lparr>server := ls'\<rparr>)"
  using acquire_Some [OF lock_sys_invD(1) [OF assms(1)] client_nonce_valid [OF assms(2)] assms(3)]
  by (intro lock_sys_inv_server [OF assms(1)]) (auto split: if_splits)

lemma inv_call_block:
  assumes "lock_sys_inv s" "client_nonce c" "thr s t = Idle" "acquire c l (server s) = None"
  shows "lock_sys_inv (s\<lparr>server := ensure_lock l (server s), thr := (thr s)(t := Waiting c l)\<rparr>)"
proof (rule lock_sys_inv_thread [OF assms(1)])
  show "worker_ok (ensure_lock l (server s)) (Waiting c l)"
    using assms(2) dom_ensure [of l "server s"] by (auto simp: worker_ok_def)
  show "ls_holder (ensure_lock l (server s)) l' \<noteq> None" if "Waiting c l = Waiting c' l'" for c' l'
    using that acquire_None [OF lock_sys_invD(1) [OF assms(1)] client_nonce_valid [OF assms(2)]
        assms(4)] by simp
qed (use assms lock_sys_invD(1) in \<open>auto simp: dom_ensure\<close>)

lemma inv_spurious:
  assumes "lock_sys_inv s" "thr s t = Waiting c l"
  shows "lock_sys_inv (s\<lparr>thr := (thr s)(t := Woken c l)\<rparr>)"
proof -
  have "worker_ok (server s) (Woken c l)"
    using lock_sys_invD(2) [OF assms(1), of t] assms(2) by (simp add: worker_ok_def)
  then have "lock_sys_inv (s\<lparr>server := server s, thr := (thr s)(t := Woken c l)\<rparr>)"
    using assms lock_sys_invD(1) by (intro lock_sys_inv_thread) auto
  then show ?thesis
    by simp
qed

lemma woken_worker:
  assumes "lock_sys_inv s" "thr s t = Woken c l"
  shows "c \<noteq> -1" "client_nonce c" "locks (server s) l \<noteq> None"
  using lock_sys_invD(2) [OF assms(1), of t] assms(2) client_nonce_valid
  by (auto simp: worker_ok_def)

lemma inv_resume_grant:
  assumes "lock_sys_inv s" "thr s t = Woken c l" "try_lock c l (server s) = Some (r, ls')"
  shows "lock_sys_inv (s\<lparr>server := ls', thr := (thr s)(t := Idle)\<rparr>)"
proof -
  have "ls_holder ls' = (ls_holder (server s))(l := Some c)"
    "dom (locks ls') = dom (locks (server s))" "ls_inv ls'"
    using try_lock_Some [OF lock_sys_invD(1) [OF assms(1)] woken_worker(1) [OF assms(1,2)] assms(3)]
    by blast+
  then show ?thesis
    using assms by (intro lock_sys_inv_thread) (auto simp: worker_ok_def split: if_splits)
qed

lemma inv_resume_wait:
  assumes "lock_sys_inv s" "thr s t = Woken c l" "try_lock c l (server s) = None"
  shows "lock_sys_inv (s\<lparr>thr := (thr s)(t := Waiting c l)\<rparr>)"
proof -
  note woken = woken_worker [OF assms(1,2)]
  have "ls_holder (server s) l \<noteq> None"
    using try_lock_None [OF woken(3) assms(3)] .
  then have "lock_sys_inv (s\<lparr>server := server s, thr := (thr s)(t := Waiting c l)\<rparr>)"
    using assms woken lock_sys_invD(1) [OF assms(1)]
    by (intro lock_sys_inv_thread) (auto simp: worker_ok_def)
  then show ?thesis
    by simp
qed

lemma wake_set_Waiting: "wake_set W th u = Waiting c l \<longleftrightarrow> u \<notin> W \<and> th u = Waiting c l"
  by (cases "th u") (auto simp: wake_set_def)

lemma wake_set_Woken: "th u = Woken c l \<Longrightarrow> wake_set W th u = Woken c l"
  "u \<in> W \<Longrightarrow> th u = Waiting c l \<Longrightarrow> wake_set W th u = Woken c l"
  by (simp_all add: wake_set_def)

lemma inv_call_release:
  assumes "lock_sys_inv s" "client_nonce c" "release c l (server s) = (OK, ls')"
    "W \<subseteq> waiting_on s l" "waiting_on s l \<noteq> {} \<longrightarrow> W \<noteq> {}"
  shows "lock_sys_inv (s\<lparr>server := ls', thr := wake_set W (thr s)\<rparr>)"
proof -
  have ls': "ls_holder ls' = (ls_holder (server s))(l := None)"
    "dom (locks ls') = dom (locks (server s))" "ls_inv ls'"
    using release_OK [OF lock_sys_invD(1) [OF assms(1)] client_nonce_valid [OF assms(2)] assms(3)]
    by blast+
  show ?thesis
  proof (rule lock_sys_invI)
    show "worker_ok ls' (wake_set W (thr s) u)" for u
      using worker_ok_mono [OF lock_sys_invD(2) [OF assms(1)], of ls' u] ls'
      by (simp add: wake_set_def)
  next
    fix l' u c'
    assume *: "ls_holder ls' l' = None" "wake_set W (thr s) u = Waiting c' l'"
    show "\<exists>t' c''. wake_set W (thr s) t' = Woken c'' l'"
    proof (cases "l' = l")
      case True
      with * assms(4,5) obtain w d where "w \<in> W" "thr s w = Waiting d l"
        by (fastforce simp: waiting_on_def wake_set_Waiting)
      with True show ?thesis
        by (auto intro: wake_set_Woken)
    next
      case False
      with * ls' obtain t' c'' where "thr s t' = Woken c'' l'"
        using lock_sys_invD(3) [OF assms(1), of l' u c']
        by (auto simp: wake_set_Waiting)
      then show ?thesis
        by (auto intro: wake_set_Woken)
    qed
  qed (rule ls')
qed

lemmas lock_step_invs = inv_call_grant inv_call_block inv_spurious inv_resume_grant
  inv_resume_wait inv_call_release

lemma lock_step_inv:
  assumes "lock_step s e s'" "lock_sys_inv s"
  shows "lock_sys_inv s'"
  using assms
proof (induction rule: lock_step.induct)
  case (call_refused t s c l r ls')
  then show ?case
    by (auto dest: release_not_OK)
qed (auto intro: lock_step_invs)

lemma lock_sys_inv_init: "lock_sys_inv (init_lock_sys n)"
  by (simp add: lock_sys_inv_def init_lock_sys_def ls_inv_new worker_ok_def)

lemma lock_reach_inv: "lock_reach n s \<Longrightarrow> lock_sys_inv s"
  by (induction rule: lock_reach.induct) (auto intro: lock_sys_inv_init lock_step_inv)

lemma lock_reach_workers: "lock_reach n s \<Longrightarrow> workers s = n"
  by (induction rule: lock_reach.induct)
    (auto simp: init_lock_sys_def elim: lock_stepE)

section \<open>Progress and starvation\<close>

text \<open>Every thread of the pool is blocked in \<open>acquire\<close>, on a lock somebody holds.\<close>

definition all_blocked :: "lock_sys \<Rightarrow> bool" where
  "all_blocked s \<longleftrightarrow> (\<forall>t < workers s. \<exists>l. blocked_on (thr s t) = Some l \<and> ls_holder (server s) l \<noteq> None)
     \<and> (\<forall>t. \<not> t < workers s \<longrightarrow> thr s t = Idle)"

lemma try_lock_held: "ls_holder s l \<noteq> None \<Longrightarrow> try_lock c l s = None"
  by (auto simp: try_lock_def ls_holder_def split: option.splits if_splits)

lemma try_lock_free:
  "locks s l \<noteq> None \<Longrightarrow> ls_holder s l = None \<Longrightarrow> \<exists>s'. try_lock c l s = Some (OK, s')"
  by (auto simp: try_lock_def ls_holder_def split: option.splits if_splits)

lemma woken_gets_free_lock:
  assumes "lock_sys_inv s" "thr s t = Woken c l" "ls_holder (server s) l = None"
  shows "\<exists>s'. lock_step s (L_grant t c l) s'"
  using try_lock_free [OF woken_worker(3) [OF assms(1,2)] assms(3)] resume_grant [OF assms(2)]
  by blast

lemma all_blocked_held:
  assumes "all_blocked s" "thr s t = Woken c l"
  shows "ls_holder (server s) l \<noteq> None"
proof (cases "t < workers s")
  case True
  with assms(1) obtain l' where "blocked_on (thr s t) = Some l'" "ls_holder (server s) l' \<noteq> None"
    unfolding all_blocked_def by blast
  with assms(2) show ?thesis
    by (simp add: blocked_on_def)
qed (use assms in \<open>auto simp: all_blocked_def\<close>)

lemma all_blocked_step:
  assumes "lock_step s e s'" "all_blocked s"
  shows "all_blocked s' \<and> ls_holder (server s') = ls_holder (server s)"
  using assms
proof (induction rule: lock_step.induct)
  case (spurious s t c l)
  then show ?case
    by (auto simp: all_blocked_def blocked_on_def)
next
  case (resume_grant s t c l r ls')
  then show ?case
    using all_blocked_held try_lock_held by fastforce
next
  case (resume_wait s t c l)
  then show ?case
    by (auto simp: all_blocked_def blocked_on_def)
qed (auto simp: all_blocked_def blocked_on_def)

inductive lock_run :: "lock_sys \<Rightarrow> lock_label list \<Rightarrow> lock_sys \<Rightarrow> bool" where
  run_Nil: "lock_run s [] s"
| run_Cons: "lock_step s e s1 \<Longrightarrow> lock_run s1 es s2 \<Longrightarrow> lock_run s (e # es) s2"

lemma all_blocked_run:
  "lock_run s es s' \<Longrightarrow> all_blocked s \<Longrightarrow> all_blocked s' \<and> ls_holder (server s') = ls_holder (server s)"
proof (induction rule: lock_run.induct)
  case (run_Cons s e s1 es s2)
  then show ?case
    using all_blocked_step [OF run_Cons.hyps(1)] by auto
qed simp

text \<open>One client takes a lock, then asks for it again from every thread of the pool.\<close>

lemma starve_prefix:
  assumes "0 < n" "client_nonce c" "k \<le> n"
  shows "\<exists>s. lock_reach n s \<and> ls_holder (server s) l = Some c
    \<and> (\<forall>t. thr s t = (if t < k then Waiting c l else Idle))"
  using assms(3)
proof (induction k)
  case 0
  let ?s = "init_lock_sys n"
  have inv: "ls_inv (server ?s)" and c: "c \<noteq> -1"
    using lock_sys_inv_init lock_sys_invD(1) client_nonce_valid [OF assms(2)] by blast+
  have "ls_holder (server ?s) l = None"
    by (simp add: ls_holder_def init_lock_sys_def new_lock_server_def)
  then obtain r ls' where acq: "acquire c l (server ?s) = Some (r, ls')"
    using acquire_None [OF inv c] by (cases "acquire c l (server ?s)") auto
  have "lock_step ?s (L_grant 0 c l) (?s\<lparr>server := ls'\<rparr>)"
    by (rule call_grant [OF _ _ assms(2) acq]) (use assms(1) in \<open>simp_all add: init_lock_sys_def\<close>)
  then have "lock_reach n (?s\<lparr>server := ls'\<rparr>)"
    by (rule lock_reach.step [OF lock_reach.start])
  moreover have "ls_holder ls' l = Some c"
    using acquire_Some [OF inv c acq] by simp
  ultimately show ?case
    by (intro exI [of _ "?s\<lparr>server := ls'\<rparr>"]) (simp add: init_lock_sys_def)
next
  case (Suc k)
  then obtain s where s: "lock_reach n s" "ls_holder (server s) l = Some c"
      "\<forall>t. thr s t = (if t < k then Waiting c l else Idle)"
    by auto
  let ?s = "s\<lparr>server := ensure_lock l (server s), thr := (thr s)(k := Waiting c l)\<rparr>"
  have "acquire c l (server s) = None"
    using s(2) try_lock_held [of "ensure_lock l (server s)" l c] by (simp add: acquire_def)
  then have "lock_step s (L_block k c l) ?s"
    using Suc.prems s assms(2) lock_reach_workers [OF s(1)] by (intro call_block) auto
  then have "lock_reach n ?s"
    by (rule lock_reach.step [OF s(1)])
  with s show ?case
    by (intro exI [of _ ?s]) (auto simp: less_Suc_eq)
qed

lemma starvation_reachable:
  assumes "0 < n" "client_nonce c"
  shows "\<exists>s. lock_reach n s \<and> all_blocked s \<and> ls_holder (server s) l = Some c"
proof -
  obtain s where s: "lock_reach n s" "ls_holder (server s) l = Some c"
      "\<forall>t. thr s t = (if t < n then Waiting c l else Idle)"
    using starve_prefix [OF assms order_refl] by blast
  then have "all_blocked s"
    using lock_reach_workers [OF s(1)] by (auto simp: all_blocked_def blocked_on_def)
  with s show ?thesis
    by blast
qed

section \<open>Mutual exclusion of the threads\<close>

definition label_event :: "lock_label \<Rightarrow> lock_event list" where
  "label_event e = (case e of L_grant t c l \<Rightarrow> [Granted c l] | L_release t c l \<Rightarrow> [Released c l] | _ \<Rightarrow> [])"

definition run_events :: "lock_label list \<Rightarrow> u64 \<Rightarrow> lock_event list" where
  "run_events es l = filter (\<lambda>e. event_lock e = l) (concat (map label_event es))"

lemma run_events_simps [simp]:
  "run_events [] l = []"
  "run_events (e # es) l = filter (\<lambda>e. event_lock e = l) (label_event e) @ run_events es l"
  by (simp_all add: run_events_def)

text \<open>What a step does to the holders is what its label says.\<close>

lemma step_holder:
  assumes "lock_step s e s'" "lock_sys_inv s"
  shows "case e of
      L_grant t c l \<Rightarrow> ls_holder (server s) l = None \<and>
        ls_holder (server s') = (ls_holder (server s))(l := Some c)
    | L_release t c l \<Rightarrow> ls_holder (server s) l = Some c \<and>
        ls_holder (server s') = (ls_holder (server s))(l := None)
    | _ \<Rightarrow> ls_holder (server s') = ls_holder (server s)"
  using assms
proof (induction rule: lock_step.induct)
  case (call_grant t s c l r ls')
  then show ?case
    using acquire_Some [OF lock_sys_invD(1) client_nonce_valid] by auto
next
  case (resume_grant s t c l r ls')
  then show ?case
    using try_lock_Some [OF lock_sys_invD(1) woken_worker(1)] by auto
next
  case (call_release t s c l ls' W)
  then show ?case
    using release_OK [OF lock_sys_invD(1) client_nonce_valid] by auto
qed (auto dest: release_not_OK)

lemma run_alternates:
  "lock_run s es s' \<Longrightarrow> lock_sys_inv s \<Longrightarrow>
   alternates (ls_holder (server s) l) (run_events es l)"
proof (induction rule: lock_run.induct)
  case (run_Cons s e s1 es s2)
  then have "alternates (ls_holder (server s1) l) (run_events es l)"
    using lock_step_inv by blast
  with step_holder [OF run_Cons.hyps(1) run_Cons.prems] show ?case
    by (cases e) (auto simp: label_event_def split: if_splits)
qed simp

text \<open>
  The lock service as its clients see it: a table of holders, a grant of a free lock, a release by the
  holder, and answers that change nothing. A request blocks only on a lock that is held.
\<close>

inductive table_step :: "(u64 \<Rightarrow> u32 option) \<Rightarrow> lock_label \<Rightarrow> (u64 \<Rightarrow> u32 option) \<Rightarrow> bool" where
  t_grant: "h l = None \<Longrightarrow> table_step h (L_grant t c l) (h(l := Some c))"
| t_release: "h l = Some c \<Longrightarrow> table_step h (L_release t c l) (h(l := None))"
| t_refuse: "h l \<noteq> Some c \<Longrightarrow> table_step h (L_refuse t c l) h"
| t_block: "h l \<noteq> None \<Longrightarrow> table_step h (L_block t c l) h"
| t_stat: "table_step h (L_stat t) h"
| t_wake: "table_step h (L_wake t) h"
| t_rewait: "table_step h (L_rewait t) h"

inductive table_run :: "(u64 \<Rightarrow> u32 option) \<Rightarrow> lock_label list \<Rightarrow> (u64 \<Rightarrow> u32 option) \<Rightarrow> bool" where
  table_Nil: "table_run h [] h"
| table_Cons: "table_step h e h1 \<Longrightarrow> table_run h1 es h2 \<Longrightarrow> table_run h (e # es) h2"

lemma refused_not_holder:
  assumes "release c l s = (r, s')" "r \<noteq> OK"
  shows "ls_holder s l \<noteq> Some c"
  using assms by (auto simp: release_def ls_holder_def split: option.splits if_splits)

lemma step_refines:
  assumes "lock_step s e s'" "lock_sys_inv s"
  shows "table_step (ls_holder (server s)) e (ls_holder (server s'))"
  using step_holder [OF assms] assms
proof (induction rule: lock_step.induct [OF assms(1)])
  case (2 t s c l)
  then show ?case
    using acquire_None [OF lock_sys_invD(1) client_nonce_valid] by (auto intro: table_step.intros)
next
  case (7 t s c l r ls')
  then show ?case
    using refused_not_holder by (auto intro: table_step.intros)
qed (auto intro: table_step.intros)

lemma lock_run_refines:
  "lock_run s es s' \<Longrightarrow> lock_sys_inv s \<Longrightarrow> table_run (ls_holder (server s)) es (ls_holder (server s'))"
proof (induction rule: lock_run.induct)
  case (run_Cons s e s1 es s2)
  then show ?case
    using step_refines lock_step_inv table_Cons by blast
qed (rule table_Nil)

lemma all_blocked_quiet:
  "lock_run s es s' \<Longrightarrow> all_blocked s \<Longrightarrow> lock_sys_inv s \<Longrightarrow> concat (map label_event es) = []"
proof (induction rule: lock_run.induct)
  case (run_Cons s e s1 es s2)
  have "ls_holder (server s1) = ls_holder (server s)" "all_blocked s1"
    using all_blocked_step [OF run_Cons.hyps(1) run_Cons.prems(1)] by auto
  with step_holder [OF run_Cons.hyps(1) run_Cons.prems(2)] have "label_event e = []"
    by (auto simp: label_event_def fun_eq_iff split: lock_label.splits if_splits)
  with run_Cons lock_step_inv \<open>all_blocked s1\<close> show ?case
    by auto
qed simp

section \<open>Properties\<close>

text \<open>
  C18. Mutual exclusion: in every run of the server's threads, the grants and the releases of a
  lock alternate, starting with a grant, and a release is always by the client of the grant
  before it. So no two clients hold a lock at the same time, and no client takes it twice.
\<close>

theorem mutual_exclusion:
  assumes "lock_run (init_lock_sys n) es s"
  shows "alternates None (run_events es l)"
  using run_alternates [OF assms lock_sys_inv_init, of l]
  by (simp add: init_lock_sys_def ls_holder_def new_lock_server_def)

text \<open>
  A run of three threads: client 5 takes lock 9, clients 6 and 7 block on it, 5 releases, and 6
  gets it while 7 still waits.
\<close>

definition demo_run :: "lock_label list" where
  "demo_run = [L_grant 0 5 9, L_block 1 6 9, L_block 2 7 9, L_release 0 5 9, L_grant 1 6 9]"

definition demo_state :: "lock_server \<Rightarrow> worker \<Rightarrow> worker \<Rightarrow> lock_sys" where
  "demo_state ls w1 w2 = \<lparr>server = ls, workers = 3, thr = (\<lambda>_. Idle)(1 := w1, 2 := w2)\<rparr>"

definition demo_held :: "u32 \<Rightarrow> lock_server" where
  "demo_held c = \<lparr>locks = [9 \<mapsto> \<lparr>lh_state = LOCKED, lh_clt = c\<rparr>], nacquire = 1\<rparr>"

definition demo_free :: lock_server where
  "demo_free = \<lparr>locks = [9 \<mapsto> new_lock_handle], nacquire = 0\<rparr>"

lemma demo_nonces: "client_nonce 5" "client_nonce 6" "client_nonce 7"
  by (simp_all add: client_nonce_def)

lemma demo_steps:
  "lock_step (init_lock_sys 3) (L_grant 0 5 9) (demo_state (demo_held 5) Idle Idle)"
  "lock_step (demo_state (demo_held 5) Idle Idle) (L_block 1 6 9)
     (demo_state (demo_held 5) (Waiting 6 9) Idle)"
  "lock_step (demo_state (demo_held 5) (Waiting 6 9) Idle) (L_block 2 7 9)
     (demo_state (demo_held 5) (Waiting 6 9) (Waiting 7 9))"
  "lock_step (demo_state (demo_held 5) (Waiting 6 9) (Waiting 7 9)) (L_release 0 5 9)
     (demo_state demo_free (Woken 6 9) (Waiting 7 9))"
  "lock_step (demo_state demo_free (Woken 6 9) (Waiting 7 9)) (L_grant 1 6 9)
     (demo_state (demo_held 6) Idle (Waiting 7 9))"
proof -
  have "acquire 5 9 new_lock_server = Some (OK, demo_held 5)"
    by (simp add: acquire_def ensure_lock_def try_lock_def new_lock_server_def new_lock_handle_def
        demo_held_def)
  moreover have "(\<lambda>_. Idle)(1 := Idle, 2 := Idle) = (\<lambda>_ :: nat. Idle)"
    by auto
  ultimately show "lock_step (init_lock_sys 3) (L_grant 0 5 9) (demo_state (demo_held 5) Idle Idle)"
    using call_grant [of 0 "init_lock_sys 3" 5 9 OK "demo_held 5"] demo_nonces
    by (simp add: init_lock_sys_def demo_state_def)
  have ens: "ensure_lock 9 (demo_held 5) = demo_held 5"
    by (simp add: ensure_lock_def demo_held_def)
  have acq: "acquire c 9 (demo_held 5) = None" for c
    unfolding acquire_def ens by (simp add: try_lock_def demo_held_def)
  show "lock_step (demo_state (demo_held 5) Idle Idle) (L_block 1 6 9)
     (demo_state (demo_held 5) (Waiting 6 9) Idle)"
    using call_block [of 1 "demo_state (demo_held 5) Idle Idle" 6 9] acq ens demo_nonces
    by (simp add: demo_state_def fun_upd_twist)
  show "lock_step (demo_state (demo_held 5) (Waiting 6 9) Idle) (L_block 2 7 9)
     (demo_state (demo_held 5) (Waiting 6 9) (Waiting 7 9))"
    using call_block [of 2 "demo_state (demo_held 5) (Waiting 6 9) Idle" 7 9] acq ens demo_nonces
    by (simp add: demo_state_def)
  have "release 5 9 (demo_held 5) = (OK, demo_free)"
    by (simp add: release_def demo_held_def demo_free_def new_lock_handle_def)
  moreover have "wake_set {1} ((\<lambda>_. Idle)(1 := Waiting 6 9, 2 := Waiting 7 9))
      = (\<lambda>_. Idle)(1 := Woken 6 9, 2 := Waiting 7 9)"
    by (auto simp: wake_set_def)
  ultimately show "lock_step (demo_state (demo_held 5) (Waiting 6 9) (Waiting 7 9)) (L_release 0 5 9)
     (demo_state demo_free (Woken 6 9) (Waiting 7 9))"
    using call_release [of 0 "demo_state (demo_held 5) (Waiting 6 9) (Waiting 7 9)" 5 9 demo_free "{1}"]
      demo_nonces by (simp add: demo_state_def waiting_on_def)
  have "try_lock 6 9 demo_free = Some (OK, demo_held 6)"
    by (simp add: try_lock_def demo_held_def demo_free_def new_lock_handle_def)
  then show "lock_step (demo_state demo_free (Woken 6 9) (Waiting 7 9)) (L_grant 1 6 9)
     (demo_state (demo_held 6) Idle (Waiting 7 9))"
    using resume_grant [of "demo_state demo_free (Woken 6 9) (Waiting 7 9)" 1 6 9 OK "demo_held 6"]
    by (simp add: demo_state_def fun_upd_twist)
qed

lemma demo_run_possible: "lock_run (init_lock_sys 3) demo_run (demo_state (demo_held 6) Idle (Waiting 7 9))"
  unfolding demo_run_def
  by (rule run_Cons [OF demo_steps(1)], rule run_Cons [OF demo_steps(2)],
      rule run_Cons [OF demo_steps(3)], rule run_Cons [OF demo_steps(4)],
      rule run_Cons [OF demo_steps(5)], rule run_Nil)

theorem mutual_exclusion_witness: "alternates None (run_events demo_run 9)"
  by (rule mutual_exclusion [OF demo_run_possible])

text \<open>
  C4. The threads refine the table of holders: every run of the server, with its waits, wake-ups and
  signals, is a run of the atomic table with the same labels, from the table without holders to the
  one the server's state stands for.
\<close>

theorem threads_refine_table:
  assumes "lock_run (init_lock_sys n) es s"
  shows "table_run (\<lambda>_. None) es (ls_holder (server s))"
proof -
  have "ls_holder (server (init_lock_sys n)) = (\<lambda>_. None)"
    by (rule ext) (simp add: init_lock_sys_def ls_holder_def new_lock_server_def)
  with lock_run_refines [OF assms lock_sys_inv_init] show ?thesis
    by simp
qed

theorem threads_refine_table_witness:
  "table_run (\<lambda>_. None) demo_run (ls_holder (server (demo_state (demo_held 6) Idle (Waiting 7 9))))"
  by (rule threads_refine_table [OF demo_run_possible])

text \<open>
  C19. No wake-up is lost: in every reachable state, when a lock is free and a thread is still
  waiting for it, some thread of the pool can take the lock in its next step. Signalling one
  thread is therefore enough, although any thread may come out of the wait spuriously or find
  that another one was faster.
\<close>

theorem no_lost_wakeup:
  assumes "lock_reach n s" "ls_holder (server s) l = None" "thr s t = Waiting c l"
  shows "\<exists>t' c' s'. t' \<noteq> t \<and> lock_step s (L_grant t' c' l) s' \<and> ls_holder (server s') l = Some c'"
proof -
  note inv = lock_reach_inv [OF assms(1)]
  then obtain t' c' where t': "thr s t' = Woken c' l"
    using assms(2,3) unfolding lock_sys_inv_def by blast
  obtain s' where step: "lock_step s (L_grant t' c' l) s'"
    using woken_gets_free_lock [OF inv t' assms(2)] by blast
  moreover have "ls_holder (server s') l = Some c'"
    using step_holder [OF step inv] by simp
  moreover have "t' \<noteq> t"
    using t' assms(3) by auto
  ultimately show ?thesis
    by blast
qed

theorem no_lost_wakeup_witness:
  "\<exists>t' c' s'. t' \<noteq> 2 \<and> lock_step (demo_state demo_free (Woken 6 9) (Waiting 7 9)) (L_grant t' c' 9) s' \<and>
    ls_holder (server s') 9 = Some c'"
proof (rule no_lost_wakeup)
  show "lock_reach 3 (demo_state demo_free (Woken 6 9) (Waiting 7 9))"
    using lock_reach.start lock_reach.step demo_steps(1-4) by meson
qed (simp_all add: demo_state_def demo_free_def ls_holder_def new_lock_handle_def)

text \<open>
  \<open>stat\<close> answers the number of locks that are held at the moment, whatever lock it is
  asked about.
\<close>

theorem stat_counts_held_locks:
  assumes "lock_reach n s"
  shows "ls_stat c l (server s) = (OK, int (card {l. ls_holder (server s) l \<noteq> None}))"
  using lock_sys_invD(1) [OF lock_reach_inv [OF assms]] by (simp add: ls_stat_def ls_inv_def)

theorem stat_counts_held_locks_witness:
  "ls_stat 5 9 (server (init_lock_sys 2))
     = (OK, int (card {l. ls_holder (server (init_lock_sys 2)) l \<noteq> None}))"
  by (rule stat_counts_held_locks [OF lock_reach.start])

text \<open>
  C40. The waiting threads are threads of the pool: one client that holds a lock and asks for it
  once from every thread of the pool stops the server, because the release can no longer be
  served. From that state no run grants or releases anything, and the lock stays held.
\<close>

theorem pool_exhaustion_is_forever:
  assumes "0 < n" "client_nonce c"
  shows "\<exists>s. lock_reach n s \<and> ls_holder (server s) l = Some c \<and>
    (\<forall>es s'. lock_run s es s' \<longrightarrow>
      ls_holder (server s') l = Some c \<and> concat (map label_event es) = [])"
proof -
  obtain s where s: "lock_reach n s" "all_blocked s" "ls_holder (server s) l = Some c"
    using starvation_reachable [OF assms] by blast
  then have "ls_holder (server s') l = Some c \<and> concat (map label_event es) = []"
    if "lock_run s es s'" for es s'
    using that all_blocked_run [OF that] all_blocked_quiet [OF that s(2) lock_reach_inv [OF s(1)]] by simp
  with s show ?thesis
    by blast
qed

theorem pool_exhaustion_is_forever_witness:
  "\<exists>s. lock_reach 10 s \<and> ls_holder (server s) 9 = Some 5 \<and>
    (\<forall>es s'. lock_run s es s' \<longrightarrow>
      ls_holder (server s') 9 = Some 5 \<and> concat (map label_event es) = [])"
  by (rule pool_exhaustion_is_forever) (simp_all add: client_nonce_def)

end
