(* ===== verification/Lock_Tester.thy ===== *)
theory Lock_Tester
  imports Lock_Threads
begin

text \<open>
  The test program \<open>lock_tester.cc\<close>: the five tests as the programs of their threads, the
  counters of \<open>check_grant\<close> and \<open>check_release\<close>, and \<open>main\<close>, which starts the threads of a test
  when those of the test before have ended. The lock server is an argument, and what the tests
  show is proved from the contract \<open>lock_service\<close>.
\<close>

section \<open>The tests\<close>

text \<open>\<open>T_acquire i l\<close> is \<open>lc[i]->acquire(l)\<close>, \<open>T_grant l\<close> is \<open>check_grant(l)\<close>, and so on.\<close>

datatype tester_op =
    T_acquire nat u64
  | T_grant u64
  | T_check_release u64
  | T_release nat u64

definition lock_a :: u64 where "lock_a = 1"
definition lock_b :: u64 where "lock_b = 2"
definition lock_c :: u64 where "lock_c = 3"

definition tester_nt :: nat where "tester_nt = 10"

definition test1 :: "tester_op list" where
  "test1 =
     [T_acquire 0 lock_a, T_grant lock_a, T_release 0 lock_a, T_check_release lock_a,
      T_acquire 0 lock_a, T_grant lock_a, T_release 0 lock_a, T_check_release lock_a,
      T_acquire 0 lock_a, T_grant lock_a, T_acquire 0 lock_b, T_grant lock_b,
      T_release 0 lock_b, T_check_release lock_b, T_release 0 lock_a, T_check_release lock_a]"

definition test2 :: "nat \<Rightarrow> tester_op list" where
  "test2 i = [T_acquire i lock_a, T_grant lock_a, T_check_release lock_a, T_release i lock_a]"

definition test3 :: "nat \<Rightarrow> tester_op list" where
  "test3 i = concat (replicate 10
     [T_acquire i lock_a, T_grant lock_a, T_check_release lock_a, T_release i lock_a])"

definition test4 :: "nat \<Rightarrow> tester_op list" where
  "test4 i = concat (replicate 10
     [T_acquire 0 lock_a, T_grant lock_a, T_check_release lock_a, T_release 0 lock_a])"

definition test5 :: "nat \<Rightarrow> tester_op list" where
  "test5 i = concat (replicate 10
     [T_acquire (if i < 5 then 0 else 1) lock_a, T_grant lock_a, T_check_release lock_a,
      T_release (if i < 5 then 0 else 1) lock_a])"

text \<open>The tests \<open>main\<close> runs, one after the other, each as the list of its threads; 0 is all.\<close>

definition tester_main :: "nat \<Rightarrow> tester_op list list list" where
  "tester_main test =
     (if test = 0 \<or> test = 1 then [[test1]] else []) @
     (if test = 0 \<or> test = 2 then [map test2 [0..<tester_nt]] else []) @
     (if test = 0 \<or> test = 3 then [map test3 [0..<tester_nt]] else []) @
     (if test = 0 \<or> test = 4 then [map test4 [0..<2]] else []) @
     (if test = 0 \<or> test = 5 then [map test5 [0..<tester_nt]] else [])"

section \<open>Running them\<close>

text \<open>The counters; \<open>None\<close> is \<open>exit(1)\<close>.\<close>

definition count_index :: "u64 \<Rightarrow> nat" where
  "count_index lid = unat (lid AND 0xff)"

definition check_grant :: "u64 \<Rightarrow> (nat \<Rightarrow> int) \<Rightarrow> (nat \<Rightarrow> int) option" where
  "check_grant lid ct =
     (let x = count_index lid in if ct x \<noteq> 0 then None else Some (ct(x := ct x + 1)))"

definition check_release :: "u64 \<Rightarrow> (nat \<Rightarrow> int) \<Rightarrow> (nat \<Rightarrow> int) option" where
  "check_release lid ct =
     (let x = count_index lid in if ct x \<noteq> 1 then None else Some (ct(x := ct x - 1)))"

text \<open>
  One operation of a thread, with the server as \<open>acq\<close> and \<open>rel\<close>. An \<open>acquire\<close> that is not
  answered waits; a \<open>release\<close> that is refused fails the assertion of \<open>lock_client\<close>. \<open>lc i\<close> is the
  id of client \<open>i\<close>.
\<close>

datatype 's outcome = Waits | Aborts | Goes 's "nat \<Rightarrow> int"

definition do_op :: "(u32 \<Rightarrow> u64 \<Rightarrow> 's \<Rightarrow> 's option) \<Rightarrow> (u32 \<Rightarrow> u64 \<Rightarrow> 's \<Rightarrow> 's option) \<Rightarrow> (nat \<Rightarrow> u32)
    \<Rightarrow> tester_op \<Rightarrow> 's \<Rightarrow> (nat \<Rightarrow> int) \<Rightarrow> 's outcome" where
  "do_op acq rel lc x s ct =
     (case x of
        T_acquire i l \<Rightarrow> (case acq (lc i) l s of None \<Rightarrow> Waits | Some s' \<Rightarrow> Goes s' ct)
      | T_grant l \<Rightarrow> (case check_grant l ct of None \<Rightarrow> Aborts | Some ct' \<Rightarrow> Goes s ct')
      | T_check_release l \<Rightarrow> (case check_release l ct of None \<Rightarrow> Aborts | Some ct' \<Rightarrow> Goes s ct')
      | T_release i l \<Rightarrow> (case rel (lc i) l s of None \<Rightarrow> Aborts | Some s' \<Rightarrow> Goes s' ct))"

record 's tester =
  tt_server :: 's
  tt_counts :: "nat \<Rightarrow> int"
  tt_threads :: "tester_op list list"
  tt_rest :: "tester_op list list list"

definition new_tester :: "nat \<Rightarrow> 's \<Rightarrow> 's tester" where
  "new_tester test s = \<lparr>tt_server = s, tt_counts = (\<lambda>_. 0), tt_threads = [], tt_rest = tester_main test\<rparr>"

text \<open>
  The turn of thread \<open>t\<close>; a number no thread has is \<open>main\<close>, which starts the next test once the
  threads are joined. \<open>None\<close>: the program has ended with an error.
\<close>

definition tester_turn :: "(u32 \<Rightarrow> u64 \<Rightarrow> 's \<Rightarrow> 's option) \<Rightarrow> (u32 \<Rightarrow> u64 \<Rightarrow> 's \<Rightarrow> 's option) \<Rightarrow> (nat \<Rightarrow> u32)
    \<Rightarrow> nat \<Rightarrow> 's tester \<Rightarrow> 's tester option" where
  "tester_turn acq rel lc t T =
     (if t < length (tt_threads T) then
        (case tt_threads T ! t of
           [] \<Rightarrow> Some T
         | x # p \<Rightarrow>
             (case do_op acq rel lc x (tt_server T) (tt_counts T) of
                Waits \<Rightarrow> Some T
              | Aborts \<Rightarrow> None
              | Goes s ct \<Rightarrow>
                  Some (T\<lparr>tt_server := s, tt_counts := ct, tt_threads := (tt_threads T)[t := p]\<rparr>)))
      else
        (case tt_rest T of
           [] \<Rightarrow> Some T
         | ps # rest \<Rightarrow>
             if list_all (\<lambda>p. p = []) (tt_threads T)
             then Some (T\<lparr>tt_threads := ps, tt_rest := rest\<rparr>) else Some T))"

fun run_tester :: "(u32 \<Rightarrow> u64 \<Rightarrow> 's \<Rightarrow> 's option) \<Rightarrow> (u32 \<Rightarrow> u64 \<Rightarrow> 's \<Rightarrow> 's option) \<Rightarrow> (nat \<Rightarrow> u32)
    \<Rightarrow> nat list \<Rightarrow> 's tester \<Rightarrow> 's tester option" where
  "run_tester acq rel lc [] T = Some T"
| "run_tester acq rel lc (t # ts) T = do { T \<leftarrow> tester_turn acq rel lc t T; run_tester acq rel lc ts T }"

text \<open>\<open>main\<close> has printed that all tests passed.\<close>

definition tester_done :: "'s tester \<Rightarrow> bool" where
  "tester_done T \<longleftrightarrow> tt_rest T = [] \<and> list_all (\<lambda>p. p = []) (tt_threads T)"

section \<open>Where a thread is\<close>

text \<open>
  What a thread has done with a lock: nothing, been granted it, counted that, uncounted it, and, in
  the order of the first test, given it back before it uncounted it. Only a thread that is alone
  may use that order.
\<close>

datatype status = S_out | S_granted nat | S_counted nat | S_uncounted nat | S_returned

fun op_lock :: "tester_op \<Rightarrow> u64" where
  "op_lock (T_acquire i l) = l"
| "op_lock (T_grant l) = l"
| "op_lock (T_check_release l) = l"
| "op_lock (T_release i l) = l"

fun next_status :: "bool \<Rightarrow> tester_op \<Rightarrow> status \<Rightarrow> status option" where
  "next_status alone (T_acquire i l) S_out = Some (S_granted i)"
| "next_status alone (T_grant l) (S_granted i) = Some (S_counted i)"
| "next_status alone (T_check_release l) (S_counted i) = Some (S_uncounted i)"
| "next_status alone (T_check_release l) S_returned = Some S_out"
| "next_status alone (T_release i l) (S_uncounted j) = (if i = j then Some S_out else None)"
| "next_status alone (T_release i l) (S_counted j) = (if alone \<and> i = j then Some S_returned else None)"
| "next_status alone _ _ = None"

fun accepts :: "bool \<Rightarrow> u64 \<Rightarrow> status \<Rightarrow> tester_op list \<Rightarrow> bool" where
  "accepts alone l st [] \<longleftrightarrow> st = S_out"
| "accepts alone l st (x # p) \<longleftrightarrow>
     (if op_lock x = l
      then (case next_status alone x st of None \<Rightarrow> False | Some st' \<Rightarrow> accepts alone l st' p)
      else accepts alone l st p)"

definition tester_locks :: "u64 set" where
  "tester_locks = {lock_a, lock_b, lock_c}"

text \<open>A test is disciplined: it is one thread, or its threads use the first lock only.\<close>

definition disciplined :: "tester_op list list \<Rightarrow> bool" where
  "disciplined ps \<longleftrightarrow>
     (\<forall>p \<in> set ps. (\<forall>l \<in> tester_locks. accepts (length ps \<le> 1) l S_out p) \<and>
        (\<forall>x \<in> set p. op_lock x \<in> tester_locks \<and> (length ps \<le> 1 \<or> op_lock x = lock_a)))"

lemma disciplinedD:
  assumes "disciplined ps" "p \<in> set ps"
  shows "l \<in> tester_locks \<Longrightarrow> accepts (length ps \<le> 1) l S_out p"
    "x \<in> set p \<Longrightarrow> op_lock x \<in> tester_locks \<and> (length ps \<le> 1 \<or> op_lock x = lock_a)"
  using assms unfolding disciplined_def by blast+

lemma accepts_section:
  "accepts alone l S_out ([T_acquire i k, T_grant k, T_check_release k, T_release i k] @ p) = accepts alone l S_out p"
  by simp

lemma accepts_sections:
  "accepts alone l S_out (concat (replicate n [T_acquire i k, T_grant k, T_check_release k, T_release i k]))"
  by (induction n) (simp, simp only: replicate.simps concat.simps accepts_section)

lemma test_accepts:
  "accepts alone l S_out (test2 i)" "accepts alone l S_out (test3 i)"
  "accepts alone l S_out (test4 i)" "accepts alone l S_out (test5 i)"
proof -
  show "accepts alone l S_out (test2 i)"
    by (simp add: test2_def)
qed (unfold test3_def test4_def test5_def, (rule accepts_sections)+)

lemma test_lock:
  "x \<in> set (test2 i) \<Longrightarrow> op_lock x = lock_a" "x \<in> set (test3 i) \<Longrightarrow> op_lock x = lock_a"
  "x \<in> set (test4 i) \<Longrightarrow> op_lock x = lock_a" "x \<in> set (test5 i) \<Longrightarrow> op_lock x = lock_a"
  by (auto simp: test2_def test3_def test4_def test5_def)

lemma tester_locks_distinct [simp]:
  "lock_a \<noteq> lock_b" "lock_b \<noteq> lock_a" "lock_a \<noteq> lock_c" "lock_c \<noteq> lock_a" "lock_b \<noteq> lock_c" "lock_c \<noteq> lock_b"
  by (simp_all add: lock_a_def lock_b_def lock_c_def)

lemma count_index_simps [simp]: "count_index lock_a = 1" "count_index lock_b = 2" "count_index lock_c = 3"
  by (simp_all add: count_index_def lock_a_def lock_b_def lock_c_def)

lemma count_index_inj: "l \<in> tester_locks \<Longrightarrow> k \<in> tester_locks \<Longrightarrow> count_index l = count_index k \<longleftrightarrow> l = k"
  by (auto simp: tester_locks_def)

lemma test1_disciplined: "disciplined [test1]"
  by (auto simp: disciplined_def test1_def tester_locks_def)

lemma main_disciplined: "ps \<in> set (tester_main test) \<Longrightarrow> disciplined ps"
  using test1_disciplined
  by (auto simp: tester_main_def disciplined_def test_accepts tester_locks_def dest: test_lock split: if_splits)

section \<open>One lock\<close>

text \<open>
  \<open>st t\<close> is where thread \<open>t\<close> is with the lock, \<open>h\<close> its holder at the server, \<open>k\<close> its counter: at most
  one thread is anywhere, the holder is the client of that thread, and the counter says whether
  it has counted the lock.
\<close>

fun owner :: "(nat \<Rightarrow> u32) \<Rightarrow> status \<Rightarrow> u32 option" where
  "owner lc (S_granted i) = Some (lc i)"
| "owner lc (S_counted i) = Some (lc i)"
| "owner lc (S_uncounted i) = Some (lc i)"
| "owner lc _ = None"

fun counted :: "status \<Rightarrow> bool" where
  "counted (S_counted i) = True"
| "counted S_returned = True"
| "counted _ = False"

definition lock_fits :: "(nat \<Rightarrow> u32) \<Rightarrow> nat \<Rightarrow> (nat \<Rightarrow> status) \<Rightarrow> u32 option \<Rightarrow> int \<Rightarrow> bool" where
  "lock_fits lc n st h k \<longleftrightarrow>
     (\<forall>t < n. \<forall>u < n. st t \<noteq> S_out \<longrightarrow> st u \<noteq> S_out \<longrightarrow> t = u) \<and>
     (\<forall>c. h = Some c \<longleftrightarrow> (\<exists>t < n. owner lc (st t) = Some c)) \<and>
     k = (if \<exists>t < n. counted (st t) then 1 else 0) \<and>
     (1 < n \<longrightarrow> (\<forall>t < n. st t \<noteq> S_returned))"

text \<open>The thread \<open>t\<close> is the only one: holder and counter are its own.\<close>

lemma lock_fits_only:
  assumes "t < n" "\<And>u. u < n \<Longrightarrow> u \<noteq> t \<Longrightarrow> st u = S_out"
  shows "lock_fits lc n st h k \<longleftrightarrow> h = owner lc (st t) \<and> k = (if counted (st t) then 1 else 0) \<and>
    (1 < n \<longrightarrow> st t \<noteq> S_returned)"
proof -
  have ex: "(\<exists>u<n. P (st u)) \<longleftrightarrow> P (st t)" if "\<not> P S_out" for P
    using assms that by (metis)
  have "(\<exists>u<n. owner lc (st u) = Some c) \<longleftrightarrow> owner lc (st t) = Some c" for c
    by (rule ex) simp
  moreover have "(\<exists>u<n. counted (st u)) \<longleftrightarrow> counted (st t)"
    by (rule ex) simp
  moreover have "(\<forall>u<n. st u \<noteq> S_returned) \<longleftrightarrow> st t \<noteq> S_returned"
    using ex [of "\<lambda>x. x = S_returned"] by auto
  moreover have "\<forall>x<n. \<forall>u<n. st x \<noteq> S_out \<longrightarrow> st u \<noteq> S_out \<longrightarrow> x = u"
    using assms(2) by metis
  moreover have "(\<forall>c. h = Some c \<longleftrightarrow> owner lc (st t) = Some c) \<longleftrightarrow> h = owner lc (st t)"
    by (cases h; cases "owner lc (st t)") auto
  ultimately show ?thesis
    unfolding lock_fits_def by simp
qed

lemma lock_fits_inside:
  assumes "lock_fits lc n st h k" "t < n" "st t \<noteq> S_out"
  shows "\<And>u. u < n \<Longrightarrow> u \<noteq> t \<Longrightarrow> st u = S_out"
  using assms unfolding lock_fits_def by blast

lemma lock_fits_free:
  assumes "lock_fits lc n st None k" "t < n" "st t = S_out" "u < n"
  shows "st u = S_out"
proof (rule ccontr)
  assume u: "st u \<noteq> S_out"
  have "owner lc (st u) = None"
    using assms(1,4) unfolding lock_fits_def by (cases "owner lc (st u)") auto
  with u have "st u = S_returned"
    by (cases "st u") simp_all
  with assms(1,4) have "\<not> 1 < n"
    unfolding lock_fits_def by blast
  with assms(2-4) u show False
    by (cases "t = u") simp_all
qed

lemma lock_fits_out:
  assumes "\<And>t. t < n \<Longrightarrow> st t = S_out"
  shows "lock_fits lc n st h k \<longleftrightarrow> h = None \<and> k = 0"
  using assms unfolding lock_fits_def by (cases h) auto

text \<open>What an accepted operation finds, and where it leads.\<close>

lemma lock_fits_next:
  assumes fits: "lock_fits lc n st h k" and t: "t < n" and acc: "next_status (n \<le> 1) x (st t) = Some st'"
  shows "case x of
      T_acquire i l \<Rightarrow> h = None \<longrightarrow> lock_fits lc n (st(t := st')) (Some (lc i)) k
    | T_grant l \<Rightarrow> k = 0 \<and> lock_fits lc n (st(t := st')) h 1
    | T_check_release l \<Rightarrow> k = 1 \<and> lock_fits lc n (st(t := st')) h 0
    | T_release i l \<Rightarrow> h = Some (lc i) \<and> lock_fits lc n (st(t := st')) None k"
proof (cases "st t = S_out")
  case True
  then obtain i l where x: "x = T_acquire i l" "st' = S_granted i"
    using acc by (cases x) auto
  have "lock_fits lc n (st(t := S_granted i)) (Some (lc i)) k" if "h = None"
  proof -
    have out: "st u = S_out" if "u < n" for u
      using lock_fits_free [of lc n st k t u] fits t True that \<open>h = None\<close> by simp
    then have "k = 0"
      using fits lock_fits_out by blast
    then show ?thesis
      using out by (subst lock_fits_only [OF t]) simp_all
  qed
  with x show ?thesis
    by simp
next
  case False
  note others = lock_fits_inside [OF fits t False]
  have "lock_fits lc n st h k \<longleftrightarrow> h = owner lc (st t) \<and> k = (if counted (st t) then 1 else 0) \<and>
      (1 < n \<longrightarrow> st t \<noteq> S_returned)"
    by (rule lock_fits_only [OF t]) (rule others)
  with fits have now: "h = owner lc (st t)" "k = (if counted (st t) then 1 else 0)"
    by blast+
  have upd: "lock_fits lc n (st(t := x)) h' k' \<longleftrightarrow> h' = owner lc x \<and> k' = (if counted x then 1 else 0) \<and>
      (1 < n \<longrightarrow> x \<noteq> S_returned)" for x h' k'
    using lock_fits_only [of t n "st(t := x)"] t others by simp
  show ?thesis
    using acc now False by (cases x; cases "st t") (auto simp: upd split: if_splits)
qed

section \<open>The tests against a lock service\<close>

definition turns_left :: "'s tester \<Rightarrow> nat" where
  "turns_left T = sum_list (map length (tt_threads T)) + sum_list (map (\<lambda>ps. Suc (sum_list (map length ps))) (tt_rest T))"

lemma sum_length_update:
  "t < length ps \<Longrightarrow> ps ! t = x # p \<Longrightarrow> sum_list (map length (ps[t := p])) < sum_list (map length ps)"
  by (induction ps arbitrary: t) (auto split: nat.splits)

context lock_service
begin

definition tester_inv :: "(nat \<Rightarrow> u32) \<Rightarrow> 's tester \<Rightarrow> (nat \<Rightarrow> u64 \<Rightarrow> status) \<Rightarrow> bool" where
  "tester_inv lc T S \<longleftrightarrow> inv (tt_server T) \<and> (\<forall>ps \<in> set (tt_rest T). disciplined ps) \<and>
     (\<forall>t < length (tt_threads T). \<forall>l \<in> tester_locks. accepts (length (tt_threads T) \<le> 1) l (S t l) (tt_threads T ! t)) \<and>
     (\<forall>t < length (tt_threads T). \<forall>x \<in> set (tt_threads T ! t).
        op_lock x \<in> tester_locks \<and> (length (tt_threads T) \<le> 1 \<or> op_lock x = lock_a)) \<and>
     (\<forall>l \<in> tester_locks. lock_fits lc (length (tt_threads T)) (\<lambda>t. S t l) (holder (tt_server T) l)
        (tt_counts T (count_index l)))"

lemma tester_invD:
  assumes "tester_inv lc T S"
  shows "inv (tt_server T)" "ps \<in> set (tt_rest T) \<Longrightarrow> disciplined ps"
    "t < length (tt_threads T) \<Longrightarrow> l \<in> tester_locks \<Longrightarrow>
      accepts (length (tt_threads T) \<le> 1) l (S t l) (tt_threads T ! t)"
    "t < length (tt_threads T) \<Longrightarrow> x \<in> set (tt_threads T ! t) \<Longrightarrow>
      op_lock x \<in> tester_locks \<and> (length (tt_threads T) \<le> 1 \<or> op_lock x = lock_a)"
    "l \<in> tester_locks \<Longrightarrow> lock_fits lc (length (tt_threads T)) (\<lambda>t. S t l) (holder (tt_server T) l)
      (tt_counts T (count_index l))"
  using assms unfolding tester_inv_def by blast+

text \<open>A thread has done an operation on \<open>l\<close>.\<close>

lemma tester_inv_goes:
  assumes T: "tester_inv lc T S" "t < length (tt_threads T)" "tt_threads T ! t = x # p" "op_lock x = l"
    and acc: "next_status (length (tt_threads T) \<le> 1) x (S t l) = Some st'"
      "accepts (length (tt_threads T) \<le> 1) l st' p"
    and new: "inv s'" "holder s' = (holder (tt_server T))(l := h)" "ct = (tt_counts T)(count_index l := k)"
    and fits: "lock_fits lc (length (tt_threads T)) ((\<lambda>t. S t l)(t := st')) h k"
  shows "tester_inv lc (T\<lparr>tt_server := s', tt_counts := ct, tt_threads := (tt_threads T)[t := p]\<rparr>)
    (S(t := (S t)(l := st')))"
proof -
  let ?n = "length (tt_threads T)" and ?S = "S(t := (S t)(l := st'))"
  have l: "l \<in> tester_locks"
    using tester_invD(4) [OF T(1,2)] T(3,4) by auto
  have accept: "accepts (?n \<le> 1) k (?S u k) ((tt_threads T)[t := p] ! u)" if "u < ?n" "k \<in> tester_locks" for u k
    using tester_invD(3) [OF T(1) that] T(2-4) acc(2) by (auto simp: nth_list_update split: if_splits)
  have ops: "op_lock y \<in> tester_locks \<and> (?n \<le> 1 \<or> op_lock y = lock_a)"
    if "u < ?n" "y \<in> set ((tt_threads T)[t := p] ! u)" for u y
    using tester_invD(4) [OF T(1) that(1), of y] that(2) T(2,3)
    by (cases "u = t") (simp_all add: nth_list_update)
  have locks: "lock_fits lc ?n (\<lambda>t. ?S t k) (holder s' k) (ct (count_index k))" if "k \<in> tester_locks" for k
  proof (cases "k = l")
    case True
    have "(\<lambda>u. ?S u l) = (\<lambda>t. S t l)(t := st')"
      by auto
    with True fits new(2,3) show ?thesis
      by simp
  next
    case False
    then have "(\<lambda>u. ?S u k) = (\<lambda>u. S u k)"
      by auto
    with False tester_invD(5) [OF T(1) that] new(2,3) count_index_inj [OF l that] show ?thesis
      by auto
  qed
  show ?thesis
    unfolding tester_inv_def using accept ops locks new(1) tester_invD(2) [OF T(1)] by simp
qed

lemma tester_op_ok:
  assumes T: "tester_inv lc T S" "t < length (tt_threads T)" "tt_threads T ! t = x # p"
    and ids: "\<And>i. lc i \<in> ids"
  shows "(do_op acq rel lc x (tt_server T) (tt_counts T) = Waits \<and>
      (\<exists>i l c. x = T_acquire i l \<and> holder (tt_server T) l = Some c)) \<or>
    (\<exists>s ct S'. do_op acq rel lc x (tt_server T) (tt_counts T) = Goes s ct \<and>
      tester_inv lc (T\<lparr>tt_server := s, tt_counts := ct, tt_threads := (tt_threads T)[t := p]\<rparr>) S')"
proof -
  let ?n = "length (tt_threads T)" and ?l = "op_lock x" and ?s = "tt_server T"
  have l: "?l \<in> tester_locks"
    using tester_invD(4) [OF T(1,2)] T(3) by auto
  obtain st' where acc: "next_status (?n \<le> 1) x (S t ?l) = Some st'" "accepts (?n \<le> 1) ?l st' p"
    using tester_invD(3) [OF T(1,2) l] T(3) by (auto split: option.splits)
  note inv = tester_invD(1) [OF T(1)]
  note goes = tester_inv_goes [OF T(1-3) refl acc]
  note "next" = lock_fits_next [OF tester_invD(5) [OF T(1) l] T(2) acc(1)]
  show ?thesis
  proof (cases x)
    case (T_acquire i k)
    show ?thesis
    proof (cases "acq (lc i) k ?s")
      case None
      then have "holder ?s k \<noteq> None"
        using acq_blocked_iff [OF inv ids] by blast
      with None T_acquire show ?thesis
        by (auto simp: do_op_def)
    next
      case (Some s')
      note grants = acq_grants [OF inv ids Some]
      have "tester_inv lc (T\<lparr>tt_server := s', tt_counts := tt_counts T, tt_threads := (tt_threads T)[t := p]\<rparr>)
          (S(t := (S t)(?l := st')))"
        by (rule goes [of _ "Some (lc i)" _ "tt_counts T (count_index k)"]) (use grants "next" T_acquire in simp_all)
      with Some T_acquire show ?thesis
        by (auto simp: do_op_def)
    qed
  next
    case (T_grant k)
    have "tester_inv lc (T\<lparr>tt_server := ?s, tt_counts := (tt_counts T)(count_index k := 1),
        tt_threads := (tt_threads T)[t := p]\<rparr>) (S(t := (S t)(?l := st')))"
      by (rule goes [of _ "holder ?s k" _ 1]) (use inv "next" T_grant in simp_all)
    with "next" T_grant show ?thesis
      by (auto simp: do_op_def check_grant_def Let_def)
  next
    case (T_check_release k)
    have "tester_inv lc (T\<lparr>tt_server := ?s, tt_counts := (tt_counts T)(count_index k := 0),
        tt_threads := (tt_threads T)[t := p]\<rparr>) (S(t := (S t)(?l := st')))"
      by (rule goes [of _ "holder ?s k" _ 0]) (use inv "next" T_check_release in simp_all)
    with "next" T_check_release show ?thesis
      by (auto simp: do_op_def check_release_def Let_def)
  next
    case (T_release i k)
    have "holder ?s k = Some (lc i)"
      using "next" T_release by simp
    then obtain s' where s': "rel (lc i) k ?s = Some s'"
      using rel_holder [OF inv ids, of k i] by blast
    note frees = rel_frees [OF inv ids s']
    have "tester_inv lc (T\<lparr>tt_server := s', tt_counts := tt_counts T, tt_threads := (tt_threads T)[t := p]\<rparr>)
        (S(t := (S t)(?l := st')))"
      by (rule goes [of _ None _ "tt_counts T (count_index k)"]) (use frees "next" T_release in simp_all)
    with s' T_release show ?thesis
      by (auto simp: do_op_def)
  qed
qed

text \<open>When all threads of a test have ended, nobody is anywhere, and the next test can start.\<close>

lemma tester_inv_start:
  assumes T: "tester_inv lc T S" "list_all (\<lambda>p. p = []) (tt_threads T)" "tt_rest T = ps # rest"
  shows "tester_inv lc (T\<lparr>tt_threads := ps, tt_rest := rest\<rparr>) (\<lambda>_ _. S_out)"
proof -
  have out: "S t l = S_out" if "t < length (tt_threads T)" "l \<in> tester_locks" for t l
    using tester_invD(3) [OF T(1) that] T(2) that(1) by (simp add: list_all_length)
  have "holder (tt_server T) l = None \<and> tt_counts T (count_index l) = 0" if "l \<in> tester_locks" for l
    using tester_invD(5) [OF T(1) that] out [OF _ that] lock_fits_out [of "length (tt_threads T)" "\<lambda>t. S t l"] by blast
  moreover have d: "disciplined ps"
    using tester_invD(2) [OF T(1)] T(3) by simp
  moreover have "\<forall>qs \<in> set rest. disciplined qs"
    using tester_invD(2) [OF T(1)] T(3) by simp
  ultimately show ?thesis
    using tester_invD(1) [OF T(1)] disciplinedD [OF d nth_mem] by (simp add: tester_inv_def lock_fits_out)
qed

lemma tester_turn_ok:
  assumes "tester_inv lc T S" "\<And>i. lc i \<in> ids"
  shows "\<exists>T' S'. tester_turn acq rel lc t T = Some T' \<and> tester_inv lc T' S'"
proof (cases "t < length (tt_threads T)")
  case True
  show ?thesis
  proof (cases "tt_threads T ! t")
    case Nil
    with True assms(1) show ?thesis
      by (auto simp: tester_turn_def)
  next
    case (Cons x p)
    with tester_op_ok [OF assms(1) True Cons assms(2)] True assms(1) show ?thesis
      by (auto simp: tester_turn_def)
  qed
next
  case False
  show ?thesis
  proof (cases "tt_rest T")
    case Nil
    with False assms(1) show ?thesis
      by (auto simp: tester_turn_def)
  next
    case (Cons ps rest)
    with False assms(1) tester_inv_start [OF assms(1) _ Cons] show ?thesis
      by (cases "list_all (\<lambda>p. p = []) (tt_threads T)") (auto simp: tester_turn_def)
  qed
qed

lemma run_tester_ok:
  assumes "tester_inv lc T S" "\<And>i. lc i \<in> ids"
  shows "\<exists>T' S'. run_tester acq rel lc ts T = Some T' \<and> tester_inv lc T' S'"
  using assms(1)
proof (induction ts arbitrary: T S)
  case (Cons t ts)
  obtain T1 S1 where T1: "tester_turn acq rel lc t T = Some T1" "tester_inv lc T1 S1"
    using tester_turn_ok [OF Cons.prems assms(2)] by blast
  with Cons.IH [OF T1(2)] show ?case
    by simp
qed auto

text \<open>A thread that is not done can always go on, or another one can.\<close>

lemma someone_goes:
  assumes T: "tester_inv lc T S" and ids: "\<And>i. lc i \<in> ids"
    and t: "t < length (tt_threads T)" "tt_threads T ! t \<noteq> []"
  obtains u x p s ct where "u < length (tt_threads T)" "tt_threads T ! u = x # p"
    "do_op acq rel lc x (tt_server T) (tt_counts T) = Goes s ct"
proof -
  let ?n = "length (tt_threads T)"
  obtain x p where xp: "tt_threads T ! t = x # p"
    using t(2) by (cases "tt_threads T ! t") auto
  show thesis
  proof (cases "do_op acq rel lc x (tt_server T) (tt_counts T)")
    case Waits
    then obtain i l c where x: "x = T_acquire i l" "holder (tt_server T) l = Some c"
      using tester_op_ok [OF T t(1) xp ids] by auto
    have l: "l \<in> tester_locks"
      using tester_invD(4) [OF T t(1), of x] xp x(1) by simp
    obtain st' where "next_status (?n \<le> 1) x (S t l) = Some st'"
      using tester_invD(3) [OF T t(1) l] xp x(1) by (auto split: option.splits)
    then have out: "S t l = S_out"
      using x(1) by (cases "S t l") auto
    obtain u where u: "u < ?n" "owner lc (S u l) = Some c"
      using tester_invD(5) [OF T l] x(2) unfolding lock_fits_def by blast
    then have "u \<noteq> t"
      using out by auto
    then have n: "\<not> ?n \<le> 1"
      using u(1) t(1) by auto
    have acc: "accepts (?n \<le> 1) l (S u l) (tt_threads T ! u)"
      by (rule tester_invD(3) [OF T u(1) l])
    have "tt_threads T ! u \<noteq> []"
      using acc u(2) by auto
    then obtain y q where yq: "tt_threads T ! u = y # q"
      by (cases "tt_threads T ! u") auto
    have "op_lock y = lock_a" "op_lock x = lock_a"
      using tester_invD(4) [OF T u(1), of y] tester_invD(4) [OF T t(1), of x] yq xp n by auto
    then have "op_lock y = l"
      using x(1) by simp
    with acc yq have "next_status (?n \<le> 1) y (S u l) \<noteq> None"
      by (auto split: option.splits)
    then have "\<not> (\<exists>i k. y = T_acquire i k)"
      using u(2) by (cases "S u l") auto
    then obtain s ct where "do_op acq rel lc y (tt_server T) (tt_counts T) = Goes s ct"
      using tester_op_ok [OF T u(1) yq ids] by blast
    with that u(1) yq show ?thesis
      by blast
  next
    case Aborts
    with tester_op_ok [OF T t(1) xp ids] show ?thesis
      by simp
  next
    case (Goes s ct)
    with that t(1) xp show ?thesis
      by blast
  qed
qed

lemma tester_finishes:
  assumes "tester_inv lc T S" "\<And>i. lc i \<in> ids"
  shows "\<exists>ts T'. run_tester acq rel lc ts T = Some T' \<and> tester_done T' \<and> length ts \<le> turns_left T"
  using assms(1)
proof (induction "turns_left T" arbitrary: T S rule: less_induct)
  case less
  show ?case
  proof (cases "list_all (\<lambda>p. p = []) (tt_threads T)")
    case False
    then obtain t where "t < length (tt_threads T)" "tt_threads T ! t \<noteq> []"
      by (auto simp: list_all_length)
    then obtain u x p s ct where u: "u < length (tt_threads T)" "tt_threads T ! u = x # p"
        "do_op acq rel lc x (tt_server T) (tt_counts T) = Goes s ct"
      by (rule someone_goes [OF less.prems assms(2)])
    let ?T = "T\<lparr>tt_server := s, tt_counts := ct, tt_threads := (tt_threads T)[u := p]\<rparr>"
    have turn: "tester_turn acq rel lc u T = Some ?T"
      using u by (simp add: tester_turn_def)
    obtain S' where S': "tester_inv lc ?T S'"
      using tester_op_ok [OF less.prems u(1,2) assms(2)] u(3) by auto
    have smaller: "turns_left ?T < turns_left T"
      using sum_length_update [OF u(1,2)] by (simp add: turns_left_def)
    obtain ts T' where "run_tester acq rel lc ts ?T = Some T'" "tester_done T'" "length ts \<le> turns_left ?T"
      using less.hyps [OF smaller S'] by blast
    with turn smaller show ?thesis
      by (intro exI [of _ "u # ts"] exI [of _ T']) simp
  next
    case True
    show ?thesis
    proof (cases "tt_rest T")
      case Nil
      with True show ?thesis
        by (intro exI [of _ "[]"]) (simp add: tester_done_def)
    next
      case (Cons ps rest)
      let ?T = "T\<lparr>tt_threads := ps, tt_rest := rest\<rparr>"
      have turn: "tester_turn acq rel lc (length (tt_threads T)) T = Some ?T"
        using True Cons by (simp add: tester_turn_def)
      have smaller: "turns_left ?T < turns_left T"
        using Cons by (simp add: turns_left_def)
      obtain ts T' where "run_tester acq rel lc ts ?T = Some T'" "tester_done T'" "length ts \<le> turns_left ?T"
        using less.hyps [OF smaller tester_inv_start [OF less.prems True Cons]] by blast
      with turn smaller show ?thesis
        by (intro exI [of _ "length (tt_threads T) # ts"] exI [of _ T']) simp
    qed
  qed
qed

lemma new_tester_inv:
  assumes "inv s" "\<And>l. holder s l = None"
  shows "tester_inv lc (new_tester test s) (\<lambda>_ _. S_out)"
  using assms by (simp add: tester_inv_def new_tester_def lock_fits_out main_disciplined)

text \<open>When the tests have passed, no lock is held.\<close>

lemma tester_done_free:
  assumes "tester_inv lc T S" "tester_done T" "l \<in> tester_locks"
  shows "holder (tt_server T) l = None"
proof -
  have "S t l = S_out" if "t < length (tt_threads T)" for t
    using tester_invD(3) [OF assms(1) that assms(3)] assms(2) that by (simp add: tester_done_def list_all_length)
  then show ?thesis
    using tester_invD(5) [OF assms(1,3)] lock_fits_out [of "length (tt_threads T)" "\<lambda>t. S t l"] by blast
qed

end

section \<open>Properties\<close>

text \<open>
  C16. The test program accepts the lock server, whatever the schedule of its threads: in no run
  of the five tests does \<open>check_grant\<close> see a lock granted twice, \<open>check_release\<close> one that was not
  held, or a client a refused release; and from everywhere in a run the tests can be brought to
  their end, when all locks are free. The ids of the clients are any but that of a free lock.
\<close>

theorem lock_tester_passes:
  assumes "\<forall>i. lc i \<noteq> -1"
  shows "\<exists>T. run_tester ls_acquire ls_release lc ts (new_tester test new_lock_server) = Some T \<and>
    (\<exists>ts' T'. run_tester ls_acquire ls_release lc ts' T = Some T' \<and> tester_done T' \<and>
       length ts' \<le> turns_left T \<and> (\<forall>l \<in> tester_locks. ls_holder (tt_server T') l = None))"
proof -
  have ids: "lc i \<in> - {-1}" for i
    using assms by simp
  have "ls.tester_inv lc (new_tester test new_lock_server) (\<lambda>_ _. S_out)"
    by (rule ls.new_tester_inv [OF ls_inv_new]) (simp add: ls_holder_def new_lock_server_def)
  from ls.run_tester_ok [OF this ids] obtain T S where T: "run_tester ls_acquire ls_release lc ts
      (new_tester test new_lock_server) = Some T" "ls.tester_inv lc T S"
    by blast
  obtain ts' T' where T': "run_tester ls_acquire ls_release lc ts' T = Some T'" "tester_done T'"
      "length ts' \<le> turns_left T"
    using ls.tester_finishes [OF T(2) ids] by blast
  obtain S' where "ls.tester_inv lc T' S'"
    using ls.run_tester_ok [OF T(2) ids, of ts'] T'(1) by auto
  from ls.tester_done_free [OF this T'(2)] T(1) T' show ?thesis
    by blast
qed

theorem lock_tester_passes_witness:
  "\<exists>T. run_tester ls_acquire ls_release (\<lambda>i. 5) [10, 0, 1, 1, 0] (new_tester 2 new_lock_server) = Some T \<and>
    (\<exists>ts' T'. run_tester ls_acquire ls_release (\<lambda>i. 5) ts' T = Some T' \<and> tester_done T' \<and>
       length ts' \<le> turns_left T \<and> (\<forall>l \<in> tester_locks. ls_holder (tt_server T') l = None))"
  by (rule lock_tester_passes) simp

text \<open>And it finds a server that grants a lock twice: the second \<open>check_grant\<close> ends the program.\<close>

theorem double_grant_found:
  "run_tester (\<lambda>c l s. Some s) (\<lambda>c l s. Some s) lc [0, 0, 0, 1, 1] (new_tester 2 ()) = None"
  by (simp add: new_tester_def tester_main_def tester_nt_def test2_def tester_turn_def do_op_def
      check_grant_def Let_def upt_rec)

end
