(* ===== verification/Xid_Window.thy ===== *)
theory Xid_Window
  imports Prelude
begin

text \<open>
  \<open>rpcc::update_xid_rep\<close> of \<open>rpc/rpc.cc\<close>: the client's window of the transaction ids whose
  calls are over. The front of the list is what the client sends as \<open>xid_rep\<close>; the server
  forgets the replies below it. The list is \<open>xid_rep_window_\<close>, which the constructor of
  \<open>rpcc\<close> starts as \<open>[0]\<close>.
\<close>

section \<open>The code\<close>

text \<open>
  The search loop and the \<open>push_back\<close> after it: the id goes before the first larger element,
  else to the end.
\<close>

fun insert_xid :: "u32 \<Rightarrow> u32 list \<Rightarrow> u32 list" where
  "insert_xid xid [] = [xid]"
| "insert_xid xid (y # ys) = (if y > xid then xid # y # ys else y # insert_xid xid ys)"

text \<open>
  The loop at the label \<open>compress\<close>. The iterator stands at \<open>x\<close>, \<open>pre\<close> is what is left of the
  list before it; the inner loop pops the front while its successor is \<open>x\<close>. It stops at \<open>x\<close>
  at the latest, since \<open>x + 1\<close> is not \<open>x\<close>.
\<close>

fun compress_loop :: "u32 list \<Rightarrow> u32 list \<Rightarrow> u32 list" where
  "compress_loop pre [] = pre"
| "compress_loop pre (x # rest) = compress_loop (dropWhile (\<lambda>f. f + 1 = x) (pre @ [x])) rest"

text \<open>\<open>front()\<close> of an empty list is undefined.\<close>

definition update_xid_rep :: "u32 \<Rightarrow> u32 list \<Rightarrow> u32 list option" where
  "update_xid_rep xid w =
     (case w of
        [] \<Rightarrow> None
      | front # _ \<Rightarrow>
          if xid \<le> front then Some w
          else case insert_xid xid w of
                 [] \<Rightarrow> None
               | f # rest \<Rightarrow> Some (compress_loop [f] rest))"

definition initial_window :: "u32 list" where
  "initial_window = [0]"

text \<open>The replies a client sees, in the order it sees them.\<close>

fun update_all :: "u32 list \<Rightarrow> u32 list \<Rightarrow> u32 list option" where
  "update_all [] w = Some w"
| "update_all (x # xs) w = do { w \<leftarrow> update_xid_rep x w; update_all xs w }"

section \<open>The contract of the window\<close>

text \<open>
  \<open>acked\<close> is the set of ids the window stands for. A window is well-formed when it is sorted
  (with repetitions, as the code inserts an id twice when it is reported twice) and the
  successor of its front is not in it.
\<close>

definition acked :: "u32 list \<Rightarrow> u32 set" where
  "acked w = {x. x \<le> hd w} \<union> set w"

definition wf_window :: "u32 list \<Rightarrow> bool" where
  "wf_window w \<longleftrightarrow> w \<noteq> [] \<and> sorted w \<and> hd w + 1 \<notin> set w"

locale ack_window =
  fixes start :: 'w
    and update :: "'x::linorder \<Rightarrow> 'w \<Rightarrow> 'w option"
    and front :: "'w \<Rightarrow> 'x"
    and seen :: "'w \<Rightarrow> 'x set"
    and inv :: "'w \<Rightarrow> bool"
  assumes inv_start: "inv start"
    and update_defined: "inv w \<Longrightarrow> \<exists>w'. update x w = Some w' \<and> inv w' \<and> seen w' = insert x (seen w)"
    and below_front: "inv w \<Longrightarrow> y \<le> front w \<Longrightarrow> y \<in> seen w"
    and front_max: "inv w \<Longrightarrow> \<forall>y \<le> x. y \<in> seen w \<Longrightarrow> x \<le> front w"
begin

fun updates :: "'x list \<Rightarrow> 'w \<Rightarrow> 'w option" where
  "updates [] w = Some w"
| "updates (x # xs) w = Option.bind (update x w) (updates xs)"

lemma updates_seen:
  "inv w \<Longrightarrow> \<exists>w'. updates xs w = Some w' \<and> inv w' \<and> seen w' = set xs \<union> seen w"
proof (induction xs arbitrary: w)
  case (Cons x xs)
  from update_defined [OF Cons.prems] obtain w1 where
    "update x w = Some w1" "inv w1" "seen w1 = insert x (seen w)"
    by blast
  with Cons.IH [of w1] show ?case
    by auto
qed simp

lemma front_unique:
  assumes "inv w" "inv w'" "seen w = seen w'"
  shows "front w = front w'"
proof (rule order.antisym)
  show "front w \<le> front w'"
    using assms below_front front_max by metis
  show "front w' \<le> front w"
    using assms below_front front_max by metis
qed

text \<open>The front depends on the set of the updates alone: not on their order or repetitions.\<close>

lemma updates_order:
  assumes "inv w" "set xs = set ys" "updates xs w = Some wx" "updates ys w = Some wy"
  shows "front wx = front wy"
  using assms updates_seen [of w xs] updates_seen [of w ys] by (auto intro: front_unique)

lemma front_mono:
  assumes "inv w" "updates xs w = Some w'"
  shows "front w \<le> front w'"
  using assms updates_seen [of w xs] below_front [OF assms(1)] by (auto intro: front_max)

end

section \<open>The code keeps the contract\<close>

lemma word_le_add1:
  fixes f :: u32
  assumes "f < f + 1"
  shows "y \<le> f + 1 \<longleftrightarrow> y \<le> f \<or> y = f + 1"
proof -
  have "unat (f + 1) = unat f + 1"
    using assms by (metis Suc_eq_plus1 add_0 less_irrefl add.commute unatSuc word_not_simps(1))
  then show ?thesis
    by (auto simp: word_le_nat_alt word_unat_eq_iff)
qed

lemma word_succ_between: "f < x \<Longrightarrow> f < f + 1 \<and> f + 1 \<le> (x :: u32)"
  by uint_arith

lemma set_insert_xid [simp]: "set (insert_xid x w) = insert x (set w)"
  by (induction x w rule: insert_xid.induct) auto

lemma sorted_insert_xid: "sorted w \<Longrightarrow> sorted (insert_xid x w)"
  by (induction x w rule: insert_xid.induct) auto

lemma insert_xid_above:
  "w \<noteq> [] \<Longrightarrow> hd w < x \<Longrightarrow> \<exists>rest. insert_xid x w = hd w # rest"
  by (cases w) auto

text \<open>One turn of the outer loop: either nothing is popped, or the window shrinks to \<open>[x]\<close>.\<close>

lemma compress_turn:
  assumes "wf_window pre" "sorted (pre @ [x])"
  shows "dropWhile (\<lambda>f. f + 1 = x) (pre @ [x]) = (if hd pre + 1 = x then [x] else pre @ [x])"
proof (cases "hd pre + 1 = x")
  case False
  with assms(1) show ?thesis
    by (cases pre) (auto simp: wf_window_def)
next
  case True
  have "f + 1 = x" if "f \<in> set pre" for f
  proof -
    have "hd pre \<le> f" "f \<le> x"
      using that assms by (cases pre; auto simp: wf_window_def sorted_append)+
    moreover have "f \<noteq> x" "hd pre \<noteq> x"
      using that assms(1) True by (auto simp: wf_window_def)
    moreover have "hd pre \<le> x"
      using calculation by simp
    ultimately have "f \<le> hd pre"
      using word_le_add1 [of "hd pre" f] True by simp
    with \<open>hd pre \<le> f\<close> True show ?thesis
      by simp
  qed
  then have "dropWhile (\<lambda>f. f + 1 = x) (pre @ [x]) = dropWhile (\<lambda>f. f + 1 = x) [x]"
    by (intro dropWhile_append2) auto
  with True show ?thesis
    by simp
qed

lemma compress_turn_wf:
  assumes "wf_window pre" "sorted (pre @ [x])"
  shows "wf_window (dropWhile (\<lambda>f. f + 1 = x) (pre @ [x]))"
    and "acked (dropWhile (\<lambda>f. f + 1 = x) (pre @ [x])) = insert x (acked pre)"
proof -
  show "wf_window (dropWhile (\<lambda>f. f + 1 = x) (pre @ [x]))"
    using assms by (auto simp: compress_turn) (auto simp: wf_window_def)
  show "acked (dropWhile (\<lambda>f. f + 1 = x) (pre @ [x])) = insert x (acked pre)"
  proof (cases "hd pre + 1 = x")
    case False
    with assms show ?thesis
      by (auto simp: compress_turn acked_def wf_window_def)
  next
    case True
    have "hd pre \<le> x" and "set pre \<subseteq> {y. y \<le> x}"
      using assms by (cases pre; auto simp: wf_window_def sorted_append)+
    moreover have "hd pre \<noteq> x"
      using True by auto
    ultimately have "{y. y \<le> x} = insert x ({y. y \<le> hd pre} \<union> set pre)"
      using True word_le_add1 [of "hd pre"] by auto
    with True assms show ?thesis
      by (simp add: compress_turn acked_def insert_absorb)
  qed
qed

lemma compress_loop_wf:
  assumes "wf_window pre" "sorted (pre @ rest)"
  shows "wf_window (compress_loop pre rest) \<and>
    acked (compress_loop pre rest) = acked pre \<union> set rest"
  using assms
proof (induction pre rest rule: compress_loop.induct)
  case (2 pre x rest)
  let ?pre = "dropWhile (\<lambda>f. f + 1 = x) (pre @ [x])"
  have s: "sorted (pre @ [x])"
    using "2.prems"(2) by (auto simp: sorted_append)
  have "sorted (?pre @ rest)"
    using "2.prems" s by (auto simp: compress_turn sorted_append)
  then show ?case
    using "2.IH" compress_turn_wf [OF "2.prems"(1) s] by auto
qed simp

lemma wf_window_single [simp]: "wf_window [f]"
  by (simp add: wf_window_def)

lemma update_xid_rep_spec:
  assumes "wf_window w"
  shows "\<exists>w'. update_xid_rep x w = Some w' \<and> wf_window w' \<and> acked w' = insert x (acked w)"
proof (cases "x \<le> hd w")
  case True
  with assms show ?thesis
    by (cases w) (auto simp: update_xid_rep_def wf_window_def acked_def)
next
  case False
  then obtain rest where rest: "insert_xid x w = hd w # rest"
    using assms insert_xid_above [of w x] by (auto simp: wf_window_def not_le)
  then have sorted: "sorted ([hd w] @ rest)" and set: "insert x (set w) = insert (hd w) (set rest)"
    using assms sorted_insert_xid [of w x] set_insert_xid [of x w] by (auto simp: wf_window_def)
  have "update_xid_rep x w = Some (compress_loop [hd w] rest)"
    using assms False rest by (cases w) (auto simp: update_xid_rep_def wf_window_def)
  moreover have "acked [hd w] \<union> set rest = insert x (acked w)"
    using set by (auto simp: acked_def)
  ultimately show ?thesis
    using compress_loop_wf [OF wf_window_single sorted] by simp
qed

lemma front_max_xid:
  assumes "wf_window w" "\<forall>y \<le> x. y \<in> acked w"
  shows "x \<le> hd w"
proof (rule ccontr)
  assume "\<not> x \<le> hd w"
  then have "hd w < x"
    by simp
  then have "hd w + 1 \<le> x" "hd w < hd w + 1"
    using word_succ_between by blast+
  with assms show False
    by (auto simp: acked_def wf_window_def)
qed

interpretation xw: ack_window initial_window update_xid_rep hd acked wf_window
proof
  show "wf_window initial_window"
    by (simp add: initial_window_def)
  show "\<exists>w'. update_xid_rep x w = Some w' \<and> wf_window w' \<and> acked w' = insert x (acked w)"
    if "wf_window w" for w x
    using that by (rule update_xid_rep_spec)
  show "y \<in> acked w" if "wf_window w" "y \<le> hd w" for w y
    using that by (simp add: acked_def)
  show "x \<le> hd w" if "wf_window w" "\<forall>y \<le> x. y \<in> acked w" for w x
    using that by (rule front_max_xid)
qed

lemma updates_eq: "xw.updates xs w = update_all xs w"
  by (induction xs arbitrary: w) (auto split: bind_splits)

lemma update_all_append:
  "update_all (xs @ ys) w = Option.bind (update_all xs w) (update_all ys)"
  by (induction xs arbitrary: w) (auto split: bind_splits)

section \<open>Properties\<close>


text \<open>
  The acknowledgement depends only on which replies have arrived: two clients that saw the
  same replies in different orders, or some of them twice, acknowledge the same prefix; and
  more replies never move it back.
\<close>

theorem acknowledgement_order_irrelevant:
  assumes "set xs = set ys"
    and "update_all xs initial_window = Some wx" "update_all (ys @ zs) initial_window = Some wz"
    and "update_all ys initial_window = Some wy"
  shows "hd wx = hd wy \<and> hd wy \<le> hd wz"
proof
  show "hd wx = hd wy"
    using xw.updates_order [OF xw.inv_start assms(1)] assms(2,4) unfolding updates_eq by blast
  have "update_all zs wy = Some wz"
    using assms(3,4) by (simp add: update_all_append)
  moreover have "wf_window wy"
    using xw.updates_seen [OF xw.inv_start, of ys] assms(4) unfolding updates_eq by auto
  ultimately show "hd wy \<le> hd wz"
    using xw.front_mono unfolding updates_eq by blast
qed

theorem acknowledgement_order_irrelevant_witness:
  "hd [3::u32, 5] = hd [3, 5] \<and> hd [3::u32, 5] \<le> hd [5]"
  by (rule acknowledgement_order_irrelevant [of "[1, 2, 3, 5]" "[5, 3, 1, 1, 2]" _ "[4]"]) code_simp+

end
