(* ===== verification/Rpc_Client.thy ===== *)
theory Rpc_Client
  imports Rpc_Stubs Xid_Window
begin

text \<open>
  The client endpoint \<open>rpcc\<close> of \<open>rpc/rpc.h\<close> and \<open>rpc/rpc.cc\<close>: the two critical sections of
  \<open>call1\<close>, at its beginning and at its end, and the callback \<open>got_pdu\<close>, which runs in the thread of
  the poll manager in between. All of them hold the mutex \<open>m_\<close>. A call is known by its id in the
  map \<open>calls_\<close>; what \<open>call1\<close> does between its sections is to send, wait and send again.
\<close>

section \<open>State\<close>

record caller =
  ca_xid :: u32
  ca_un :: unmarshall
  ca_intret :: u32
  ca_done :: bool

record rpcc =
  cl_clt_nonce :: u32
  cl_srv_nonce :: u32
  cl_bind_done :: bool
  cl_xid :: u32
  cl_calls :: "u32 \<rightharpoonup> caller"
  cl_window :: "u32 list"

text \<open>\<open>rnd\<close> is the value of \<open>random()\<close>; a client without retransmission has the nonce 0.\<close>

definition new_rpcc :: "bool \<Rightarrow> u32 \<Rightarrow> rpcc" where
  "new_rpcc retrans rnd =
     \<lparr>cl_clt_nonce = (if retrans then rnd else 0), cl_srv_nonce = 0, cl_bind_done = False,
      cl_xid = 1, cl_calls = (\<lambda>_. None), cl_window = initial_window\<rparr>"

text \<open>The status of a caller is not set before its reply has come; it starts as \<open>r0\<close> here.\<close>

definition new_caller :: "u32 \<Rightarrow> u32 \<Rightarrow> unmarshall \<Rightarrow> caller" where
  "new_caller r0 xid un = \<lparr>ca_xid = xid, ca_un = un, ca_intret = r0, ca_done = False\<rparr>"

section \<open>Operations\<close>

text \<open>The beginning of \<open>call1\<close>: a failure, or the id of the call and its request.\<close>

definition call1_begin :: "u32 \<Rightarrow> u32 \<Rightarrow> marshall \<Rightarrow> rpcc \<Rightarrow> ((u32 + u32 \<times> marshall) \<times> rpcc) option"
where
  "call1_begin r0 proc req s =
     (if (proc \<noteq> rpc_bind \<and> \<not> cl_bind_done s) \<or> (proc = rpc_bind \<and> cl_bind_done s)
      then Some (Inl bind_failure, s)
      else
        let xid = cl_xid s;
            s = s\<lparr>cl_xid := cl_xid s + 1,
                  cl_calls := (cl_calls s)(xid \<mapsto> new_caller r0 xid empty_unmarshall)\<rparr>
        in case cl_window s of
             [] \<Rightarrow> None
           | front # _ \<Rightarrow> do {
               req \<leftarrow> pack_req_header
                 \<lparr>rq_xid = xid, rq_proc = proc, rq_clt_nonce = cl_clt_nonce s,
                  rq_srv_nonce = cl_srv_nonce s, rq_xid_rep = front\<rparr> req;
               Some (Inr (xid, req), s)
             })"

text \<open>A message from the server. The first reply to a pending call counts.\<close>

definition rpcc_got_pdu :: "u8 list \<Rightarrow> rpcc \<Rightarrow> rpcc option" where
  "rpcc_got_pdu b s = do {
     (h, rep) \<leftarrow> unpack_reply_header (new_unmarshall b (int (length b)));
     (if \<not> u_ok rep then Some s
      else do {
        w \<leftarrow> update_xid_rep (rp_xid h) (cl_window s);
        let s = s\<lparr>cl_window := w\<rparr>;
        (case cl_calls s (rp_xid h) of
           None \<Rightarrow> Some s
         | Some ca \<Rightarrow>
             if \<not> ca_done ca
             then let (un, rep) = take_in (ca_un ca) rep;
                      ca = ca\<lparr>ca_un := un, ca_intret := rp_ret h, ca_done := True\<rparr>
                  in Some (s\<lparr>cl_calls := (cl_calls s)(rp_xid h \<mapsto> ca)\<rparr>)
             else Some s)
      })
   }"

text \<open>The end of \<open>call1\<close>, after a reply or a timeout: the status and the reader of the reply.\<close>

definition call1_end :: "u32 \<Rightarrow> rpcc \<Rightarrow> (u32 \<times> unmarshall \<times> rpcc) option" where
  "call1_end xid s =
     (case cl_calls s xid of
        None \<Rightarrow> None
      | Some ca \<Rightarrow> do {
          w \<leftarrow> update_xid_rep xid (cl_window s);
          Some (if ca_done ca then ca_intret ca else timeout_failure, ca_un ca,
                s\<lparr>cl_calls := (cl_calls s)(xid := None), cl_window := w\<rparr>)
        })"

text \<open>What \<open>bind\<close> does with the result \<open>r\<close> of its call.\<close>

definition bind_end :: "u32 \<Rightarrow> u32 \<Rightarrow> rpcc \<Rightarrow> rpcc" where
  "bind_end ret r s = (if ret = 0 then s\<lparr>cl_bind_done := True, cl_srv_nonce := r\<rparr> else s)"

section \<open>Steps\<close>

definition reply_header_of :: "u8 list \<Rightarrow> reply_header" where
  "reply_header_of b = fst (the (unpack_reply_header (new_unmarshall b (int (length b)))))"

text \<open>
  The sections of concurrent calls in any order. The server answers ids it has been sent, calls
  end with or without a reply, and the ids have not wrapped around.
\<close>

inductive client_step :: "rpcc \<Rightarrow> rpcc \<Rightarrow> bool" where
  step_begin:
  "cl_xid s + 1 \<noteq> 0 \<Longrightarrow> call1_begin r0 proc req s = Some (r, s') \<Longrightarrow> client_step s s'"
| step_reply:
  "fits_int (int (length b)) \<Longrightarrow> rp_xid (reply_header_of b) < cl_xid s \<Longrightarrow>
   rpcc_got_pdu b s = Some s' \<Longrightarrow> client_step s s'"
| step_end: "call1_end xid s = Some (ret, un, s') \<Longrightarrow> client_step s s'"
| step_bind: "client_step s (bind_end ret r s)"

inductive_cases client_stepE: "client_step s s'"

inductive client_reach :: "bool \<Rightarrow> u32 \<Rightarrow> rpcc \<Rightarrow> bool" for retrans rnd where
  start: "client_reach retrans rnd (new_rpcc retrans rnd)"
| step: "client_reach retrans rnd s \<Longrightarrow> client_step s s' \<Longrightarrow> client_reach retrans rnd s'"

section \<open>Invariant\<close>

text \<open>
  Calls have ids that were given out, a pending call is not acknowledged, and nothing is that
  was not given out.
\<close>

definition client_inv :: "rpcc \<Rightarrow> bool" where
  "client_inv s \<longleftrightarrow> wf_window (cl_window s) \<and> 0 < cl_xid s \<and>
     (\<forall>x. x \<in> acked (cl_window s) \<longrightarrow> x < cl_xid s) \<and>
     (\<forall>x ca. cl_calls s x = Some ca \<longrightarrow> x < cl_xid s \<and>
        (\<not> ca_done ca \<longrightarrow> x \<notin> acked (cl_window s)))"

lemma client_inv_new: "client_inv (new_rpcc retrans rnd)"
  by (simp add: client_inv_def new_rpcc_def initial_window_def acked_def)

lemma acked_update:
  assumes "wf_window w" "update_xid_rep x w = Some w'"
  shows "wf_window w' \<and> acked w' = insert x (acked w)"
  using update_xid_rep_spec [OF assms(1), of x] assms(2) by auto

lemma reply_header_obtain:
  assumes "fits_int (int (length b))"
  obtains rep where
    "unpack_reply_header (new_unmarshall b (int (length b))) = Some (reply_header_of b, rep)"
    "u_ok rep \<longleftrightarrow> 12 \<le> length b" "u_buf rep = Some b" "u_sz rep = int (length b)"
proof -
  have "wf_reader (new_unmarshall b (int (length b)))"
    using assms by (simp add: wf_reader_def new_unmarshall_def)
  then show thesis
    by (rule unpack_reply_header_any) (use that in \<open>simp add: reply_header_of_def new_unmarshall_def\<close>)
qed

text \<open>What a message does: nothing, or it acknowledges its id and finishes a pending call.\<close>

definition finish_call :: "u32 \<Rightarrow> u8 list \<Rightarrow> caller \<Rightarrow> caller" where
  "finish_call ret b ca = ca\<lparr>ca_un := \<lparr>u_buf = Some b, u_sz = int (length b), u_ind = RPC_HEADER_SZ,
     u_ok = (RPC_HEADER_SZ \<le> int (length b))\<rparr>, ca_intret := ret, ca_done := True\<rparr>"

lemma rpcc_got_pdu_eq:
  assumes "fits_int (int (length b))"
  shows "rpcc_got_pdu b s =
    (if length b < 12 then Some s
     else let h = reply_header_of b in do {
       w \<leftarrow> update_xid_rep (rp_xid h) (cl_window s);
       Some (case cl_calls s (rp_xid h) of
         Some ca \<Rightarrow>
           if ca_done ca then s\<lparr>cl_window := w\<rparr>
           else s\<lparr>cl_window := w, cl_calls := (cl_calls s)(rp_xid h \<mapsto> finish_call (rp_ret h) b ca)\<rparr>
       | None \<Rightarrow> s\<lparr>cl_window := w\<rparr>)
     })"
proof -
  obtain rep where rep:
    "unpack_reply_header (new_unmarshall b (int (length b))) = Some (reply_header_of b, rep)"
    "u_ok rep \<longleftrightarrow> 12 \<le> length b" "u_buf rep = Some b" "u_sz rep = int (length b)"
    by (rule reply_header_obtain [OF assms])
  have "fst (take_in u rep) = \<lparr>u_buf = Some b, u_sz = int (length b), u_ind = RPC_HEADER_SZ,
     u_ok = (RPC_HEADER_SZ \<le> int (length b))\<rparr>" for u
    using rep(3,4) by (cases u) (simp add: take_in_def u_take_buf_def)
  then show ?thesis
    using rep(1,2)
    by (auto simp: rpcc_got_pdu_def finish_call_def Let_def split_def not_less
        split: option.splits Option.bind_splits)
qed

lemma word_less_succ: "x + 1 \<noteq> 0 \<Longrightarrow> x < x + (1 :: u32)"
  using unatSuc [of x] by (simp add: word_less_nat_alt add.commute)

lemma call1_begin_cases:
  assumes "call1_begin r0 proc req s = Some (r, s')"
  obtains "r = Inl bind_failure" "s' = s"
  | front rest m where "cl_window s = front # rest" "r = Inr (cl_xid s, m)"
    "pack_req_header \<lparr>rq_xid = cl_xid s, rq_proc = proc, rq_clt_nonce = cl_clt_nonce s,
       rq_srv_nonce = cl_srv_nonce s, rq_xid_rep = front\<rparr> req = Some m"
    "s' = s\<lparr>cl_xid := cl_xid s + 1,
       cl_calls := (cl_calls s)(cl_xid s \<mapsto> new_caller r0 (cl_xid s) empty_unmarshall)\<rparr>"
proof (cases "(proc \<noteq> rpc_bind \<and> \<not> cl_bind_done s) \<or> (proc = rpc_bind \<and> cl_bind_done s)")
  case True
  with assms that(1) show thesis
    by (simp add: call1_begin_def)
next
  case False
  from assms that(2) show thesis
    unfolding call1_begin_def if_not_P [OF False]
    by (cases "cl_window s") (auto simp: Let_def split: Option.bind_splits)
qed

lemma step_begin_inv:
  assumes inv: "client_inv s" and wrap: "cl_xid s + 1 \<noteq> 0"
    and "call1_begin r0 proc req s = Some (r, s')"
  shows "client_inv s'"
  using assms(3)
proof (cases rule: call1_begin_cases)
  case 1
  with inv show ?thesis
    by simp
next
  case (2 front rest m)
  have less: "x < cl_xid s + 1" if "x \<le> cl_xid s" for x
    using that word_less_succ [OF wrap] by (rule order.strict_trans1)
  then have less': "x < cl_xid s + 1" if "x < cl_xid s" for x
    using that by simp
  have "cl_xid s \<notin> acked (cl_window s)"
    using inv by (auto simp: client_inv_def)
  then show ?thesis
    using inv less unfolding 2(4) client_inv_def
    by (auto simp: new_caller_def word_gt_0 wrap intro: less')
qed

lemma finish_call_done [simp]: "ca_done (finish_call ret b ca)"
  by (simp add: finish_call_def)

lemma step_reply_inv:
  assumes inv: "client_inv s" and b: "fits_int (int (length b))"
    and honest: "rp_xid (reply_header_of b) < cl_xid s" and got: "rpcc_got_pdu b s = Some s'"
  shows "client_inv s'"
proof (cases "length b < 12")
  case True
  with inv got show ?thesis
    by (simp add: rpcc_got_pdu_eq [OF b])
next
  case False
  let ?x = "rp_xid (reply_header_of b)"
  obtain w where w: "update_xid_rep ?x (cl_window s) = Some w"
    using False got by (auto simp: rpcc_got_pdu_eq [OF b] Let_def split: Option.bind_splits)
  have acked: "wf_window w" "acked w = insert ?x (acked (cl_window s))"
    using acked_update [OF _ w] inv by (simp_all add: client_inv_def)
  show ?thesis
  proof (cases "cl_calls s ?x")
    case None
    then have "s' = s\<lparr>cl_window := w\<rparr>"
      using False got w by (simp add: rpcc_got_pdu_eq [OF b] Let_def)
    with None inv acked honest show ?thesis
      by (auto simp: client_inv_def)
  next
    case (Some ca)
    then have "s' = (if ca_done ca then s\<lparr>cl_window := w\<rparr>
        else s\<lparr>cl_window := w,
               cl_calls := (cl_calls s)(?x \<mapsto> finish_call (rp_ret (reply_header_of b)) b ca)\<rparr>)"
      using False got w by (simp add: rpcc_got_pdu_eq [OF b] Let_def)
    with Some inv acked honest show ?thesis
      by (auto simp: client_inv_def)
  qed
qed

lemma step_end_inv:
  assumes inv: "client_inv s" and "call1_end xid s = Some (ret, un, s')"
  shows "client_inv s'"
proof -
  obtain ca w where "cl_calls s xid = Some ca" "update_xid_rep xid (cl_window s) = Some w"
      and s': "s' = s\<lparr>cl_calls := (cl_calls s)(xid := None), cl_window := w\<rparr>"
    using assms(2) by (auto simp: call1_end_def split: option.splits Option.bind_splits)
  moreover from this have "wf_window w" "acked w = insert xid (acked (cl_window s))"
    using acked_update inv by (auto simp: client_inv_def)
  ultimately show ?thesis
    using inv by (auto simp: client_inv_def)
qed

lemma client_step_inv: "client_step s s' \<Longrightarrow> client_inv s \<Longrightarrow> client_inv s'"
proof (induction rule: client_step.induct)
  case (step_bind s ret r)
  then show ?case
    by (simp add: bind_end_def client_inv_def)
qed (blast intro: step_begin_inv step_reply_inv step_end_inv)+

lemma client_reach_inv: "client_reach retrans rnd s \<Longrightarrow> client_inv s"
  by (induction rule: client_reach.induct) (auto intro: client_inv_new client_step_inv)

text \<open>A client that is bound to the server instance 42 and has a call pending.\<close>

definition demo_client :: rpcc where
  "demo_client = \<lparr>cl_clt_nonce = 7, cl_srv_nonce = 42, cl_bind_done = True, cl_xid = 2,
     cl_calls = [1 \<mapsto> new_caller 0 1 empty_unmarshall], cl_window = [0]\<rparr>"

lemma demo_client_begin:
  "\<exists>m. call1_begin 0 5 (new_marshall (\<lambda>_. 0)) (bind_end 0 42 (new_rpcc True 7))
     = Some (Inr (1, m), demo_client)"
  by (simp add: call1_begin_def bind_end_def new_rpcc_def initial_window_def new_marshall_def
      pack_req_header_eq rpc_bind_def demo_client_def)

lemma demo_client_reach: "client_reach True 7 demo_client"
proof -
  have 1: "client_reach True 7 (bind_end 0 42 (new_rpcc True 7))"
    by (rule client_reach.step [OF client_reach.start step_bind])
  obtain m where 2: "call1_begin 0 5 (new_marshall (\<lambda>_. 0)) (bind_end 0 42 (new_rpcc True 7))
      = Some (Inr (1, m), demo_client)"
    using demo_client_begin by blast
  have "cl_xid (bind_end 0 42 (new_rpcc True 7)) + 1 \<noteq> 0"
    by (simp add: bind_end_def new_rpcc_def)
  from client_reach.step [OF 1 step_begin [OF this 2]] show ?thesis .
qed

lemma demo_client_calls:
  "cl_calls demo_client 1 = Some (new_caller 0 1 empty_unmarshall)" "cl_xid demo_client = 2"
  "cl_window demo_client = [0]"
  by (simp_all add: demo_client_def)

section \<open>What a call returns\<close>

text \<open>
  The same runs with what happens in them: a call begins and gets its id, a message comes, a call
  ends and returns a status and a reader. A call that is refused leaves no event.
\<close>

datatype client_event = Began u32 | Got "u8 list" | Ended u32 u32 unmarshall

inductive client_trace :: "bool \<Rightarrow> u32 \<Rightarrow> client_event list \<Rightarrow> rpcc \<Rightarrow> bool" for retrans rnd where
  t_start: "client_trace retrans rnd [] (new_rpcc retrans rnd)"
| t_refused:
  "client_trace retrans rnd es s \<Longrightarrow> call1_begin r0 proc req s = Some (Inl r, s') \<Longrightarrow> client_trace retrans rnd es s'"
| t_begin:
  "client_trace retrans rnd es s \<Longrightarrow> cl_xid s + 1 \<noteq> 0 \<Longrightarrow> call1_begin r0 proc req s = Some (Inr (x, m), s') \<Longrightarrow>
   client_trace retrans rnd (es @ [Began x]) s'"
| t_got:
  "client_trace retrans rnd es s \<Longrightarrow> fits_int (int (length b)) \<Longrightarrow> rpcc_got_pdu b s = Some s' \<Longrightarrow>
   client_trace retrans rnd (es @ [Got b]) s'"
| t_end:
  "client_trace retrans rnd es s \<Longrightarrow> call1_end x s = Some (ret, un, s') \<Longrightarrow>
   client_trace retrans rnd (es @ [Ended x ret un]) s'"
| t_bind: "client_trace retrans rnd es s \<Longrightarrow> client_trace retrans rnd es (bind_end ret r s)"

lemma client_trace_end:
  "client_trace retrans rnd (es @ [Ended x ret un]) s \<Longrightarrow>
    \<exists>s0 s1. client_trace retrans rnd es s0 \<and> call1_end x s0 = Some (ret, un, s1)"
  by (induction "es @ [Ended x ret un]" s rule: client_trace.induct) auto

text \<open>The messages with the id \<open>x\<close> and a whole header.\<close>

fun replies_to :: "u32 \<Rightarrow> client_event list \<Rightarrow> u8 list list" where
  "replies_to x [] = []"
| "replies_to x (Got b # es) =
     (if 12 \<le> length b \<and> rp_xid (reply_header_of b) = x then b # replies_to x es else replies_to x es)"
| "replies_to x (_ # es) = replies_to x es"

lemma replies_to_append [simp]: "replies_to x (es @ es') = replies_to x es @ replies_to x es'"
  by (induction x es rule: replies_to.induct) simp_all

text \<open>A call in the map began once and has what the first reply since then brought.\<close>

definition open_call :: "client_event list \<Rightarrow> u32 \<Rightarrow> caller \<Rightarrow> bool" where
  "open_call es x ca \<longleftrightarrow> (\<exists>pre mid. es = pre @ Began x # mid \<and> Began x \<notin> set (pre @ mid) \<and>
     (\<forall>r u. Ended x r u \<notin> set es) \<and>
     (case replies_to x mid of
        [] \<Rightarrow> \<not> ca_done ca \<and> ca_un ca = empty_unmarshall
      | b # _ \<Rightarrow> ca_done ca \<and> ca_intret ca = rp_ret (reply_header_of b) \<and>
          ca_un ca = \<lparr>u_buf = Some b, u_sz = int (length b), u_ind = RPC_HEADER_SZ,
                      u_ok = (RPC_HEADER_SZ \<le> int (length b))\<rparr>))"

definition trace_ok :: "client_event list \<Rightarrow> rpcc \<Rightarrow> bool" where
  "trace_ok es s \<longleftrightarrow>
     (\<forall>x. Began x \<in> set es \<longrightarrow> x < cl_xid s) \<and> (\<forall>x r u. Ended x r u \<in> set es \<longrightarrow> x < cl_xid s) \<and>
     (\<forall>x ca. cl_calls s x = Some ca \<longrightarrow> open_call es x ca)"

text \<open>How the call follows the events.\<close>

lemma open_call_same:
  assumes "open_call es x ca" "e \<noteq> Began x" "\<And>r u. e \<noteq> Ended x r u" "replies_to x [e] = []"
  shows "open_call (es @ [e]) x ca"
proof -
  obtain pre mid where "es = pre @ Began x # mid" "Began x \<notin> set (pre @ mid)" "\<forall>r u. Ended x r u \<notin> set es"
      "case replies_to x mid of [] \<Rightarrow> \<not> ca_done ca \<and> ca_un ca = empty_unmarshall
      | b # _ \<Rightarrow> ca_done ca \<and> ca_intret ca = rp_ret (reply_header_of b) \<and>
          ca_un ca = \<lparr>u_buf = Some b, u_sz = int (length b), u_ind = RPC_HEADER_SZ,
                      u_ok = (RPC_HEADER_SZ \<le> int (length b))\<rparr>"
    using assms(1) unfolding open_call_def by blast
  with assms(2-4) show ?thesis
    unfolding open_call_def by (intro exI [of _ pre] exI [of _ "mid @ [e]"]) auto
qed

lemma open_call_begin:
  assumes "Began x \<notin> set es" "\<And>r u. Ended x r u \<notin> set es"
  shows "open_call (es @ [Began x]) x (new_caller r0 x empty_unmarshall)"
  unfolding open_call_def using assms
  by (intro exI [of _ es] exI [of _ "[]"]) (simp add: new_caller_def)

lemma open_call_reply:
  assumes "open_call es x ca" "12 \<le> length b" "rp_xid (reply_header_of b) = x"
  shows "open_call (es @ [Got b]) x (if ca_done ca then ca else finish_call (rp_ret (reply_header_of b)) b ca)"
proof -
  obtain pre mid where "es = pre @ Began x # mid" "Began x \<notin> set (pre @ mid)" "\<forall>r u. Ended x r u \<notin> set es"
      "case replies_to x mid of [] \<Rightarrow> \<not> ca_done ca \<and> ca_un ca = empty_unmarshall
      | b # _ \<Rightarrow> ca_done ca \<and> ca_intret ca = rp_ret (reply_header_of b) \<and>
          ca_un ca = \<lparr>u_buf = Some b, u_sz = int (length b), u_ind = RPC_HEADER_SZ,
                      u_ok = (RPC_HEADER_SZ \<le> int (length b))\<rparr>"
    using assms(1) unfolding open_call_def by blast
  with assms(2,3) show ?thesis
    unfolding open_call_def
    by (intro exI [of _ pre] exI [of _ "mid @ [Got b]"]) (auto simp: finish_call_def split: list.splits)
qed

lemma trace_ok_begin:
  assumes ok: "trace_ok es s" and wrap: "cl_xid s + 1 \<noteq> 0" and "call1_begin r0 proc req s = Some (Inr (x, m), s')"
  shows "trace_ok (es @ [Began x]) s'"
  using assms(3)
proof (cases rule: call1_begin_cases)
  case (2 front rest m')
  have x: "x = cl_xid s" and new: "Began x \<notin> set es" "\<And>r u. Ended x r u \<notin> set es"
    using 2(2) ok by (auto simp: trace_ok_def)
  have less: "y < cl_xid s + 1" if "y < cl_xid s" for y
    using that word_less_succ [OF wrap] by simp
  have "open_call (es @ [Began x]) y ca" if "cl_calls s' y = Some ca" for y ca
  proof (cases "y = x")
    case True
    with that 2(4) x open_call_begin [OF new] show ?thesis
      by auto
  next
    case False
    with that 2(4) x ok have "open_call es y ca"
      by (simp add: trace_ok_def)
    then show ?thesis
      by (rule open_call_same) (use False in auto)
  qed
  with ok less word_less_succ [OF wrap] x 2(4) show ?thesis
    by (auto simp: trace_ok_def)
qed simp

lemma trace_ok_got:
  assumes ok: "trace_ok es s" and b: "fits_int (int (length b))" and got: "rpcc_got_pdu b s = Some s'"
  shows "trace_ok (es @ [Got b]) s'"
proof -
  let ?x = "rp_xid (reply_header_of b)"
  have calls: "cl_xid s' = cl_xid s" "cl_calls s' = (if length b < 12 then cl_calls s else
      case cl_calls s ?x of None \<Rightarrow> cl_calls s
      | Some ca \<Rightarrow> (cl_calls s)(?x \<mapsto> if ca_done ca then ca else finish_call (rp_ret (reply_header_of b)) b ca))"
    using got by (auto simp: rpcc_got_pdu_eq [OF b] Let_def fun_eq_iff split: option.splits Option.bind_splits if_splits)
  have "open_call (es @ [Got b]) y ca" if y: "cl_calls s' y = Some ca" for y ca
  proof (cases "12 \<le> length b \<and> y = ?x")
    case True
    with y calls(2) obtain ca0 where ca0: "cl_calls s ?x = Some ca0"
        "ca = (if ca_done ca0 then ca0 else finish_call (rp_ret (reply_header_of b)) b ca0)"
      by (auto split: option.splits)
    with ok have "open_call es ?x ca0"
      by (simp add: trace_ok_def)
    from open_call_reply [OF this _ refl] True ca0(2) show ?thesis
      by simp
  next
    case False
    with y calls(2) have "cl_calls s y = Some ca"
      by (auto split: option.splits if_splits)
    with ok have "open_call es y ca"
      by (simp add: trace_ok_def)
    then show ?thesis
      by (rule open_call_same) (use False in auto)
  qed
  with ok calls(1) show ?thesis
    by (auto simp: trace_ok_def)
qed

lemma trace_ok_end:
  assumes ok: "trace_ok es s" and "call1_end x s = Some (ret, un, s')"
  shows "trace_ok (es @ [Ended x ret un]) s'"
proof -
  obtain ca w where ca: "cl_calls s x = Some ca" and s': "s' = s\<lparr>cl_calls := (cl_calls s)(x := None), cl_window := w\<rparr>"
    using assms(2) by (auto simp: call1_end_def split: option.splits Option.bind_splits)
  have "open_call es x ca"
    using ok ca by (simp add: trace_ok_def)
  then have "Began x \<in> set es"
    by (auto simp: open_call_def)
  then have "x < cl_xid s"
    using ok by (simp add: trace_ok_def)
  moreover have "open_call (es @ [Ended x ret un]) y ca'" if y: "cl_calls s' y = Some ca'" for y ca'
  proof -
    have "y \<noteq> x" "open_call es y ca'"
      using y s' ok by (auto simp: trace_ok_def split: if_splits)
    then show ?thesis
      by (auto intro: open_call_same)
  qed
  ultimately show ?thesis
    using ok s' by (auto simp: trace_ok_def)
qed

lemma trace_ok_reach: "client_trace retrans rnd es s \<Longrightarrow> trace_ok es s"
proof (induction rule: client_trace.induct)
  case t_start
  then show ?case
    by (simp add: trace_ok_def new_rpcc_def)
next
  case (t_refused es s r0 proc req r s')
  from t_refused.hyps(2) t_refused.IH show ?case
    by (cases rule: call1_begin_cases) simp_all
next
  case (t_bind es s ret r)
  then show ?case
    by (simp add: trace_ok_def bind_end_def)
qed (simp_all add: trace_ok_begin trace_ok_got trace_ok_end)

text \<open>A call with two replies, after a message for an id that was not given out yet.\<close>

definition demo_answer :: "u32 \<Rightarrow> u32 \<Rightarrow> u8 list" where
  "demo_answer xid ret = replicate 4 0 @ be32 xid @ be32 ret"

definition demo_body :: unmarshall where
  "demo_body = \<lparr>u_buf = Some (demo_answer 1 9), u_sz = 12, u_ind = RPC_HEADER_SZ, u_ok = False\<rparr>"

definition demo_run :: "(u32 \<times> unmarshall \<times> rpcc) option" where
  "demo_run = do {
     s \<leftarrow> rpcc_got_pdu (demo_answer 2 8) demo_client;
     s \<leftarrow> rpcc_got_pdu (demo_answer 1 9) s;
     s \<leftarrow> rpcc_got_pdu (demo_answer 1 8) s;
     call1_end 1 s
   }"

lemma demo_run_eq: "map_option (\<lambda>(r, un, s). (r, un)) demo_run = Some (9, demo_body)"
  by code_simp

lemma demo_trace:
  "\<exists>s. client_trace True 7 ([Began 1, Got (demo_answer 2 8), Got (demo_answer 1 9), Got (demo_answer 1 8)] @
    [Ended 1 9 demo_body]) s"
proof -
  obtain s1 s2 s3 s4 where s: "rpcc_got_pdu (demo_answer 2 8) demo_client = Some s1"
      "rpcc_got_pdu (demo_answer 1 9) s1 = Some s2" "rpcc_got_pdu (demo_answer 1 8) s2 = Some s3"
      "call1_end 1 s3 = Some (9, demo_body, s4)"
    using demo_run_eq by (auto simp: demo_run_def split: Option.bind_splits)
  have fits: "fits_int (int (length (demo_answer x r)))" for x r
    by (simp add: demo_answer_def fits_int_def int_max_def)
  obtain m where m: "call1_begin 0 5 (new_marshall (\<lambda>_. 0)) (bind_end 0 42 (new_rpcc True 7)) = Some (Inr (1, m), demo_client)"
    using demo_client_begin by blast
  have "cl_xid (bind_end 0 42 (new_rpcc True 7)) + 1 \<noteq> 0"
    by (simp add: bind_end_def new_rpcc_def)
  from t_begin [OF t_bind [OF t_start] this m] have "client_trace True 7 [Began 1] demo_client"
    by simp
  from t_end [OF t_got [OF t_got [OF t_got [OF this fits s(1)] fits s(2)] fits s(3)] s(4)] show ?thesis
    by auto
qed

section \<open>Properties\<close>

text \<open>
  C13. A client never acknowledges a request it still waits for: in every reachable state, with
  any number of concurrent calls, replies in any order, duplicates and timeouts, the id in the
  acknowledgement field of the next request is below the id of every pending call. So the server
  neither forgets the reply of a pending call nor refuses it as too old.
\<close>

theorem pending_never_acknowledged:
  assumes "client_reach retrans rnd s" "cl_calls s x = Some ca" "\<not> ca_done ca"
  shows "hd (cl_window s) < x \<and> x < cl_xid s"
proof -
  have "wf_window (cl_window s)" "x \<notin> acked (cl_window s)" "x < cl_xid s"
    using client_reach_inv [OF assms(1)] assms(2,3) by (auto simp: client_inv_def)
  then show ?thesis
    by (auto simp: acked_def not_le)
qed

theorem pending_never_acknowledged_witness:
  "hd (cl_window demo_client) < 1 \<and> 1 < cl_xid demo_client"
  by (rule pending_never_acknowledged [OF demo_client_reach demo_client_calls(1)])
    (simp add: new_caller_def)

text \<open>
  C11. Every call gets its own reply: in every run of concurrent calls, with messages from the server
  of any content and in any order, a call that ends has begun once, with an id no other call has
  had, and it returns the status and the body of the first message with its id that came after it
  began; the copies that come later and the replies to other calls make no difference. If no such
  message has come it returns \<open>timeout_failure\<close> and an empty reader. (The ids have not wrapped
  around.)
\<close>

theorem call_gets_first_reply:
  assumes "client_trace retrans rnd (es @ [Ended x ret un]) s"
  shows "\<exists>pre mid. es = pre @ Began x # mid \<and> Began x \<notin> set (pre @ mid) \<and> (\<forall>r u. Ended x r u \<notin> set es) \<and>
    (case replies_to x mid of
       [] \<Rightarrow> ret = timeout_failure \<and> un = empty_unmarshall
     | b # _ \<Rightarrow> ret = rp_ret (reply_header_of b) \<and>
         un = \<lparr>u_buf = Some b, u_sz = int (length b), u_ind = RPC_HEADER_SZ,
               u_ok = (RPC_HEADER_SZ \<le> int (length b))\<rparr>)"
proof -
  obtain s0 s1 where s0: "client_trace retrans rnd es s0" "call1_end x s0 = Some (ret, un, s1)"
    using client_trace_end [OF assms] by blast
  obtain ca where ca: "cl_calls s0 x = Some ca" "un = ca_un ca"
      "ret = (if ca_done ca then ca_intret ca else timeout_failure)"
    using s0(2) by (auto simp: call1_end_def split: option.splits Option.bind_splits)
  have "open_call es x ca"
    using trace_ok_reach [OF s0(1)] ca(1) by (simp add: trace_ok_def)
  then show ?thesis
    unfolding open_call_def using ca(2,3) by (fastforce split: list.splits)
qed

theorem call_gets_first_reply_witness:
  "\<exists>pre mid. [Began 1, Got (demo_answer 2 8), Got (demo_answer 1 9), Got (demo_answer 1 8)] = pre @ Began 1 # mid \<and>
    Began 1 \<notin> set (pre @ mid) \<and>
    (\<forall>r u. Ended 1 r u \<notin> set [Began 1, Got (demo_answer 2 8), Got (demo_answer 1 9), Got (demo_answer 1 8)]) \<and>
    (case replies_to 1 mid of
       [] \<Rightarrow> (9 :: u32) = timeout_failure \<and> demo_body = empty_unmarshall
     | b # _ \<Rightarrow> 9 = rp_ret (reply_header_of b) \<and>
         demo_body = \<lparr>u_buf = Some b, u_sz = int (length b), u_ind = RPC_HEADER_SZ,
               u_ok = (RPC_HEADER_SZ \<le> int (length b))\<rparr>)"
  using demo_trace call_gets_first_reply [of True 7 "[Began 1, Got (demo_answer 2 8), Got (demo_answer 1 9),
    Got (demo_answer 1 8)]" 1 9 demo_body] by blast

end
