(* ===== verification/Rpc_Loopback.thy ===== *)
theory Rpc_Loopback
  imports Rpc_Server Rpc_Client Lock_Server
begin

text \<open>
  A client and a server that talk over a connection which loses nothing: \<open>rpcc::call1\<close> begins,
  its request is a job of the server, what the server sends is given to the client, and \<open>call1\<close>
  ends. This is the interpretation of the contract \<open>rpc_transport\<close> on the code, and gives what a
  typed call means end to end.
\<close>

section \<open>The composition\<close>

record 's loop =
  lb_client :: rpcc
  lb_server :: "'s rpc_server"
  lb_next :: addr
  lb_junk :: "nat \<Rightarrow> u8"

fun deliver_all :: "(conn \<times> u8 list) list \<Rightarrow> rpcc \<Rightarrow> rpcc option" where
  "deliver_all [] cl = Some cl"
| "deliver_all ((c, b) # ms) cl = do { cl \<leftarrow> rpcc_got_pdu b cl; deliver_all ms cl }"

text \<open>
  \<open>c\<close> is the connection at the server. The reply is a block at the next unused address. When no
  reply comes the call ends with a timeout.
\<close>

definition loop_call1 :: "conn \<Rightarrow> 's loop net" where
  "loop_call1 c proc req w = do {
     (r, cl) \<leftarrow> call1_begin 0 proc req (lb_client w);
     (case r of
        Inl err \<Rightarrow> Some (err, empty_unmarshall, w\<lparr>lb_client := cl\<rparr>)
      | Inr (xid, req) \<Rightarrow> do {
          (acc, sv) \<leftarrow> rpcs_got_pdu True c (lb_server w);
          sv' \<leftarrow> dispatch (lb_junk w) (lb_next w) c (framed (m_bytes req)) sv;
          cl \<leftarrow> deliver_all (drop (length (sent (rs_net sv))) (sent (rs_net sv'))) cl;
          (ret, un, cl) \<leftarrow> call1_end xid cl;
          Some (ret, un, w\<lparr>lb_client := cl, lb_server := sv', lb_next := lb_next w + 1\<rparr>)
        })
   }"

section \<open>When it works\<close>

text \<open>
  The client is bound to this server or to none yet and has a nonce, the connection is alive, the
  listener holds it, the server has seen nothing that the client has not sent, and \<open>k\<close> more ids
  are left.
\<close>

definition listener_ref :: "conn \<Rightarrow> conn \<Rightarrow> int" where
  "listener_ref c d = (if d = c then 1 else 0)"

definition loop_ready :: "conn \<Rightarrow> nat \<Rightarrow> 's loop \<Rightarrow> bool" where
  "loop_ready c k w \<longleftrightarrow>
     client_inv (lb_client w) \<and> cl_clt_nonce (lb_client w) \<noteq> 0 \<and>
     (cl_srv_nonce (lb_client w) = 0 \<or> cl_srv_nonce (lb_client w) = rs_nonce (lb_server w)) \<and>
     unat (cl_xid (lb_client w)) + k < 2 ^ 32 \<and>
     server_ok (listener_ref c) (lb_server w) \<and> \<not> dead (rs_net (lb_server w)) c \<and>
     (\<forall>y. known (rs_replies (lb_server w)) (cl_clt_nonce (lb_client w)) y \<longrightarrow> y < cl_xid (lb_client w)) \<and>
     (\<forall>a \<ge> lb_next w. rheap (rs_replies (lb_server w)) a = None)"

lemma framed_bytes: "framed b = overwrite b 0 (be32 (word_of_nat (length b)))"
  by (simp add: framed_def be32_def Let_def)

lemma framed_message:
  assumes "b = overwrite (pre @ bs) 4 h" "length pre = 24" "length h \<le> 20"
  shows "length (framed b) = 24 + length bs" "take (length h) (drop 4 (framed b)) = h"
    "drop 24 (framed b) = bs"
proof -
  have len: "length b = 24 + length bs"
    using assms by (simp add: overwrite_def)
  then show "length (framed b) = 24 + length bs"
    by (simp add: framed_bytes)
  have "drop 4 (framed b) = drop 4 b"
    using len by (simp add: framed_bytes drop_overwrite_beyond)
  moreover have "take (length h) (drop 4 b) = h"
    using assms by (simp add: overwrite_def)
  ultimately show "take (length h) (drop 4 (framed b)) = h"
    by simp
  have "drop 24 (framed b) = drop 24 b"
    using len by (simp add: framed_bytes drop_overwrite_beyond)
  also have "\<dots> = drop 24 (pre @ bs)"
    unfolding assms(1) by (rule drop_overwrite_beyond) (use assms(2,3) in simp_all)
  finally show "drop 24 (framed b) = bs"
    using assms(2) by simp
qed

lemma pack_req_ok:
  assumes "wf_marshall m"
  obtains m' where "pack_req_header h m = Some m'" "m_bytes m' = overwrite (m_bytes m) 4 (enc_req_header h)"
proof -
  obtain b where b: "m_buf m = Some b" "int (length b) = m_capa m" "DEFAULT_RPC_SZ \<le> m_capa m"
    using assms by (auto simp: wf_marshall_def wf_buf_def)
  show thesis
    by (rule that [OF pack_req_header_eq [OF b]])
      (use wf_header_update(2) [OF assms b(1), of "enc_req_header h"] in simp)
qed

text \<open>A client calls bind first, and once.\<close>

definition loop_allowed :: "'s loop \<Rightarrow> u32 \<Rightarrow> bool" where
  "loop_allowed w proc \<longleftrightarrow> (cl_bind_done (lb_client w) \<longleftrightarrow> proc \<noteq> rpc_bind)"

text \<open>No call changes whether the client is bound, its nonce, or the nonce of the server.\<close>

definition loop_fixed :: "'s loop \<Rightarrow> bool \<times> u32 \<times> u32" where
  "loop_fixed w = (cl_bind_done (lb_client w), cl_clt_nonce (lb_client w), rs_nonce (lb_server w))"

text \<open>The request arrives as it was sent.\<close>

lemma request_arrives:
  assumes "length buf = 24 + length args" "24 + int (length args) \<le> msg_limit"
    and "take 20 (drop 4 buf) = enc_req_header h" "drop 24 buf = args"
  obtains req where "unpack_req_header (new_unmarshall buf (int (length buf))) = Some (h, req)"
    "request_header buf = h" "wf_unmarshall req" "u_ok req" "u_rest req = args"
proof -
  let ?u = "new_unmarshall buf (int (length buf))"
  have fits: "fits_int (int (length buf))"
    using assms(1,2) by (simp add: fits_int_def int_max_def msg_limit_def)
  have eq: "unpack_req_header ?u = Some (h, ?u\<lparr>u_ind := RPC_HEADER_SZ\<rparr>)"
    by (rule unpack_req_header_eq [of _ buf])
      (use fits assms(1,3) in \<open>simp_all add: new_unmarshall_def wf_reader_def\<close>)
  show thesis
  proof (rule that [OF eq])
    show "wf_unmarshall (?u\<lparr>u_ind := RPC_HEADER_SZ\<rparr>)"
      using fits assms(1) by (simp add: new_unmarshall_def wf_unmarshall_def wf_reader_def)
  qed (use assms eq in \<open>simp_all add: new_unmarshall_def u_rest_def request_header_def\<close>)
qed

text \<open>And so does the reply, for the reader of the pending call.\<close>

lemma reply_arrives:
  assumes "length buf = 24 + length res" "24 + int (length res) \<le> msg_limit"
    and "take 8 (drop 4 buf) = enc_reply_header h" "drop 24 buf = res"
  shows "fits_int (int (length buf))" "reply_header_of buf = h"
    "wf_unmarshall \<lparr>u_buf = Some buf, u_sz = int (length buf), u_ind = RPC_HEADER_SZ, u_ok = b\<rparr>"
    "u_rest \<lparr>u_buf = Some buf, u_sz = int (length buf), u_ind = RPC_HEADER_SZ, u_ok = b\<rparr> = res"
proof -
  let ?u = "new_unmarshall buf (int (length buf))"
  show fits: "fits_int (int (length buf))"
    using assms(1,2) by (simp add: fits_int_def int_max_def msg_limit_def)
  have "unpack_reply_header ?u = Some (h, ?u\<lparr>u_ind := RPC_HEADER_SZ\<rparr>)"
    by (rule unpack_reply_header_eq [of _ buf])
      (use fits assms(1,3) in \<open>simp_all add: new_unmarshall_def wf_reader_def\<close>)
  then show "reply_header_of buf = h"
    by (simp add: reply_header_of_def)
  show "wf_unmarshall \<lparr>u_buf = Some buf, u_sz = int (length buf), u_ind = RPC_HEADER_SZ, u_ok = b\<rparr>"
    "u_rest \<lparr>u_buf = Some buf, u_sz = int (length buf), u_ind = RPC_HEADER_SZ, u_ok = b\<rparr> = res"
    using fits assms(1,4) by (simp_all add: wf_unmarshall_def wf_reader_def u_rest_def)
qed

text \<open>The client's half of an exchange.\<close>

lemma client_exchange:
  assumes inv: "client_inv s" and wrap: "cl_xid s + 1 \<noteq> 0"
    and begin1: "call1_begin 0 proc req s = Some (Inr (x, req'), s1)"
    and buf: "fits_int (int (length buf))" "24 \<le> length buf" "reply_header_of buf = \<lparr>rp_xid = x, rp_ret = ret\<rparr>"
  shows "\<exists>s2 s3. deliver_all [(c, buf)] s1 = Some s2 \<and>
    call1_end x s2 = Some (ret, \<lparr>u_buf = Some buf, u_sz = int (length buf), u_ind = RPC_HEADER_SZ,
      u_ok = True\<rparr>, s3) \<and>
    client_inv s3 \<and> cl_xid s3 = cl_xid s + 1 \<and> cl_clt_nonce s3 = cl_clt_nonce s \<and>
    cl_srv_nonce s3 = cl_srv_nonce s \<and> cl_bind_done s3 = cl_bind_done s"
proof -
  have inv1: "client_inv s1"
    by (rule step_begin_inv [OF inv wrap begin1])
  have x: "x = cl_xid s" and s1: "s1 = s\<lparr>cl_xid := cl_xid s + 1,
      cl_calls := (cl_calls s)(cl_xid s \<mapsto> new_caller 0 (cl_xid s) empty_unmarshall)\<rparr>"
    using begin1 by (auto elim: call1_begin_cases)
  obtain w where w: "update_xid_rep x (cl_window s1) = Some w" "wf_window w"
    using update_xid_rep_spec inv1 unfolding client_inv_def by blast
  obtain w' where w': "update_xid_rep x w = Some w'"
    using update_xid_rep_spec [OF w(2)] by blast
  let ?ca = "finish_call ret buf (new_caller 0 x empty_unmarshall)"
  let ?s2 = "s1\<lparr>cl_window := w, cl_calls := (cl_calls s1)(x \<mapsto> ?ca)\<rparr>"
  let ?s3 = "?s2\<lparr>cl_calls := (cl_calls ?s2)(x := None), cl_window := w'\<rparr>"
  have got: "rpcc_got_pdu buf s1 = Some ?s2"
    using w(1) buf(2,3) x by (simp add: rpcc_got_pdu_eq [OF buf(1)] Let_def s1 new_caller_def)
  have inv2: "client_inv ?s2"
    by (rule step_reply_inv [OF inv1 buf(1) _ got])
      (use word_less_succ [OF wrap] buf(3) x s1 in simp)
  have end1: "call1_end x ?s2 = Some (ret, \<lparr>u_buf = Some buf, u_sz = int (length buf),
      u_ind = RPC_HEADER_SZ, u_ok = True\<rparr>, ?s3)"
    using w' buf(2) by (simp add: call1_end_def finish_call_def)
  have "client_inv ?s3"
    by (rule step_end_inv [OF inv2 end1])
  with got end1 show ?thesis
    by (auto simp: s1)
qed

text \<open>The server's half: the job of a new request, run on a live connection.\<close>

lemma server_exchange:
  assumes ok: "server_ok (listener_ref c) s" and alive: "\<not> dead (rs_net s) c"
    and b: "0 \<le> sint b \<or> b = unmarshal_args_failure" and args: "24 + int (length args) \<le> msg_limit" "length buf = 24 + length args"
      "take 20 (drop 4 buf) = enc_req_header h" "drop 24 buf = args"
    and h: "rq_clt_nonce h \<noteq> 0" "rq_srv_nonce h = 0 \<or> rq_srv_nonce h = rs_nonce s" "rq_xid_rep h < rq_xid h"
    and f: "rs_procs s (rq_proc h) = Some f"
    and new: "\<not> known (rs_replies s) (rq_clt_nonce h) (rq_xid h)"
    and fresh: "rheap (rs_replies s) a = None"
    and run: "\<forall>u. wf_unmarshall u \<and> u_ok u \<and> u_rest u = args \<longrightarrow>
      (\<exists>rep pre'. f u (new_marshall g) (rs_app s) = Some (b, rep, s') \<and> wf_marshall rep \<and>
        m_bytes rep = pre' @ res \<and> length pre' = 24)"
  shows "\<exists>sv sv' msg. rpcs_got_pdu True c s = Some (True, sv) \<and> dispatch g a c buf sv = Some sv' \<and>
    drop (length (sent (rs_net sv))) (sent (rs_net sv')) = [(c, msg)] \<and>
    length msg = 24 + length res \<and> take 8 (drop 4 msg) = enc_reply_header \<lparr>rp_xid = rq_xid h, rp_ret = b\<rparr> \<and>
    drop 24 msg = res \<and> rs_app sv' = s' \<and> rs_procs sv' = rs_procs s \<and> rs_nonce sv' = rs_nonce s \<and>
    server_ok (listener_ref c) sv' \<and> \<not> dead (rs_net sv') c \<and>
    (\<forall>clt y. known (rs_replies sv') clt y \<longrightarrow> known (rs_replies s) clt y \<or> clt = rq_clt_nonce h \<and> y = rq_xid h) \<and>
    (\<forall>d. d \<noteq> a \<longrightarrow> rheap (rs_replies s) d = None \<longrightarrow> rheap (rs_replies sv') d = None)"
proof -
  let ?J = "(listener_ref c)(c := 2)"
  have refs: "refs_inv (listener_ref c) s"
    using ok by (simp add: server_ok_def)
  obtain sv where sv: "on_net (incref c) s = Some sv" "refs_inv ?J sv" "same_but_net s sv"
    using take_job [OF refs, of c] by (auto simp: listener_ref_def)
  note same = same_but_netD [OF sv(3)]
  have sv_ok: "server_ok ?J sv"
    using ok sv(2) same by (simp add: server_ok_def)
  obtain req where req: "unpack_req_header (new_unmarshall buf (int (length buf))) = Some (h, req)"
    "request_header buf = h" "wf_unmarshall req" "u_ok req" "u_rest req = args"
    by (rule request_arrives [OF args(2,1,3,4)])
  have fits: "fits_int (int (length buf))"
    using args(1,2) by (simp add: fits_int_def int_max_def msg_limit_def)
  obtain rep pre' where rep: "f req (new_marshall g) (rs_app s) = Some (b, rep, s')"
      "m_bytes rep = pre' @ res" "length pre' = 24" "wf_marshall rep"
    using run req(3-5) by blast
  have ret: "job_returns g buf sv"
    using req(1,2) rep(1,4) f b same by (simp add: job_returns_def handler_returns_def)
  obtain bs sv' where sv': "dispatch g a c buf sv = Some sv'" "refs_inv (?J(c := ?J c - 1)) sv'"
      "rw_inv (rs_replies sv')" "sent (rs_net sv') = sent (rs_net sv) @ [(c, framed bs)]"
      "dead (rs_net sv') = dead (rs_net sv)" "rs_procs sv' = rs_procs sv" "rs_nonce sv' = rs_nonce sv"
      "\<And>f req ret rep app. rs_procs sv (rq_proc h) = Some f \<Longrightarrow>
         unpack_req_header (new_unmarshall buf (int (length buf))) = Some (h, req) \<Longrightarrow>
         f req (new_marshall g) (rs_app sv) = Some (ret, rep, app) \<Longrightarrow> rs_app sv' = app \<and>
         bs = overwrite (m_bytes rep) 4 (enc_reply_header \<lparr>rp_xid = rq_xid h, rp_ret = ret\<rparr>)"
      "\<And>clt y. known (rs_replies sv') clt y \<Longrightarrow> known (rs_replies sv) clt y \<or>
         clt = rq_clt_nonce h \<and> y = rq_xid h"
      "\<And>d. d \<noteq> a \<Longrightarrow> rheap (rs_replies sv) d = None \<Longrightarrow> rheap (rs_replies sv') d = None"
    by (rule new_request_answered [OF sv_ok ret, of c a])
      (use fits args(2) h f new fresh alive same req(2) in
        \<open>simp_all add: old_server_request_def, blast?\<close>)
  have app: "rs_app sv' = s'"
      "bs = overwrite (pre' @ res) 4 (enc_reply_header \<lparr>rp_xid = rq_xid h, rp_ret = b\<rparr>)"
    using sv'(8) [of f req b rep s'] f req(1) rep same by simp_all
  note msg = framed_message [OF app(2) rep(3)]
  have "?J(c := ?J c - 1) = listener_ref c"
    by (auto simp: listener_ref_def)
  then have "server_ok (listener_ref c) sv'"
    using sv'(2,3,6) sv_ok by (simp add: server_ok_def)
  moreover have "rpcs_got_pdu True c s = Some (True, sv)"
    using sv(1) by (simp add: rpcs_got_pdu_def)
  ultimately show ?thesis
    using sv'(1,4-7,9,10) app(1) msg same alive by (intro exI [of _ sv] exI [of _ sv'] exI) auto
qed

section \<open>The contract holds\<close>

lemma word_succ_no_wrap:
  assumes "unat x + Suc k < 2 ^ 32"
  shows "x + 1 \<noteq> (0 :: u32)" "unat (x + 1) = unat x + 1"
proof -
  show "unat (x + 1) = unat x + 1"
    using assms by (simp add: unat_word_ariths)
  then show "x + 1 \<noteq> 0"
    by (metis add_is_0 one_neq_zero unsigned_0)
qed

lemma loop_delivers:
  assumes ready: "loop_ready c (Suc k) w" and proc: "loop_allowed w proc"
    and f: "rs_procs (lb_server w) proc = Some f"
    and req: "wf_marshall req" "m_bytes req = pre @ args" "length pre = 24" "m_ind req \<le> msg_limit"
    and run: "\<And>u g. wf_unmarshall u \<Longrightarrow> u_ok u \<Longrightarrow> u_rest u = args \<Longrightarrow>
      \<exists>rep pre'. f u (new_marshall g) (rs_app (lb_server w)) = Some (b, rep, s') \<and> wf_marshall rep \<and>
        m_bytes rep = pre' @ res \<and> length pre' = 24"
    and res: "24 + int (length res) \<le> msg_limit" and b: "0 \<le> sint b \<or> b = unmarshal_args_failure"
  shows "\<exists>u w'. loop_call1 c proc req w = Some (b, u, w') \<and> wf_unmarshall u \<and> u_ok u \<and> u_rest u = res \<and>
    rs_app (lb_server w') = s' \<and> rs_procs (lb_server w') = rs_procs (lb_server w) \<and> loop_ready c k w' \<and>
    loop_fixed w' = loop_fixed w"
proof -
  let ?cl = "lb_client w" and ?sv = "lb_server w"
  have inv: "client_inv ?cl" and nonce: "cl_clt_nonce ?cl \<noteq> 0"
    and srv: "cl_srv_nonce ?cl = 0 \<or> cl_srv_nonce ?cl = rs_nonce ?sv" and left: "unat (cl_xid ?cl) + Suc k < 2 ^ 32"
    and ok: "server_ok (listener_ref c) ?sv" and alive: "\<not> dead (rs_net ?sv) c"
    and seen: "\<And>y. known (rs_replies ?sv) (cl_clt_nonce ?cl) y \<Longrightarrow> y < cl_xid ?cl"
    and fresh: "\<And>a. a \<ge> lb_next w \<Longrightarrow> rheap (rs_replies ?sv) a = None"
    using ready unfolding loop_ready_def by blast+
  note wrap = word_succ_no_wrap [OF left]
  obtain front rest where win: "cl_window ?cl = front # rest"
    using inv by (cases "cl_window ?cl") (auto simp: client_inv_def wf_window_def)
  have front: "front < cl_xid ?cl"
    using inv win by (auto simp: client_inv_def acked_def)
  let ?h = "\<lparr>rq_xid = cl_xid ?cl, rq_proc = proc, rq_clt_nonce = cl_clt_nonce ?cl,
    rq_srv_nonce = cl_srv_nonce ?cl, rq_xid_rep = front\<rparr>"
  obtain req' where req': "pack_req_header ?h req = Some req'"
      "m_bytes req' = overwrite (pre @ args) 4 (enc_req_header ?h)"
    using pack_req_ok [OF req(1), of ?h] req(2) by metis
  let ?buf = "framed (m_bytes req')"
  have "length (enc_req_header ?h) \<le> 20"
    by simp
  note buf = framed_message [OF req'(2) req(3) this]
  obtain cl1 where cl1: "call1_begin 0 proc req ?cl = Some (Inr (cl_xid ?cl, req'), cl1)"
    using req'(1) win proc by (auto simp: call1_begin_def loop_allowed_def Let_def)
  have "int (length (m_bytes req)) = m_ind req"
    using req(1) by simp
  then have args: "24 + int (length args) \<le> msg_limit"
    using req(2-4) by simp
  have new: "\<not> known (rs_replies ?sv) (cl_clt_nonce ?cl) (cl_xid ?cl)"
    using seen by blast
  have hdr: "take 20 (drop 4 ?buf) = enc_req_header ?h"
    using buf(2) by simp
  have run': "\<forall>u. wf_unmarshall u \<and> u_ok u \<and> u_rest u = args \<longrightarrow>
      (\<exists>rep pre'. f u (new_marshall (lb_junk w)) (rs_app ?sv) = Some (b, rep, s') \<and> wf_marshall rep \<and>
        m_bytes rep = pre' @ res \<and> length pre' = 24)"
    using run by blast
  note ex = server_exchange [OF ok alive b args buf(1) hdr buf(3), simplified req_header.simps,
      OF nonce srv front f new fresh [OF order_refl] run']
  obtain sv sv' msg where sv: "rpcs_got_pdu True c ?sv = Some (True, sv)"
      "dispatch (lb_junk w) (lb_next w) c ?buf sv = Some sv'"
      "drop (length (sent (rs_net sv))) (sent (rs_net sv')) = [(c, msg)]"
      "length msg = 24 + length res"
      "take 8 (drop 4 msg) = enc_reply_header \<lparr>rp_xid = cl_xid ?cl, rp_ret = b\<rparr>" "drop 24 msg = res"
      "rs_app sv' = s'" "rs_procs sv' = rs_procs ?sv" "rs_nonce sv' = rs_nonce ?sv"
      "server_ok (listener_ref c) sv'" "\<not> dead (rs_net sv') c"
      "\<forall>clt y. known (rs_replies sv') clt y \<longrightarrow>
         known (rs_replies ?sv) clt y \<or> clt = cl_clt_nonce ?cl \<and> y = cl_xid ?cl"
      "\<forall>d. d \<noteq> lb_next w \<longrightarrow> rheap (rs_replies ?sv) d = None \<longrightarrow> rheap (rs_replies sv') d = None"
    using ex by (elim exE conjE) (rule that; assumption)
  note msg = reply_arrives [OF sv(4) res sv(5,6)]
  obtain cl2 cl3 where cl: "deliver_all [(c, msg)] cl1 = Some cl2"
      "call1_end (cl_xid ?cl) cl2 = Some (b, \<lparr>u_buf = Some msg, u_sz = int (length msg),
         u_ind = RPC_HEADER_SZ, u_ok = True\<rparr>, cl3)"
      "client_inv cl3" "cl_xid cl3 = cl_xid ?cl + 1" "cl_clt_nonce cl3 = cl_clt_nonce ?cl"
      "cl_srv_nonce cl3 = cl_srv_nonce ?cl" "cl_bind_done cl3 = cl_bind_done ?cl"
    using client_exchange [OF inv wrap(1) cl1 msg(1) _ msg(2), of c] sv(4) by auto
  let ?w = "w\<lparr>lb_client := cl3, lb_server := sv', lb_next := lb_next w + 1\<rparr>"
  let ?u = "\<lparr>u_buf = Some msg, u_sz = int (length msg), u_ind = RPC_HEADER_SZ, u_ok = True\<rparr>"
  have "loop_call1 c proc req w = Some (b, ?u, ?w)"
    using cl1 sv(1-3) cl(1,2) by (simp add: loop_call1_def del: deliver_all.simps)
  moreover have "loop_ready c k ?w"
  proof -
    have "y < cl_xid ?cl + 1" if "known (rs_replies sv') (cl_clt_nonce ?cl) y" for y
    proof -
      have "y < cl_xid ?cl \<or> y = cl_xid ?cl"
        using sv(12) that seen by blast
      then show ?thesis
        using word_less_succ [OF wrap(1)] order.strict_trans by blast
    qed
    moreover have "rheap (rs_replies sv') a = None" if "lb_next w + 1 \<le> a" for a
      using sv(13) fresh [of a] that by simp
    ultimately show ?thesis
      using cl(3-7) sv(9-11) nonce srv left wrap(2) by (simp add: loop_ready_def)
  qed
  ultimately show ?thesis
    using msg(3,4) [of True] sv(7-9) cl(5,7) by (intro exI [of _ ?u] exI [of _ ?w]) (simp add: loop_fixed_def)
qed

interpretation lo: rpc_transport "loop_call1 c" "\<lambda>w. rs_procs (lb_server w)"
    "\<lambda>w. rs_app (lb_server w)" "loop_ready c" loop_allowed loop_fixed for c
proof unfold_locales
  fix k proc f req pre args b s' res and w :: "'a loop"
  assume "loop_ready c (Suc k) w" "loop_allowed w proc" "rs_procs (lb_server w) proc = Some f"
    "wf_marshall req" "m_bytes req = pre @ args" "length pre = 24" "m_ind req \<le> msg_limit"
    "\<And>u g. wf_unmarshall u \<Longrightarrow> u_ok u \<Longrightarrow> u_rest u = args \<Longrightarrow>
      \<exists>rep pre'. f u (new_marshall g) (rs_app (lb_server w)) = Some (b, rep, s') \<and>
        wf_marshall rep \<and> m_bytes rep = pre' @ res \<and> length pre' = 24"
    "24 + int (length res) \<le> msg_limit" "0 \<le> sint b \<or> b = unmarshal_args_failure"
  then show "\<exists>u w'. loop_call1 c proc req w = Some (b, u, w') \<and> wf_unmarshall u \<and> u_ok u \<and>
      u_rest u = res \<and> rs_app (lb_server w') = s' \<and> rs_procs (lb_server w') = rs_procs (lb_server w) \<and>
      loop_ready c k w' \<and> loop_fixed w' = loop_fixed w"
    using loop_delivers [of c k w proc f req pre args b s' res] by blast
qed

end
