(* ===== verification/Lock_Client.thy ===== *)
theory Lock_Client
  imports Rpc_Loopback
begin

text \<open>
  The lock service as a program: the server of \<open>lock_smain.cc\<close>, which registers the handlers of
  \<open>lock_server.cc\<close> at an \<open>rpcs\<close>, and the client of \<open>lock_client.cc\<close>, which calls them. The end of
  the theory follows a client through bind, acquire, stat and release over the loopback of
  \<open>Rpc_Loopback\<close>.
\<close>

section \<open>The protocol\<close>

text \<open>\<open>lock_protocol::rpc_numbers\<close>, and the status as the \<open>int\<close> it is sent as.\<close>

definition proc_acquire :: u32 where "proc_acquire = 0x7001"
definition proc_release :: u32 where "proc_release = 0x7002"
definition proc_subscribe :: u32 where "proc_subscribe = 0x7003"
definition proc_stat :: u32 where "proc_stat = 0x7004"

lemmas proc_defs = proc_acquire_def proc_release_def proc_subscribe_def proc_stat_def

fun status_code :: "lock_status \<Rightarrow> u32" where
  "status_code OK = 0"
| "status_code RETRY = 1"
| "status_code RPCERR = 2"
| "status_code NOENT = 3"
| "status_code IOERR = 4"

lemma status_code_inj [simp]: "status_code a = status_code b \<longleftrightarrow> a = b"
  by (cases a; cases b) simp_all

lemma status_code_sint [simp]: "0 \<le> sint (status_code a)"
  by (cases a) simp_all

section \<open>The server program\<close>

text \<open>
  The methods as the templates call them: with the variable of the result, which only \<open>stat\<close>
  sets. \<open>acquire\<close> does not return while the lock is held.
\<close>

definition stat_method :: "u32 \<Rightarrow> u64 \<Rightarrow> u32 \<Rightarrow> lock_server \<Rightarrow> (u32 \<times> u32 \<times> lock_server) option" where
  "stat_method clt lid r s =
     (case ls_stat clt lid s of (ret, n) \<Rightarrow> Some (status_code ret, word_of_int n, s))"

definition acquire_method :: "u32 \<Rightarrow> u64 \<Rightarrow> u32 \<Rightarrow> lock_server \<Rightarrow> (u32 \<times> u32 \<times> lock_server) option" where
  "acquire_method clt lid r s = do { (ret, s) \<leftarrow> acquire clt lid s; Some (status_code ret, r, s) }"

definition release_method :: "u32 \<Rightarrow> u64 \<Rightarrow> u32 \<Rightarrow> lock_server \<Rightarrow> (u32 \<times> u32 \<times> lock_server) option" where
  "release_method clt lid r s = (case release clt lid s of (ret, s) \<Rightarrow> Some (status_code ret, r, s))"

definition lock_handler :: "u32 \<Rightarrow> (u32 \<Rightarrow> u64 \<Rightarrow> u32 \<Rightarrow> lock_server \<Rightarrow> (u32 \<times> u32 \<times> lock_server) option)
    \<Rightarrow> lock_server handler" where
  "lock_handler r0 meth = handler2 get_int get_u64 put_int r0 meth"

definition lock_main :: "u32 \<Rightarrow> u32 \<Rightarrow> int \<Rightarrow> conn_table \<Rightarrow> lock_server rpc_server option" where
  "lock_main nonce r0 count net = do {
     s \<leftarrow> new_rpc_server nonce r0 count net new_lock_server;
     s \<leftarrow> reg1 proc_stat (lock_handler r0 stat_method) s;
     s \<leftarrow> reg1 proc_acquire (lock_handler r0 acquire_method) s;
     reg1 proc_release (lock_handler r0 release_method) s
   }"

section \<open>The client\<close>

text \<open>
  Each call sends the id of the client and the lock; the assertion on the status is the branch
  \<open>None\<close>. \<open>r\<close> is what the variable of the result holds before the call.
\<close>

definition lock_call :: "'w net \<Rightarrow> (nat \<Rightarrow> u8) \<Rightarrow> u32 \<Rightarrow> u32 \<Rightarrow> u64 \<Rightarrow> u32 \<Rightarrow> 'w
    \<Rightarrow> (u32 \<times> u32 \<times> 'w) option" where
  "lock_call net g proc clt lid r w = call_2 net g put_u32 put_u64 (\<lambda>_. get_int) proc clt lid r w"

definition client_stat :: "'w net \<Rightarrow> (nat \<Rightarrow> u8) \<Rightarrow> u32 \<Rightarrow> u64 \<Rightarrow> u32 \<Rightarrow> 'w \<Rightarrow> (u32 \<times> 'w) option" where
  "client_stat net g clt lid r w = do {
     (ret, r, w) \<leftarrow> lock_call net g proc_stat clt lid r w;
     (if ret = status_code OK then Some (r, w) else None)
   }"

definition client_acquire :: "'w net \<Rightarrow> (nat \<Rightarrow> u8) \<Rightarrow> u32 \<Rightarrow> u64 \<Rightarrow> u32 \<Rightarrow> 'w \<Rightarrow> (u32 \<times> 'w) option" where
  "client_acquire net g clt lid r w = do {
     (res, r, w) \<leftarrow> lock_call net g proc_acquire clt lid r w;
     (if res = status_code OK then Some (res, w) else None)
   }"

definition client_release :: "'w net \<Rightarrow> (nat \<Rightarrow> u8) \<Rightarrow> u32 \<Rightarrow> u64 \<Rightarrow> u32 \<Rightarrow> 'w \<Rightarrow> (u32 \<times> 'w) option" where
  "client_release net g clt lid r w = do {
     (res, r, w) \<leftarrow> lock_call net g proc_release clt lid r w;
     (if res = status_code OK then Some (res, w) else None)
   }"

text \<open>What \<open>lock_demo.cc\<close> asks.\<close>

definition lock_demo :: "'w net \<Rightarrow> (nat \<Rightarrow> u8) \<Rightarrow> u32 \<Rightarrow> u32 \<Rightarrow> 'w \<Rightarrow> (u32 \<times> 'w) option" where
  "lock_demo net g clt r w = client_stat net g clt 1 r w"

text \<open>\<open>rpcc::bind\<close>: a call of procedure \<open>bind\<close> that leaves the nonce of the server.\<close>

definition client_bind :: "conn \<Rightarrow> (nat \<Rightarrow> u8) \<Rightarrow> u32 \<Rightarrow> 's loop \<Rightarrow> (u32 \<times> 's loop) option" where
  "client_bind c g r w = do {
     (ret, r, w) \<leftarrow> call_1 (loop_call1 c) g put_int (\<lambda>_. get_int) rpc_bind 0 r w;
     Some (ret, w\<lparr>lb_client := bind_end ret r (lb_client w)\<rparr>)
   }"

section \<open>Calls over the loopback\<close>

definition lock_procs :: "u32 \<Rightarrow> u32 \<Rightarrow> u32 \<rightharpoonup> lock_server handler" where
  "lock_procs nonce r0 = [rpc_bind \<mapsto> handler1 get_int put_int r0 (rpcbind nonce),
     proc_stat \<mapsto> lock_handler r0 stat_method, proc_acquire \<mapsto> lock_handler r0 acquire_method,
     proc_release \<mapsto> lock_handler r0 release_method]"

lemma lock_main_eq:
  "lock_main nonce r0 count net = Some \<lparr>rs_nonce = nonce, rs_procs = lock_procs nonce r0,
     rs_replies = empty_replies, rs_conns = (\<lambda>_. None), rs_counting = count, rs_curr_counts = count,
     rs_counts = (\<lambda>_. 0), rs_net = net, rs_app = new_lock_server\<rparr>"
  by (simp add: lock_main_def new_rpc_server_def reg1_def lock_procs_def proc_defs rpc_bind_def)

lemma lock_procs_simps [simp]:
  "lock_procs nonce r0 proc_stat = Some (lock_handler r0 stat_method)"
  "lock_procs nonce r0 proc_acquire = Some (lock_handler r0 acquire_method)"
  "lock_procs nonce r0 proc_release = Some (lock_handler r0 release_method)"
  "lock_procs nonce r0 rpc_bind = Some (handler1 get_int put_int r0 (rpcbind nonce))"
  by (simp_all add: lock_procs_def proc_defs rpc_bind_def)

lemma lock_proc_not_bind [simp]:
  "proc_stat \<noteq> rpc_bind" "proc_acquire \<noteq> rpc_bind" "proc_release \<noteq> rpc_bind"
  by (simp_all add: proc_defs rpc_bind_def)

text \<open>A bound client with \<open>k\<close> calls left, whose server is the lock server.\<close>

definition lock_session :: "conn \<Rightarrow> nat \<Rightarrow> lock_server loop \<Rightarrow> bool" where
  "lock_session c k w \<longleftrightarrow> loop_ready c k w \<and> cl_bind_done (lb_client w) \<and>
     (\<exists>nonce r0. rs_procs (lb_server w) = lock_procs nonce r0)"

lemma typed_int: "emits (put_int x) (be32 x)" "reads get_int x (be32 x)"
  by (rule cint.put_emits) (simp add: cint.get_reads)

lemma typed_lock_args:
  "emits (put_pair put_u32 put_u64 (clt, lid)) (be32 clt @ be64 lid)"
  "reads (get_pair get_int get_u64) (clt, lid) (be32 clt @ be64 lid)"
  by (rule emits_pair; simp add: emits_put_u32 emits_put_u64)
    (rule reads_pair [OF typed_int(2) reads_get_u64])

lemma small_message: "24 + int (length (be32 a)) \<le> msg_limit" "24 + int (length (be32 a @ be64 b)) \<le> msg_limit"
    "be32 a \<noteq> []" "be32 a @ be64 b \<noteq> []"
  by (simp_all add: msg_limit_def be32_def)

text \<open>A call of the lock server is a call of its method.\<close>

lemma lock_call_runs:
  assumes "lock_session c (Suc k) w" "proc \<noteq> rpc_bind"
    and "\<And>nonce r0. lock_procs nonce r0 proc = Some (lock_handler r0 meth)"
    and "\<And>r0. meth clt lid r0 (rs_app (lb_server w)) = Some (status_code st, res r0, s')"
  shows "\<exists>x w'. lock_call (loop_call1 c) g proc clt lid r w = Some (status_code st, x, w') \<and>
    (\<exists>r0. x = res r0) \<and> rs_app (lb_server w') = s' \<and> lock_session c k w'"
proof -
  obtain nonce r0 where ready: "loop_ready c (Suc k) w" "cl_bind_done (lb_client w)"
      and procs: "rs_procs (lb_server w) = lock_procs nonce r0"
    using assms(1) unfolding lock_session_def by blast
  have allowed: "loop_allowed w proc"
    using ready(2) assms(2) by (simp add: loop_allowed_def)
  have f: "rs_procs (lb_server w) proc
      = Some (handler1 (get_pair get_int get_u64) put_int r0 (\<lambda>(a, b). meth a b))"
    using assms(3) [of nonce r0] procs by (simp add: lock_handler_def handler_tuples)
  have m: "(\<lambda>(a, b). meth a b) (clt, lid) r0 (rs_app (lb_server w)) = Some (status_code st, res r0, s')"
    using assms(4) [of r0] by simp
  have "\<exists>w'. call_1 (loop_call1 c) g (put_pair put_u32 put_u64) (\<lambda>_. get_int) proc (clt, lid) r w
      = Some (status_code st, res r0, w') \<and> rs_app (lb_server w') = s' \<and>
      rs_procs (lb_server w') = rs_procs (lb_server w) \<and> loop_ready c k w' \<and> loop_fixed w' = loop_fixed w"
    by (rule lo.typed_call [OF ready(1) allowed f m])
      (rule typed_lock_args typed_int small_message status_code_sint)+
  then show ?thesis
    using procs ready(2) by (auto simp: lock_call_def call_tuples lock_session_def loop_fixed_def)
qed

lemma acquire_free_OK:
  assumes "ls_inv s" "clt \<noteq> -1" "ls_holder s lid = None"
  obtains s' where "acquire clt lid s = Some (OK, s')" "ls_holder s' = (ls_holder s)(lid := Some clt)"
    "nacquire s' = nacquire s + 1" "ls_inv s'"
proof -
  have "ls_acquire clt lid s \<noteq> None"
    using assms by (intro ls.acq_free) simp_all
  then obtain r s' where s': "acquire clt lid s = Some (r, s')"
    by (auto simp: ls_acquire_def)
  moreover have "nacquire (ensure_lock lid s) = nacquire s"
    by (simp add: ensure_lock_def split: option.splits)
  ultimately show thesis
    using try_lock_Some [OF ls_inv_ensure [OF assms(1)] assms(2), of lid lid r s'] that
    by (simp add: acquire_def)
qed

lemma release_holder:
  assumes "ls_inv s" "clt \<noteq> -1" "ls_holder s lid = Some clt"
  obtains s' where "release clt lid s = (OK, s')" "ls_holder s' = (ls_holder s)(lid := None)"
    "nacquire s' = nacquire s - 1" "ls_inv s'"
proof -
  obtain s' where s': "release clt lid s = (OK, s')"
    using ls.rel_holder [OF assms(1), of clt lid] assms(2,3)
    by (auto simp: ls_release_def split: prod.splits lock_status.splits)
  show thesis
    by (rule that [OF s']) (use release_OK [OF assms(1,2) s'] in simp_all)
qed

lemma release_stranger:
  assumes "ls_inv s" "clt \<noteq> -1" "ls_holder s lid \<noteq> Some clt"
  shows "release clt lid s = (RPCERR, s)"
proof -
  obtain r s' where r: "release clt lid s = (r, s')"
    by (cases "release clt lid s")
  moreover have "r \<noteq> OK"
    using release_OK [OF assms(1,2), of lid s'] r assms(3) by auto
  ultimately show ?thesis
    using release_not_OK [OF r] by simp
qed

lemma client_acquire_runs:
  assumes "lock_session c (Suc k) w" "acquire clt lid (rs_app (lb_server w)) = Some (OK, s')"
  shows "\<exists>w'. client_acquire (loop_call1 c) g clt lid r w = Some (0, w') \<and> rs_app (lb_server w') = s' \<and>
    lock_session c k w'"
proof -
  have "\<exists>x w'. lock_call (loop_call1 c) g proc_acquire clt lid r w = Some (status_code OK, x, w') \<and>
      (\<exists>r0. x = r0) \<and> rs_app (lb_server w') = s' \<and> lock_session c k w'"
    by (rule lock_call_runs [OF assms(1), where meth = acquire_method])
      (use assms(2) in \<open>simp_all add: acquire_method_def\<close>)
  then show ?thesis
    by (auto simp: client_acquire_def)
qed

lemma client_release_runs:
  assumes "lock_session c (Suc k) w" "release clt lid (rs_app (lb_server w)) = (st, s')"
  shows "\<exists>x w'. lock_call (loop_call1 c) g proc_release clt lid r w = Some (status_code st, x, w') \<and>
    rs_app (lb_server w') = s' \<and> lock_session c k w'"
proof -
  have "\<exists>x w'. lock_call (loop_call1 c) g proc_release clt lid r w = Some (status_code st, x, w') \<and>
      (\<exists>r0. x = r0) \<and> rs_app (lb_server w') = s' \<and> lock_session c k w'"
    by (rule lock_call_runs [OF assms(1), where meth = release_method])
      (use assms(2) in \<open>simp_all add: release_method_def\<close>)
  then show ?thesis
    by auto
qed

lemma client_stat_runs:
  assumes "lock_session c (Suc k) w"
  shows "\<exists>w'. client_stat (loop_call1 c) g clt lid r w
      = Some (word_of_int (nacquire (rs_app (lb_server w))), w') \<and>
    rs_app (lb_server w') = rs_app (lb_server w) \<and> lock_session c k w'"
proof -
  let ?n = "word_of_int (nacquire (rs_app (lb_server w)))"
  have "\<exists>x w'. lock_call (loop_call1 c) g proc_stat clt lid r w = Some (status_code OK, x, w') \<and>
      (\<exists>r0 :: u32. x = ?n) \<and> rs_app (lb_server w') = rs_app (lb_server w) \<and> lock_session c k w'"
    by (rule lock_call_runs [OF assms(1), where meth = stat_method])
      (simp_all add: stat_method_def ls_stat_def)
  then show ?thesis
    by (auto simp: client_stat_def)
qed

text \<open>
  A client with nonce 7, bound to a server with nonce 42 or not bound yet, and a server \<open>s\<close> which
  has just started and has accepted connection 3.
\<close>

definition fresh_net :: conn_table where
  "fresh_net = \<lparr>refno = [3 \<mapsto> 1], dead = (\<lambda>_. False), sent = []\<rparr>"

definition fresh_loop :: "bool \<Rightarrow> 's rpc_server \<Rightarrow> 's loop" where
  "fresh_loop bound s = \<lparr>lb_client = (if bound then bind_end 0 42 (new_rpcc True 7) else new_rpcc True 7),
     lb_server = s, lb_next = 10, lb_junk = (\<lambda>_. 0)\<rparr>"

lemma fresh_loop_client:
  "client_inv (lb_client (fresh_loop bound s))" "cl_bind_done (lb_client (fresh_loop bound s)) = bound"
  "lb_server (fresh_loop bound s) = s"
  using client_inv_new [of True 7] client_step_inv [OF step_bind client_inv_new, of 0 42 True 7]
  by (simp_all add: fresh_loop_def new_rpcc_def bind_end_def)

lemma fresh_server:
  assumes "rs_net s = fresh_net" "rs_conns s = (\<lambda>_. None)"
  shows "refs_inv (listener_ref 3) s" "\<not> dead (rs_net s) 3"
proof -
  have "refs_ok (\<lambda>c. listener_ref 3 c + table_refs (\<lambda>_. None) c) fresh_net"
    by (rule refs_okI) (auto simp: fresh_net_def listener_ref_def table_refs_def split: if_splits)
  then show "refs_inv (listener_ref 3) s" "\<not> dead (rs_net s) 3"
    using assms by (simp_all add: refs_inv_def listener_ref_def fresh_net_def)
qed

lemma fresh_loop_ready:
  assumes "k < 1000" "rs_net s = fresh_net" "rs_conns s = (\<lambda>_. None)" "rs_replies s = empty_replies"
    and "rs_nonce s = 42"
  shows "loop_ready 3 k (fresh_loop bound s)"
proof -
  have "server_ok (listener_ref 3) s"
    using fresh_server [OF assms(2,3)] assms(4) by (simp add: server_ok_def empty_replies_inv)
  then show ?thesis
    using assms fresh_server(2) [OF assms(2,3)] fresh_loop_client(1) [of bound s]
    by (simp add: loop_ready_def fresh_loop_def new_rpcc_def bind_end_def empty_replies_def known_def)
qed

text \<open>Such a lock server.\<close>

definition demo_world :: "bool \<Rightarrow> lock_server loop" where
  "demo_world bound = fresh_loop bound (the (lock_main 42 0 0 fresh_net))"

lemma demo_world_ready: "k < 1000 \<Longrightarrow> loop_ready 3 k (demo_world bound)"
  unfolding demo_world_def by (rule fresh_loop_ready) (simp_all add: lock_main_eq)

lemma demo_world_simps [simp]:
  "rs_app (lb_server (demo_world b)) = new_lock_server" "rs_nonce (lb_server (demo_world b)) = 42"
  "rs_procs (lb_server (demo_world b)) = lock_procs 42 0" "cl_bind_done (lb_client (demo_world b)) = b"
  by (simp_all add: demo_world_def lock_main_eq fresh_loop_client)

lemma demo_world_session: "k < 1000 \<Longrightarrow> lock_session 3 k (demo_world True)"
  using demo_world_ready [of k True] by (auto simp: lock_session_def)

text \<open>\<open>bind\<close> of a client that is not bound yet, and of one that is.\<close>

lemma bind_runs:
  assumes "loop_ready c (Suc k) w" "\<not> cl_bind_done (lb_client w)"
    and "rs_procs (lb_server w) rpc_bind = Some (handler1 get_int put_int r0 (rpcbind (rs_nonce (lb_server w))))"
  shows "\<exists>w'. client_bind c g r w = Some (0, w') \<and> cl_bind_done (lb_client w') \<and>
    cl_srv_nonce (lb_client w') = rs_nonce (lb_server w) \<and> loop_ready c k w' \<and>
    rs_app (lb_server w') = rs_app (lb_server w) \<and> rs_procs (lb_server w') = rs_procs (lb_server w)"
proof -
  have "\<exists>w'. call_1 (loop_call1 c) g put_int (\<lambda>_. get_int) rpc_bind 0 r w
      = Some (0, rs_nonce (lb_server w), w') \<and> rs_app (lb_server w') = rs_app (lb_server w) \<and>
      rs_procs (lb_server w') = rs_procs (lb_server w) \<and> loop_ready c k w' \<and> loop_fixed w' = loop_fixed w"
    by (rule lo.typed_call [OF assms(1) _ assms(3)])
      (rule typed_int small_message | simp add: loop_allowed_def assms(2) rpcbind_def)+
  then obtain w' where w': "call_1 (loop_call1 c) g put_int (\<lambda>_. get_int) rpc_bind 0 r w
      = Some (0, rs_nonce (lb_server w), w')" "rs_app (lb_server w') = rs_app (lb_server w)"
      "loop_ready c k w'" "loop_fixed w' = loop_fixed w" "rs_procs (lb_server w') = rs_procs (lb_server w)"
    by blast
  have "client_inv (bind_end 0 (rs_nonce (lb_server w)) (lb_client w'))"
    using client_step_inv [OF step_bind] w'(3) by (simp add: loop_ready_def)
  with w' show ?thesis
    by (simp add: client_bind_def loop_ready_def loop_fixed_def bind_end_def)
qed

lemma bind_again:
  assumes "cl_bind_done (lb_client w)"
  shows "client_bind c g r w = Some (bind_failure, w)"
proof -
  obtain m where "put_int 0 (new_marshall g) = Some m"
    by (rule emitsE [OF typed_int(1) [of 0] wf_new_marshall]) (simp_all add: new_marshall_ind msg_limit_def)
  moreover have "sint bind_failure < 0" "bind_failure \<noteq> 0"
    by (simp_all add: bind_failure_def)
  ultimately show ?thesis
    using assms by (simp add: client_bind_def call_1_def call_m_def loop_call1_def call1_begin_def bind_end_def)
qed

section \<open>Properties\<close>

text \<open>
  The handshake: \<open>bind\<close> of a new client returns 0, after it the client is bound to the running
  instance of the server and can make its calls, and the state of the application is untouched.
\<close>

theorem bind_connects:
  assumes "loop_ready c (Suc k) w" "\<not> cl_bind_done (lb_client w)"
    and "rs_procs (lb_server w) rpc_bind = Some (handler1 get_int put_int r0 (rpcbind (rs_nonce (lb_server w))))"
  shows "\<exists>w'. client_bind c g r w = Some (0, w') \<and> cl_bind_done (lb_client w') \<and>
    cl_srv_nonce (lb_client w') = rs_nonce (lb_server w) \<and> loop_ready c k w' \<and>
    rs_app (lb_server w') = rs_app (lb_server w)"
  using bind_runs [OF assms] by blast

theorem bind_connects_witness:
  "\<exists>w'. client_bind 3 (\<lambda>_. 0) 5 (demo_world False) = Some (0, w') \<and> cl_bind_done (lb_client w') \<and>
    cl_srv_nonce (lb_client w') = rs_nonce (lb_server (demo_world False)) \<and> loop_ready 3 9 w' \<and>
    rs_app (lb_server w') = rs_app (lb_server (demo_world False))"
  by (rule bind_connects [OF demo_world_ready]) simp_all

text \<open>
  C6. A client of the lock service over the network, from its calls to the handlers and back: it
  acquires a lock that is free, \<open>stat\<close> then counts one lock more, and after its \<open>release\<close> the
  lock is free and the count is what it was; all calls return, with \<open>OK\<close>.
\<close>

theorem remote_lock_session:
  assumes "lock_session c (k + 3) w" "ls_inv (rs_app (lb_server w))" "clt \<noteq> -1"
    and "ls_holder (rs_app (lb_server w)) lid = None"
  shows "\<exists>w1 w2 w3. client_acquire (loop_call1 c) g clt lid r w = Some (0, w1) \<and>
    ls_holder (rs_app (lb_server w1)) lid = Some clt \<and>
    client_stat (loop_call1 c) g clt lid r w1 = Some (word_of_int (nacquire (rs_app (lb_server w)) + 1), w2) \<and>
    client_release (loop_call1 c) g clt lid r w2 = Some (0, w3) \<and>
    ls_holder (rs_app (lb_server w3)) = ls_holder (rs_app (lb_server w)) \<and>
    nacquire (rs_app (lb_server w3)) = nacquire (rs_app (lb_server w)) \<and>
    ls_inv (rs_app (lb_server w3)) \<and> lock_session c k w3"
proof -
  have s: "lock_session c (Suc (Suc (Suc k))) w"
    using assms(1) by (simp add: numeral_3_eq_3)
  obtain s1 where s1: "acquire clt lid (rs_app (lb_server w)) = Some (OK, s1)"
      "ls_holder s1 = (ls_holder (rs_app (lb_server w)))(lid := Some clt)"
      "nacquire s1 = nacquire (rs_app (lb_server w)) + 1" "ls_inv s1"
    by (rule acquire_free_OK [OF assms(2-4)])
  obtain w1 where w1: "client_acquire (loop_call1 c) g clt lid r w = Some (0, w1)"
      "rs_app (lb_server w1) = s1" "lock_session c (Suc (Suc k)) w1"
    using client_acquire_runs [OF s s1(1)] by blast
  obtain w2 where w2: "client_stat (loop_call1 c) g clt lid r w1 = Some (word_of_int (nacquire s1), w2)"
      "rs_app (lb_server w2) = s1" "lock_session c (Suc k) w2"
    using client_stat_runs [OF w1(3)] w1(2) by metis
  obtain s3 where s3: "release clt lid s1 = (OK, s3)" "ls_holder s3 = (ls_holder s1)(lid := None)"
      "nacquire s3 = nacquire s1 - 1" "ls_inv s3"
    by (rule release_holder [OF s1(4) assms(3)]) (use s1(2) in auto)
  obtain x w3 where w3: "lock_call (loop_call1 c) g proc_release clt lid r w2 = Some (status_code OK, x, w3)"
      "rs_app (lb_server w3) = s3" "lock_session c k w3"
    using client_release_runs [OF w2(3)] s3(1) w2(2) by metis
  have "ls_holder s3 = ls_holder (rs_app (lb_server w))"
    using s3(2) s1(2) assms(4) by auto
  then show ?thesis
    using w1 w2(1) w3 s1(2,3) s3(3,4)
    by (intro exI [of _ w1] exI [of _ w2] exI [of _ w3]) (simp add: client_release_def)
qed

theorem remote_lock_session_witness:
  "\<exists>w1 w2 w3. client_acquire (loop_call1 3) (\<lambda>_. 0) 7 11 5 (demo_world True) = Some (0, w1) \<and>
    ls_holder (rs_app (lb_server w1)) 11 = Some 7 \<and>
    client_stat (loop_call1 3) (\<lambda>_. 0) 7 11 5 w1
      = Some (word_of_int (nacquire (rs_app (lb_server (demo_world True))) + 1), w2) \<and>
    client_release (loop_call1 3) (\<lambda>_. 0) 7 11 5 w2 = Some (0, w3) \<and>
    ls_holder (rs_app (lb_server w3)) = ls_holder (rs_app (lb_server (demo_world True))) \<and>
    nacquire (rs_app (lb_server w3)) = nacquire (rs_app (lb_server (demo_world True))) \<and>
    ls_inv (rs_app (lb_server w3)) \<and> lock_session 3 2 w3"
  by (rule remote_lock_session [OF demo_world_session])
    (simp_all add: ls_inv_new, simp add: new_lock_server_def ls_holder_def)

text \<open>
  A client that releases a lock it does not hold: the server refuses and keeps its state, and
  the assertion on the status ends the client.
\<close>

theorem remote_release_refused:
  assumes "lock_session c (Suc k) w" "ls_inv (rs_app (lb_server w))" "clt \<noteq> -1"
    and "ls_holder (rs_app (lb_server w)) lid \<noteq> Some clt"
  shows "client_release (loop_call1 c) g clt lid r w = None \<and>
    (\<exists>x w'. lock_call (loop_call1 c) g proc_release clt lid r w = Some (status_code RPCERR, x, w') \<and>
      rs_app (lb_server w') = rs_app (lb_server w))"
  using client_release_runs [OF assms(1) release_stranger [OF assms(2-4)], of g r]
  by (auto simp: client_release_def)

theorem remote_release_refused_witness:
  "client_release (loop_call1 3) (\<lambda>_. 0) 7 11 5 (demo_world True) = None \<and>
    (\<exists>x w'. lock_call (loop_call1 3) (\<lambda>_. 0) proc_release 7 11 5 (demo_world True)
        = Some (status_code RPCERR, x, w') \<and>
      rs_app (lb_server w') = rs_app (lb_server (demo_world True)))"
  by (rule remote_release_refused [OF demo_world_session [of "Suc 0"]])
    (simp_all add: ls_inv_new, simp add: new_lock_server_def ls_holder_def)

end
