(* ===== verification/Call_Loop.thy ===== *)
theory Call_Loop
  imports Timespec Connection_Refs
begin

text \<open>
  The loop of \<open>rpcc::call1\<close> in \<open>rpc/rpc.cc\<close> between its two critical sections: the channel of the
  client and \<open>get_refconn\<close>, the transmission of the request, the deadlines with their doubling, and
  the reference to the connection that the call holds meanwhile.
\<close>

section \<open>The channel\<close>

text \<open>
  \<open>out\<close> is the new connection, or \<open>None\<close> when \<open>connect\<close> fails; the constructor sets the count to 1.
\<close>

definition connect_to_dst :: "conn option \<Rightarrow> conn_table \<Rightarrow> conn option \<times> conn_table" where
  "connect_to_dst out t =
     (case out of
        None \<Rightarrow> (None, t)
      | Some c \<Rightarrow> (Some c, construct c t))"

text \<open>\<open>chan\<close> is \<open>chan_\<close> of the client and \<open>ch\<close> the variable of the caller; null pointers are \<open>None\<close>.\<close>

definition get_refconn ::
  "conn option \<Rightarrow> conn option \<Rightarrow> conn option \<Rightarrow> conn_table \<Rightarrow> (conn option \<times> conn option \<times> conn_table) option" where
  "get_refconn out ch chan t = do {
     broken \<leftarrow> (case chan of None \<Rightarrow> Some True | Some c \<Rightarrow> isdead c t);
     (chan, t) \<leftarrow>
       (if broken
        then do {
          t \<leftarrow> (case chan of None \<Rightarrow> Some t | Some c \<Rightarrow> decref c t);
          Some (connect_to_dst out t)
        }
        else Some (chan, t));
     (case chan of
        None \<Rightarrow> Some (ch, chan, t)
      | Some c \<Rightarrow> do {
          t \<leftarrow> (case ch of None \<Rightarrow> Some t | Some d \<Rightarrow> decref d t);
          t \<leftarrow> incref c t;
          Some (Some c, chan, t)
        })
   }"

section \<open>The loop\<close>

definition to_max :: int where "to_max = 120000"
definition to_min :: int where "to_min = 1000"

record call_loop =
  curr_to :: int
  finaldeadline :: timespec
  transmit :: bool
  lp_ch :: "conn option"
  lp_chan :: "conn option"
  lp_table :: conn_table

definition loop_start :: "int \<Rightarrow> timespec \<Rightarrow> conn option \<Rightarrow> conn_table \<Rightarrow> call_loop option" where
  "loop_start to now chan t = do {
     final \<leftarrow> add_timespec now to;
     Some \<lparr>curr_to = to_min, finaldeadline = final, transmit = True, lp_ch = None, lp_chan = chan, lp_table = t\<rparr>
   }"

text \<open>
  What the surroundings do in a turn: the outcome of a connect, the time, whether the reply is there
  when the wait begins, the returns of \<open>pthread_cond_timedwait\<close>, and the connections that have died by
  then. A return is a pair: whether it is for the timeout, and whether the reply has come meanwhile.
\<close>

record turn_env =
  e_connect :: "conn option"
  e_now :: timespec
  e_done :: bool
  e_wakes :: "(bool \<times> bool) list"
  e_dies :: "conn set"

text \<open>
  For a deadline whose nanoseconds are out of range \<open>pthread_cond_timedwait\<close> returns \<open>EINVAL\<close> at once.
  It has not given up the mutex then, so the reply, which is written under it, cannot have come.
\<close>

datatype cond_result = AWAKE | ETIMEDOUT | EINVAL

definition timedwait :: "timespec \<Rightarrow> bool \<times> bool \<Rightarrow> cond_result \<times> bool" where
  "timedwait d = (\<lambda>(late, came).
     if normal d then (if late then ETIMEDOUT else AWAKE, came) else (EINVAL, False))"

text \<open>
  The loop around the wait, with the flag \<open>done\<close>; when the returns are used up, the thread is still in
  the loop.
\<close>

datatype wait_end = Reply_Came | Timed_Out | Still_Waits

fun await_reply :: "timespec \<Rightarrow> bool \<Rightarrow> (bool \<times> bool) list \<Rightarrow> wait_end" where
  "await_reply d True ws = Reply_Came"
| "await_reply d False [] = Still_Waits"
| "await_reply d False (w # ws) =
     (case timedwait d w of
        (ETIMEDOUT, came) \<Rightarrow> if came then Reply_Came else Timed_Out
      | (_, came) \<Rightarrow> await_reply d came ws)"

definition transmit_request :: "u8 list \<Rightarrow> turn_env \<Rightarrow> call_loop \<Rightarrow> call_loop option" where
  "transmit_request b e l =
     (if transmit l
      then do {
        (ch, chan, t) \<leftarrow> get_refconn (e_connect e) (lp_ch l) (lp_chan l) (lp_table l);
        t \<leftarrow> (case ch of None \<Rightarrow> Some t | Some c \<Rightarrow> conn_send c b t);
        Some (l\<lparr>transmit := False, lp_ch := ch, lp_chan := chan, lp_table := t\<rparr>)
      }
      else Some l)"

text \<open>The next deadline, and the final one, whose seconds are set to 0 when it is the next.\<close>

definition next_deadline :: "timespec \<Rightarrow> call_loop \<Rightarrow> (timespec \<times> timespec) option" where
  "next_deadline now l = do {
     nextd \<leftarrow> add_timespec now (curr_to l);
     Some (if cmp_timespec nextd (finaldeadline l) > 0
           then (finaldeadline l, Timespec 0 (tv_nsec (finaldeadline l)))
           else (nextd, finaldeadline l))
   }"

text \<open>
  A turn of the loop: it goes on, or is left, or the thread is still in its wait. The shift of the
  timeout is undefined when it leaves the \<open>int\<close>.
\<close>

datatype turn_end = Goes_On | Leaves | In_Wait

definition loop_turn :: "bool \<Rightarrow> u8 list \<Rightarrow> turn_env \<Rightarrow> call_loop \<Rightarrow> (turn_end \<times> call_loop) option" where
  "loop_turn retrans b e l = do {
     l \<leftarrow> transmit_request b e l;
     (if tv_sec (finaldeadline l) = 0 then Some (Leaves, l)
      else do {
        (nextd, final) \<leftarrow> next_deadline (e_now e) l;
        let l = l\<lparr>finaldeadline := final, lp_table := (lp_table l)\<lparr>dead := (\<lambda>c. dead (lp_table l) c \<or> c \<in> e_dies e)\<rparr>\<rparr>;
        (case await_reply nextd (e_done e) (e_wakes e) of
           Reply_Came \<Rightarrow> Some (Leaves, l)
         | Still_Waits \<Rightarrow> Some (In_Wait, l)
         | Timed_Out \<Rightarrow> do {
             again \<leftarrow> (if retrans then (case lp_ch l of None \<Rightarrow> Some True | Some c \<Rightarrow> isdead c (lp_table l)) else Some False);
             let l = (if again then l\<lparr>transmit := True\<rparr> else l);
             (if curr_to l * 2 < 2 ^ 31 then Some (Goes_On, l\<lparr>curr_to := curr_to l * 2\<rparr>) else None)
           })
      })
   }"

fun loop_run :: "bool \<Rightarrow> u8 list \<Rightarrow> turn_env list \<Rightarrow> call_loop \<Rightarrow> (turn_end \<times> call_loop) option" where
  "loop_run retrans b [] l = Some (Goes_On, l)"
| "loop_run retrans b (e # es) l = do {
     (go, l) \<leftarrow> loop_turn retrans b e l;
     (if go = Goes_On then loop_run retrans b es l else Some (go, l))
   }"

text \<open>Behind the loop the call gives its reference back.\<close>

definition call_release :: "call_loop \<Rightarrow> conn_table option" where
  "call_release l = (case lp_ch l of None \<Rightarrow> Some (lp_table l) | Some c \<Rightarrow> decref c (lp_table l))"

text \<open>
  The destructor of the client, with the number of calls that are still in \<open>calls_\<close>, which must be 0.
\<close>

definition rpcc_destroy :: "nat \<Rightarrow> conn option \<Rightarrow> conn_table \<Rightarrow> conn_table option" where
  "rpcc_destroy pending chan t = do {
     t \<leftarrow> (case chan of None \<Rightarrow> Some t | Some c \<Rightarrow> do { t \<leftarrow> closeconn c t; decref c t });
     (if pending = 0 then Some t else None)
   }"

section \<open>References\<close>

text \<open>\<open>others\<close> are the references of other calls.\<close>

definition loop_refs :: "(conn \<Rightarrow> int) \<Rightarrow> call_loop \<Rightarrow> bool" where
  "loop_refs others l \<longleftrightarrow> (\<forall>c. 0 \<le> others c) \<and>
     refs_ok (\<lambda>c. one (lp_chan l) c + one (lp_ch l) c + others c) (lp_table l)"

lemma connect_ok:
  assumes "refs_ok h t" "fresh out t" "connect_to_dst out t = (p, t')"
  shows "p = out \<and> refs_ok (\<lambda>d. h d + one p d) t' \<and> dead t' = dead t \<and> sent t' = sent t"
  using assms construct_ok [OF assms(1)] by (cases out) (auto simp: connect_to_dst_def)

text \<open>A channel that is missing or dead is given back and replaced by a new connection.\<close>

lemma renew_channel_ok:
  assumes held: "refs_ok (\<lambda>c. base c + one chan c) t" and base: "\<And>c. 0 \<le> base c" and fresh: "fresh out t"
    and broken: "broken \<longleftrightarrow> (case chan of None \<Rightarrow> True | Some c \<Rightarrow> dead t c)"
  shows "\<exists>chan' t'. (if broken then do { t \<leftarrow> (case chan of None \<Rightarrow> Some t | Some c \<Rightarrow> decref c t);
         Some (connect_to_dst out t) } else Some (chan, t)) = Some (chan', t') \<and>
      refs_ok (\<lambda>c. base c + one chan' c) t' \<and> dead t' = dead t \<and> sent t' = sent t \<and>
      (case chan' of None \<Rightarrow> True | Some c \<Rightarrow> \<not> dead t c \<and> (chan' = chan \<or> chan' = out))"
proof (cases broken)
  case True
  obtain t1 where t1: "(case chan of None \<Rightarrow> Some t | Some c \<Rightarrow> decref c t) = Some t1" "refs_ok base t1"
      "dead t1 = dead t" "sent t1 = sent t"
    using release_ok [OF held base] by blast
  have "refno t1 c = None" if "refno t c = None" for c
    using t1(1) that by (cases chan) (auto simp: decref_def split: option.splits if_splits)
  then have f: "fresh out t1"
    using fresh t1(3,4) by (auto simp: fresh_def split: option.splits)
  obtain q t2 where t2: "connect_to_dst out t1 = (q, t2)"
    by (cases "connect_to_dst out t1")
  have "q = out \<and> refs_ok (\<lambda>d. base d + one q d) t2 \<and> dead t2 = dead t1 \<and> sent t2 = sent t1"
    by (rule connect_ok [OF t1(2) f t2])
  moreover have "case out of None \<Rightarrow> True | Some c \<Rightarrow> \<not> dead t c"
    using fresh by (simp add: fresh_def split: option.splits)
  ultimately show ?thesis
    using True t1(1,3,4) t2 by (intro exI [of _ q] exI [of _ t2]) (simp split: option.splits)
next
  case False
  then show ?thesis
    using held broken by (auto split: option.splits)
qed

text \<open>The call takes a reference to the channel and gives back the one it had.\<close>

lemma swap_reference_ok:
  assumes refs: "refs_ok (\<lambda>d. one (Some c) d + others d + one ch d) t" and others: "\<And>c. 0 \<le> others c"
  shows "\<exists>t'. do { t \<leftarrow> (case ch of None \<Rightarrow> Some t | Some d \<Rightarrow> decref d t); incref c t } = Some t' \<and>
    refs_ok (\<lambda>d. one (Some c) d + one (Some c) d + others d) t' \<and> dead t' = dead t \<and> sent t' = sent t"
proof -
  define rest where "rest = (\<lambda>d. one (Some c) d + others d)"
  have rest: "0 \<le> rest d" "0 < rest c" for d
    using others by (simp_all add: rest_def add_pos_nonneg)
  have held: "refs_ok (\<lambda>d. rest d + one ch d) t"
    using refs by (rule refs_ok_cong) (simp add: rest_def)
  obtain t2 where t2: "(case ch of None \<Rightarrow> Some t | Some d \<Rightarrow> decref d t) = Some t2" "refs_ok rest t2"
      "dead t2 = dead t" "sent t2 = sent t"
    using release_ok [OF held rest(1)] by blast
  obtain t3 where t3: "incref c t2 = Some t3" "refs_ok (\<lambda>d. rest d + one (Some c) d) t3"
      "dead t3 = dead t2" "sent t3 = sent t2"
    using incref_held_ok [OF t2(2) rest(2)] by blast
  have "refs_ok (\<lambda>d. one (Some c) d + one (Some c) d + others d) t3"
    using t3(2) by (rule refs_ok_cong) (auto simp: rest_def)
  then show ?thesis
    using t2 t3 by simp
qed

text \<open>
  \<open>get_refconn\<close> moves references only between the channel and the caller, and hands out a connection
  that is not dead.
\<close>

lemma get_refconn_ok:
  assumes refs: "refs_ok (\<lambda>c. one chan c + one ch c + others c) t" "\<And>c. 0 \<le> others c"
    and fresh: "fresh out t"
  shows "\<exists>ch' chan' t'. get_refconn out ch chan t = Some (ch', chan', t') \<and>
    refs_ok (\<lambda>c. one chan' c + one ch' c + others c) t' \<and> dead t' = dead t \<and> sent t' = sent t \<and>
    (case chan' of None \<Rightarrow> ch' = ch
     | Some c \<Rightarrow> ch' = Some c \<and> \<not> dead t c \<and> (chan' = chan \<or> chan' = out))"
proof -
  define broken where "broken = (case chan of None \<Rightarrow> True | Some c \<Rightarrow> dead t c)"
  have base: "0 \<le> one ch c + others c" for c
    using refs(2) by simp
  have held: "refs_ok (\<lambda>c. one ch c + others c + one chan c) t"
    using refs(1) by (rule refs_ok_cong) auto
  have broken: "(case chan of None \<Rightarrow> Some True | Some c \<Rightarrow> isdead c t) = Some broken"
  proof (cases chan)
    case (Some c)
    then have "0 < one ch c + others c + one chan c"
      using base [of c] by simp
    then show ?thesis
      using refs_okD(3) [OF held] Some by (simp add: isdead_def broken_def)
  qed (simp add: broken_def)
  obtain chan' t1 where t1: "(if broken then do { t \<leftarrow> (case chan of None \<Rightarrow> Some t | Some c \<Rightarrow> decref c t);
         Some (connect_to_dst out t) } else Some (chan, t)) = Some (chan', t1)"
      "refs_ok (\<lambda>c. one ch c + others c + one chan' c) t1" "dead t1 = dead t" "sent t1 = sent t"
      "case chan' of None \<Rightarrow> True | Some c \<Rightarrow> \<not> dead t c \<and> (chan' = chan \<or> chan' = out)"
    using renew_channel_ok [OF held base fresh broken_def] by blast
  have unfold: "get_refconn out ch chan t =
      (case chan' of None \<Rightarrow> Some (ch, chan', t1)
       | Some c \<Rightarrow> do { t \<leftarrow> (case ch of None \<Rightarrow> Some t1 | Some d \<Rightarrow> decref d t1); t \<leftarrow> incref c t; Some (Some c, chan', t) })"
    using t1(1) broken by (simp add: get_refconn_def)
  show ?thesis
  proof (cases chan')
    case None
    have "refs_ok (\<lambda>c. one chan' c + one ch c + others c) t1"
      using t1(2) by (rule refs_ok_cong) auto
    then show ?thesis
      using unfold None t1(3,4) by simp
  next
    case (Some c)
    have "refs_ok (\<lambda>d. one (Some c) d + others d + one ch d) t1"
      using t1(2) by (rule refs_ok_cong) (auto simp: Some)
    from swap_reference_ok [OF this refs(2)] show ?thesis
      using unfold Some t1(3-5) by (auto simp: bind_eq_Some_conv)
  qed
qed

section \<open>A turn\<close>

definition request_sent :: "u8 list \<Rightarrow> conn list \<Rightarrow> (conn \<times> u8 list) list" where
  "request_sent b cs = map (\<lambda>c. (c, framed b)) cs"

text \<open>Where the request goes: on the connection of the call, if it is not dead.\<close>

definition now_sent :: "call_loop \<Rightarrow> conn list" where
  "now_sent l = (case lp_ch l of None \<Rightarrow> [] | Some c \<Rightarrow> if dead (lp_table l) c then [] else [c])"

lemma transmit_ok:
  assumes refs: "loop_refs others l" and fresh: "fresh (e_connect e) (lp_table l)" and t: "transmit l"
  shows "\<exists>ch chan t. transmit_request b e l = Some (l\<lparr>transmit := False, lp_ch := ch, lp_chan := chan, lp_table := t\<rparr>) \<and>
    loop_refs others (l\<lparr>transmit := False, lp_ch := ch, lp_chan := chan, lp_table := t\<rparr>) \<and>
    dead t = dead (lp_table l) \<and>
    sent t = sent (lp_table l) @ request_sent b (case ch of None \<Rightarrow> [] | Some c \<Rightarrow> if dead t c then [] else [c]) \<and>
    (ch = lp_ch l \<or> (\<exists>c. ch = Some c \<and> \<not> dead t c))"
proof -
  have r: "refs_ok (\<lambda>c. one (lp_chan l) c + one (lp_ch l) c + others c) (lp_table l)" "\<And>c. 0 \<le> others c"
    using refs by (simp_all add: loop_refs_def)
  obtain ch chan t1 where g: "get_refconn (e_connect e) (lp_ch l) (lp_chan l) (lp_table l) = Some (ch, chan, t1)"
      "refs_ok (\<lambda>c. one chan c + one ch c + others c) t1" "dead t1 = dead (lp_table l)" "sent t1 = sent (lp_table l)"
      "case chan of None \<Rightarrow> ch = lp_ch l
       | Some c \<Rightarrow> ch = Some c \<and> \<not> dead (lp_table l) c \<and> (chan = lp_chan l \<or> chan = e_connect e)"
    using get_refconn_ok [OF r fresh] by blast
  have "\<exists>t. (case ch of None \<Rightarrow> Some t1 | Some c \<Rightarrow> conn_send c b t1) = Some t \<and>
      refs_ok (\<lambda>c. one chan c + one ch c + others c) t \<and> dead t = dead t1 \<and>
      sent t = sent t1 @ request_sent b (case ch of None \<Rightarrow> [] | Some c \<Rightarrow> if dead t c then [] else [c])"
  proof (cases ch)
    case None
    then show ?thesis
      using g(2) by (simp add: request_sent_def)
  next
    case (Some c)
    have "0 < one chan c + one ch c + others c"
      using Some r(2) [of c] one_nonneg [of chan c] by (simp add: add_nonneg_pos add_pos_nonneg)
    from conn_send_ok [OF g(2) this, of b] show ?thesis
      using Some by (auto simp: request_sent_def)
  qed
  then obtain t where t': "(case ch of None \<Rightarrow> Some t1 | Some c \<Rightarrow> conn_send c b t1) = Some t"
      "refs_ok (\<lambda>c. one chan c + one ch c + others c) t" "dead t = dead t1"
      "sent t = sent t1 @ request_sent b (case ch of None \<Rightarrow> [] | Some c \<Rightarrow> if dead t c then [] else [c])"
    by blast
  have "transmit_request b e l = Some (l\<lparr>transmit := False, lp_ch := ch, lp_chan := chan, lp_table := t\<rparr>)"
    using t g(1) t'(1) by (simp add: transmit_request_def)
  moreover have "loop_refs others (l\<lparr>transmit := False, lp_ch := ch, lp_chan := chan, lp_table := t\<rparr>)"
    using t'(2) r(2) by (simp add: loop_refs_def)
  moreover have "ch = lp_ch l \<or> (\<exists>c. ch = Some c \<and> \<not> dead t c)"
    using g(3,5) t'(3) by (auto split: option.splits)
  ultimately show ?thesis
    using t'(3,4) g(3,4) by (intro exI [of _ ch] exI [of _ chan] exI [of _ t]) simp
qed

text \<open>
  The requests of the call so far: at most one per connection, and another one only after the last
  connection has died.
\<close>

definition sent_once :: "bool \<Rightarrow> u8 list \<Rightarrow> (conn \<times> u8 list) list \<Rightarrow> conn list \<Rightarrow> call_loop \<Rightarrow> bool" where
  "sent_once retrans b before cs l \<longleftrightarrow> sent (lp_table l) = before @ request_sent b cs \<and> distinct cs \<and>
     (\<forall>c \<in> set cs. dead (lp_table l) c \<or> lp_ch l = Some c) \<and>
     (transmit l \<longrightarrow> (\<forall>c. lp_ch l = Some c \<longrightarrow> dead (lp_table l) c) \<and> (\<not> retrans \<longrightarrow> cs = [])) \<and>
     (\<not> retrans \<longrightarrow> length cs \<le> 1)"

lemma transmit_once:
  assumes refs: "loop_refs others l" and fresh: "fresh (e_connect e) (lp_table l)"
    and once: "sent_once retrans b before cs l"
  shows "\<exists>l' cs'. transmit_request b e l = Some l' \<and> loop_refs others l' \<and> sent_once retrans b before cs' l' \<and>
    \<not> transmit l' \<and> curr_to l' = curr_to l \<and> finaldeadline l' = finaldeadline l"
proof (cases "transmit l")
  case False
  then show ?thesis
    using refs once by (auto simp: transmit_request_def)
next
  case True
  obtain ch chan t where t: "transmit_request b e l = Some (l\<lparr>transmit := False, lp_ch := ch, lp_chan := chan, lp_table := t\<rparr>)"
      "loop_refs others (l\<lparr>transmit := False, lp_ch := ch, lp_chan := chan, lp_table := t\<rparr>)"
      "dead t = dead (lp_table l)"
      "sent t = sent (lp_table l) @ request_sent b (case ch of None \<Rightarrow> [] | Some c \<Rightarrow> if dead t c then [] else [c])"
      "ch = lp_ch l \<or> (\<exists>c. ch = Some c \<and> \<not> dead t c)"
    using transmit_ok [OF refs fresh True] by blast
  let ?l = "l\<lparr>transmit := False, lp_ch := ch, lp_chan := chan, lp_table := t\<rparr>"
  let ?new = "case ch of None \<Rightarrow> [] | Some c \<Rightarrow> if dead t c then [] else [c]"
  have o: "sent (lp_table l) = before @ request_sent b cs" "distinct cs"
      "\<And>c. c \<in> set cs \<Longrightarrow> dead t c" "\<not> retrans \<Longrightarrow> cs = []"
    using once True t(3) by (auto simp: sent_once_def)
  have "sent_once retrans b before (cs @ ?new) ?l"
    unfolding sent_once_def using o t(4) by (auto simp: request_sent_def split: option.splits)
  then show ?thesis
    using t(1,2) by (intro exI [of _ ?l] exI [of _ "cs @ ?new"]) simp
qed

text \<open>The deadline of the wait in this turn.\<close>

definition turn_deadline :: "turn_env \<Rightarrow> call_loop \<Rightarrow> timespec" where
  "turn_deadline e l = fst (the (next_deadline (e_now e) l))"

lemma next_deadline_cases:
  assumes now: "normal (e_now e)" and to: "0 \<le> curr_to l" "curr_to l mod 1000 = 0"
    and fin: "0 \<le> tv_nsec (finaldeadline l)" "tv_nsec (finaldeadline l) \<le> 1000000000"
  shows "next_deadline (e_now e) l = Some (finaldeadline l, Timespec 0 (tv_nsec (finaldeadline l))) \<and>
      (normal (finaldeadline l) \<or> tv_nsec (finaldeadline l) = 1000000000) \<or>
    (\<exists>d. next_deadline (e_now e) l = Some (d, finaldeadline l) \<and> normal d \<and>
       nanos d = nanos (e_now e) + curr_to l * 1000000 \<and> nanos d \<le> nanos (finaldeadline l))"
proof -
  obtain d where d: "add_timespec (e_now e) (curr_to l) = Some d"
    using add_timespec_eq [OF now to(1)] by blast
  note s = add_timespec_spec [OF now to(1) d]
  have "normal d"
    using s(2-4) now to(2) by (auto simp: normal_def)
  moreover have "normal (finaldeadline l) \<or> tv_nsec (finaldeadline l) = 1000000000"
    using fin by (auto simp: normal_def)
  moreover have "nanos d \<le> nanos (finaldeadline l)" if "\<not> cmp_timespec d (finaldeadline l) > 0"
    using that s(2,3) fin by (auto simp: cmp_timespec_def nanos_def split: if_splits)
  ultimately show ?thesis
    using d s(1) by (cases "cmp_timespec d (finaldeadline l) > 0") (simp_all add: next_deadline_def)
qed

lemma turn_ok:
  assumes refs: "loop_refs others l" and fresh: "fresh (e_connect e) (lp_table l)"
    and once: "sent_once retrans b before cs l" and now: "normal (e_now e)"
    and to: "0 \<le> curr_to l" "tv_sec (finaldeadline l) \<noteq> 0 \<Longrightarrow> curr_to l * 2 < 2 ^ 31" "curr_to l mod 1000 = 0"
    and fin: "0 \<le> tv_nsec (finaldeadline l)" "tv_nsec (finaldeadline l) \<le> 1000000000"
  shows "\<exists>go l' cs'. loop_turn retrans b e l = Some (go, l') \<and> loop_refs others l' \<and>
    sent_once retrans b before cs' l' \<and>
    (go = Goes_On \<longrightarrow> tv_sec (finaldeadline l) \<noteq> 0 \<and> curr_to l' = curr_to l * 2 \<and>
       tv_nsec (finaldeadline l') = tv_nsec (finaldeadline l) \<and>
       (tv_sec (finaldeadline l') = 0 \<or>
        finaldeadline l' = finaldeadline l \<and>
        nanos (turn_deadline e l) = nanos (e_now e) + curr_to l * 1000000 \<and>
        nanos (turn_deadline e l) \<le> nanos (finaldeadline l))) \<and>
    (go = In_Wait \<longrightarrow> tv_sec (finaldeadline l) \<noteq> 0 \<and>
       await_reply (turn_deadline e l) (e_done e) (e_wakes e) = Still_Waits \<and>
       (normal (turn_deadline e l) \<or> tv_nsec (finaldeadline l) = 1000000000))"
proof -
  obtain l1 cs1 where l1: "transmit_request b e l = Some l1" "loop_refs others l1" "sent_once retrans b before cs1 l1"
      "\<not> transmit l1" "curr_to l1 = curr_to l" "finaldeadline l1 = finaldeadline l"
    using transmit_once [OF refs fresh once] by blast
  show ?thesis
  proof (cases "tv_sec (finaldeadline l) = 0")
    case True
    then show ?thesis
      using l1 by (intro exI [of _ Leaves] exI [of _ l1] exI [of _ cs1]) (simp add: loop_turn_def)
  next
    case False
    obtain d f where df: "next_deadline (e_now e) l = Some (d, f)"
        "tv_sec f = 0 \<and> tv_nsec f = tv_nsec (finaldeadline l) \<or>
         f = finaldeadline l \<and> nanos d = nanos (e_now e) + curr_to l * 1000000 \<and> nanos d \<le> nanos (finaldeadline l)"
        "normal d \<or> tv_nsec (finaldeadline l) = 1000000000"
      using next_deadline_cases [OF now to(1,3) fin] by fastforce
    have nd: "next_deadline (e_now e) l1 = Some (d, f)" "turn_deadline e l = d"
      using df(1) unfolding next_deadline_def turn_deadline_def l1(5,6) by simp_all
    define l2 where "l2 = l1\<lparr>finaldeadline := f,
      lp_table := (lp_table l1)\<lparr>dead := (\<lambda>c. dead (lp_table l1) c \<or> c \<in> e_dies e)\<rparr>\<rparr>"
    have l2: "loop_refs others l2" "sent_once retrans b before cs1 l2" "\<not> transmit l2" "curr_to l2 = curr_to l" "finaldeadline l2 = f"
      using l1 by (auto simp: l2_def loop_refs_def sent_once_def)
    show ?thesis
    proof (cases "await_reply d (e_done e) (e_wakes e)")
      case Reply_Came
      have "loop_turn retrans b e l = Some (Leaves, l2)"
        using False l1(1,6) nd(1) Reply_Came by (simp add: loop_turn_def l2_def)
      then show ?thesis
        using l2 by (intro exI [of _ Leaves] exI [of _ l2] exI [of _ cs1]) simp
    next
      case Still_Waits
      have "loop_turn retrans b e l = Some (In_Wait, l2)"
        using False l1(1,6) nd(1) Still_Waits by (simp add: loop_turn_def l2_def)
      then show ?thesis
        using l2 False Still_Waits df(3) nd(2) by (intro exI [of _ In_Wait] exI [of _ l2] exI [of _ cs1]) simp
    next
      case Timed_Out
      define gone where "gone = (case lp_ch l2 of None \<Rightarrow> True | Some c \<Rightarrow> dead (lp_table l2) c)"
      have alive: "refno (lp_table l2) c \<noteq> None" if "lp_ch l2 = Some c" for c
      proof -
        have "0 < one (lp_chan l2) c + one (lp_ch l2) c + others c"
          using that l2(1) one_nonneg [of "lp_chan l2" c] by (simp add: loop_refs_def add_nonneg_pos add_pos_nonneg)
        from refs_okD(3) [OF conjunct2 [OF l2(1) [unfolded loop_refs_def]] this] show ?thesis
          by simp
      qed
      have gone: "(case lp_ch l2 of None \<Rightarrow> Some True | Some c \<Rightarrow> isdead c (lp_table l2)) = Some gone"
        using alive by (auto simp: gone_def isdead_def split: option.splits)
      define l3 where "l3 = (if retrans \<and> gone then l2\<lparr>transmit := True\<rparr> else l2)\<lparr>curr_to := curr_to l * 2\<rparr>"
      have "loop_turn retrans b e l = Some (Goes_On, l3)"
        using False l1(1,6) nd(1) Timed_Out gone to(2) l2(4)
        by (simp add: loop_turn_def l2_def [symmetric] l3_def)
      moreover have "loop_refs others l3" "sent_once retrans b before cs1 l3"
        using l2(1,2,3) by (auto simp: l3_def loop_refs_def sent_once_def gone_def)
      moreover have "finaldeadline l3 = f" "curr_to l3 = curr_to l * 2"
        using l2(5) by (simp_all add: l3_def)
      ultimately show ?thesis
        using False df(2) nd(2) by (intro exI [of _ Goes_On] exI [of _ l3] exI [of _ cs1]) auto
    qed
  qed
qed

section \<open>The loop ends\<close>

text \<open>
  The surroundings of a run: times are valid and a wait that times out lasts until its deadline, the
  time of the turn before being \<open>since\<close>, and new connections are new.
\<close>

fun env_ok :: "bool \<Rightarrow> u8 list \<Rightarrow> int \<Rightarrow> turn_env list \<Rightarrow> call_loop \<Rightarrow> bool" where
  "env_ok retrans b since [] l = True"
| "env_ok retrans b since (e # es) l =
     (normal (e_now e) \<and> since \<le> nanos (e_now e) \<and> fresh (e_connect e) (lp_table l) \<and>
      (case loop_turn retrans b e l of
         Some (Goes_On, l') \<Rightarrow> env_ok retrans b (nanos (turn_deadline e l)) es l'
       | _ \<Rightarrow> True))"

text \<open>
  A wait whose deadline is valid comes to an end, with the reply or, at the latest, when the deadline
  is over.
\<close>

fun waits_end :: "bool \<Rightarrow> u8 list \<Rightarrow> turn_env list \<Rightarrow> call_loop \<Rightarrow> bool" where
  "waits_end retrans b [] l = True"
| "waits_end retrans b (e # es) l =
     ((normal (turn_deadline e l) \<longrightarrow> await_reply (turn_deadline e l) (e_done e) (e_wakes e) \<noteq> Still_Waits) \<and>
      (case loop_turn retrans b e l of
         Some (Goes_On, l') \<Rightarrow> waits_end retrans b es l'
       | _ \<Rightarrow> True))"

text \<open>
  After \<open>j\<close> turns the timeout has doubled \<open>j\<close> times, and unless the next wait is the last one the
  time passed is the sum of the timeouts so far.
\<close>

definition clock_inv :: "int \<Rightarrow> int \<Rightarrow> nat \<Rightarrow> nat \<Rightarrow> int \<Rightarrow> call_loop \<Rightarrow> bool" where
  "clock_inv begin to k j since l \<longleftrightarrow> curr_to l = 1000 * 2 ^ j \<and> j \<le> k \<and>
     0 \<le> tv_nsec (finaldeadline l) \<and> tv_nsec (finaldeadline l) \<le> 1000000000 \<and>
     (tv_sec (finaldeadline l) \<noteq> 0 \<longrightarrow> j < k \<and> nanos (finaldeadline l) = begin + to * 1000000 \<and>
        begin + 1000 * (2 ^ j - 1) * 1000000 \<le> since)"

lemma clock_turn:
  assumes inv: "clock_inv begin to k j since l" and to: "to < 1000 * (2 ^ k - 1)"
    and more: "tv_sec (finaldeadline l) \<noteq> 0" and since: "since \<le> nanos (e_now e)"
    and l': "curr_to l' = curr_to l * 2" "tv_nsec (finaldeadline l') = tv_nsec (finaldeadline l)"
    and deadline: "tv_sec (finaldeadline l') = 0 \<or> finaldeadline l' = finaldeadline l \<and>
        nanos (turn_deadline e l) = nanos (e_now e) + curr_to l * 1000000 \<and>
        nanos (turn_deadline e l) \<le> nanos (finaldeadline l)"
  shows "clock_inv begin to k (Suc j) (nanos (turn_deadline e l)) l'"
proof -
  have i: "curr_to l = 1000 * 2 ^ j" "j < k" "nanos (finaldeadline l) = begin + to * 1000000"
      "begin + 1000 * (2 ^ j - 1) * 1000000 \<le> since"
    using inv more by (auto simp: clock_inv_def)
  have "Suc j < k \<and> begin + 1000 * (2 ^ Suc j - 1) * 1000000 \<le> nanos (turn_deadline e l)"
    if d: "nanos (turn_deadline e l) = nanos (e_now e) + curr_to l * 1000000" "nanos (turn_deadline e l) \<le> nanos (finaldeadline l)"
  proof -
    have le: "begin + 1000 * (2 ^ Suc j - 1) * 1000000 \<le> nanos (turn_deadline e l)"
      using i(1,4) d(1) since by (simp add: algebra_simps)
    then have "1000 * (2 ^ Suc j - 1) \<le> to"
      using d(2) i(3) by simp
    then have "(2 :: int) ^ Suc j < 2 ^ k"
      using to by simp
    then have "Suc j < k"
      by (rule power_less_imp_less_exp [rotated]) simp
    with le show ?thesis
      by blast
  qed
  then show ?thesis
    using inv i(1,2) l' deadline by (auto simp: clock_inv_def)
qed

lemma run_ok:
  assumes "loop_refs others l" "sent_once retrans b before cs l" "env_ok retrans b since es l"
    and "clock_inv begin to k j since l" "to < 1000 * (2 ^ k - 1)" "k \<le> 21"
  shows "\<exists>go l' cs'. loop_run retrans b es l = Some (go, l') \<and> loop_refs others l' \<and>
    sent_once retrans b before cs' l' \<and> (go = Goes_On \<longrightarrow> length es + j \<le> k) \<and>
    (go = In_Wait \<longrightarrow> waits_end retrans b es l \<longrightarrow> tv_nsec (finaldeadline l) = 1000000000)"
  using assms(1-4)
proof (induction es arbitrary: l cs since j)
  case Nil
  then show ?case
    by (auto simp: clock_inv_def)
next
  case (Cons e es)
  have c: "curr_to l = 1000 * 2 ^ j" "j \<le> k" "0 \<le> tv_nsec (finaldeadline l)"
      "tv_nsec (finaldeadline l) \<le> 1000000000" "tv_sec (finaldeadline l) \<noteq> 0 \<Longrightarrow> j < k"
    using Cons.prems(4) by (auto simp: clock_inv_def)
  have env: "normal (e_now e)" "since \<le> nanos (e_now e)" "fresh (e_connect e) (lp_table l)"
    using Cons.prems(3) by auto
  have small: "curr_to l * 2 < 2 ^ 31" if "tv_sec (finaldeadline l) \<noteq> 0"
  proof -
    have "Suc j \<le> 21"
      using c(5) [OF that] assms(6) by simp
    then have "(2 :: int) ^ Suc j \<le> 2 ^ 21"
      by (intro power_increasing) auto
    then show ?thesis
      using c(1) by simp
  qed
  have second: "curr_to l mod 1000 = 0"
    unfolding c(1) by simp
  obtain go l' cs' where t: "loop_turn retrans b e l = Some (go, l')" "loop_refs others l'"
      "sent_once retrans b before cs' l'"
      "go = Goes_On \<Longrightarrow> tv_sec (finaldeadline l) \<noteq> 0 \<and> curr_to l' = curr_to l * 2 \<and>
         tv_nsec (finaldeadline l') = tv_nsec (finaldeadline l) \<and>
         (tv_sec (finaldeadline l') = 0 \<or>
          finaldeadline l' = finaldeadline l \<and>
          nanos (turn_deadline e l) = nanos (e_now e) + curr_to l * 1000000 \<and>
          nanos (turn_deadline e l) \<le> nanos (finaldeadline l))"
      "go = In_Wait \<Longrightarrow> await_reply (turn_deadline e l) (e_done e) (e_wakes e) = Still_Waits \<and>
         (normal (turn_deadline e l) \<or> tv_nsec (finaldeadline l) = 1000000000)"
    using turn_ok [OF Cons.prems(1) env(3) Cons.prems(2) env(1) _ small second c(3,4)] c(1) by fastforce
  show ?case
  proof (cases "go = Goes_On")
    case False
    then show ?thesis
      using t(1,2,3,5) by auto
  next
    case True
    have inv: "clock_inv begin to k (Suc j) (nanos (turn_deadline e l)) l'"
      using t(4) [OF True] env(2) by (intro clock_turn [OF Cons.prems(4) assms(5)]) auto
    have "env_ok retrans b (nanos (turn_deadline e l)) es l'"
      using Cons.prems(3) t(1) True by simp
    from Cons.IH [OF t(2,3) this inv] show ?thesis
      using t(1) t(4) [OF True] True by auto
  qed
qed

lemma start_ok:
  assumes "normal now" "0 \<le> to" "to < 1000 * (2 ^ k - 1)" "loop_start to now chan t = Some l"
    and "refs_ok (\<lambda>c. one chan c + others c) t" "\<And>c. 0 \<le> others c"
  shows "loop_refs others l" "sent_once retrans b (sent t) [] l" "clock_inv (nanos now) to k 0 (nanos now) l"
proof -
  obtain f where f: "add_timespec now to = Some f"
      "l = \<lparr>curr_to = to_min, finaldeadline = f, transmit = True, lp_ch = None, lp_chan = chan, lp_table = t\<rparr>"
    using assms(4) by (auto simp: loop_start_def bind_eq_Some_conv)
  show "loop_refs others l" "sent_once retrans b (sent t) [] l"
    using assms(5,6) f(2) by (simp_all add: loop_refs_def sent_once_def request_sent_def)
  have "0 < k"
    using assms(2,3) by (cases k) simp_all
  then show "clock_inv (nanos now) to k 0 (nanos now) l"
    using add_timespec_spec [OF assms(1,2) f(1)] f(2) by (simp add: clock_inv_def to_min_def)
qed

lemma invalid_never_ends: "\<not> normal d \<Longrightarrow> await_reply d False ws = Still_Waits"
  by (induction ws) (auto simp: timedwait_def)

lemma start_on_second:
  assumes "normal now" "0 \<le> to" "loop_start to now chan t = Some l"
  shows "tv_nsec (finaldeadline l) = 1000000000 \<longleftrightarrow> tv_nsec now + to mod 1000 * 1000000 = 1000000000"
proof -
  let ?n = "tv_nsec now + to mod 1000 * 1000000"
  have f: "add_timespec now to = Some (finaldeadline l)"
    using assms(3) by (auto simp: loop_start_def bind_eq_Some_conv)
  have n: "0 \<le> ?n" "?n < 2 * 1000000000"
    using assms(1) pos_mod_bound [of 1000 to] by (auto simp: normal_def)
  have "0 < ?n \<and> ?n mod 1000000000 = 0 \<longleftrightarrow> ?n = 1000000000"
  proof
    assume a: "0 < ?n \<and> ?n mod 1000000000 = 0"
    then obtain q where q: "?n = 1000000000 * q"
      by (meson mod_eq_0_iff_dvd dvdE)
    with a n(2) have "0 < q" "q < 2"
      by simp_all
    with q show "?n = 1000000000"
      by simp
  qed simp
  then show ?thesis
    using add_timespec_spec(4) [OF assms(1,2) f] by simp
qed

lemma call_runs:
  assumes "normal now" "0 \<le> to" "to < 1000 * (2 ^ k - 1)" "k \<le> 21" "loop_start to now chan t = Some l"
    and "refs_ok (\<lambda>c. one chan c + others c) t" "\<And>c. 0 \<le> others c"
    and "env_ok retrans b (nanos now) es l"
  shows "\<exists>go l' cs. loop_run retrans b es l = Some (go, l') \<and> loop_refs others l' \<and>
    sent_once retrans b (sent t) cs l' \<and> (go = Goes_On \<longrightarrow> length es \<le> k) \<and>
    (go = In_Wait \<longrightarrow> waits_end retrans b es l \<longrightarrow> tv_nsec (finaldeadline l) = 1000000000)"
proof -
  note s = start_ok [OF assms(1-3,5-7)]
  show ?thesis
    using run_ok [OF s(1) s(2) assms(8) s(3) assms(3,4)] by simp
qed

section \<open>A call nobody answers\<close>

text \<open>
  Every connect fails, every wait ends with the timeout, after returns of \<open>pthread_cond_timedwait\<close> that
  are for nothing, and the program is never late by more than \<open>d\<close> nanoseconds: a turn begins at most
  \<open>d\<close> after the deadline before it, and \<open>t1\<close> is at most \<open>d\<close> after the last turn.
\<close>

definition times_out :: "(bool \<times> bool) list \<Rightarrow> bool" where
  "times_out ws \<longleftrightarrow> list_all (\<lambda>(late, came). \<not> came) ws \<and> list_ex fst ws"

fun unanswered :: "int \<Rightarrow> u8 list \<Rightarrow> int \<Rightarrow> turn_env list \<Rightarrow> call_loop \<Rightarrow> int \<Rightarrow> bool" where
  "unanswered d b since [] l t1 = True"
| "unanswered d b since (e # es) l t1 =
     (normal (e_now e) \<and> since \<le> nanos (e_now e) \<and> nanos (e_now e) \<le> since + d \<and>
      e_connect e = None \<and> \<not> e_done e \<and> times_out (e_wakes e) \<and>
      (case loop_turn True b e l of
         Some (Goes_On, l') \<Rightarrow> unanswered d b (nanos (turn_deadline e l)) es l' t1
       | Some (Leaves, _) \<Rightarrow> t1 \<le> nanos (e_now e) + d
       | _ \<Rightarrow> True))"

lemma times_out_await:
  "times_out ws \<Longrightarrow> await_reply d False ws = (if normal d then Timed_Out else Still_Waits)"
proof (cases "normal d")
  case True
  then show "times_out ws \<Longrightarrow> ?thesis"
    by (induction ws) (auto simp: times_out_def timedwait_def)
qed (simp add: invalid_never_ends)

lemma unanswered_env: "unanswered d b since es l t1 \<Longrightarrow> env_ok True b since es l \<and> waits_end True b es l"
proof (induction d b since es l t1 rule: unanswered.induct)
  case (2 d b since e es l t1)
  have wait: "normal dl \<Longrightarrow> await_reply dl (e_done e) (e_wakes e) \<noteq> Still_Waits" for dl
    using "2.prems" times_out_await by simp
  show ?case
  proof (cases "loop_turn True b e l")
    case (Some r)
    obtain go l' where r: "r = (go, l')"
      by (cases r)
    show ?thesis
      using "2.IH" [OF Some r [symmetric]] "2.prems" wait Some r by (cases go) (simp_all add: fresh_def)
  qed (use "2.prems" wait in \<open>simp add: fresh_def\<close>)
qed simp

lemma quiet_turn:
  assumes ch: "lp_ch l = None" "lp_chan l = None" "e_connect e = None"
    and wait: "\<not> e_done e" "times_out (e_wakes e)"
    and t: "loop_turn True b e l = Some (go, l')"
  shows "lp_ch l' = None \<and> lp_chan l' = None \<and>
    (if tv_sec (finaldeadline l) = 0 then go = Leaves
     else go \<noteq> Leaves \<and> (go = Goes_On \<longrightarrow> curr_to l' = curr_to l * 2 \<and>
       next_deadline (e_now e) l = Some (turn_deadline e l, finaldeadline l')))"
proof -
  have "transmit_request b e l = Some (l\<lparr>transmit := False\<rparr>)"
    using ch by (cases l) (simp add: transmit_request_def get_refconn_def connect_to_dst_def)
  moreover have "next_deadline (e_now e) (l\<lparr>transmit := False\<rparr>) = next_deadline (e_now e) l"
    by (simp add: next_deadline_def cong del: if_weak_cong)
  ultimately show ?thesis
    using ch wait t times_out_await [OF wait(2)]
    by (auto simp: loop_turn_def Let_def turn_deadline_def split: if_splits Option.bind_splits)
qed

lemma invalid_turn:
  assumes "loop_turn True b e l = Some (go, l')" "\<not> e_done e" "tv_sec (finaldeadline l) \<noteq> 0" "go = Goes_On"
  shows "normal (turn_deadline e l)"
proof -
  obtain l1 where l1: "transmit_request b e l = Some l1" "curr_to l1 = curr_to l" "finaldeadline l1 = finaldeadline l"
    using assms(1) by (auto simp: loop_turn_def transmit_request_def split: if_splits Option.bind_splits)
  then obtain dl f where d: "next_deadline (e_now e) l1 = Some (dl, f)" "await_reply dl False (e_wakes e) = Timed_Out"
    using assms by (auto simp: loop_turn_def Let_def split: if_splits Option.bind_splits wait_end.splits)
  have "turn_deadline e l = dl"
    using d(1) unfolding turn_deadline_def next_deadline_def l1(2,3) by simp
  with d(2) show ?thesis
    using invalid_never_ends [of dl "e_wakes e"] by auto
qed

lemma unanswered_end:
  assumes "unanswered d b since es l t1" "loop_run True b es l = Some (Leaves, l')"
    and "lp_ch l = None" "lp_chan l = None" "0 \<le> curr_to l" "curr_to l mod 1000 = 0"
    and "0 \<le> tv_nsec (finaldeadline l)" "tv_nsec (finaldeadline l) \<le> 1000000000"
    and "since \<le> f" "tv_sec (finaldeadline l) \<noteq> 0 \<Longrightarrow> nanos (finaldeadline l) = f"
  shows "t1 \<le> f + 2 * d \<and> lp_ch l' = None"
  using assms
proof (induction es arbitrary: l since)
  case (Cons e es)
  obtain go l1 where t: "loop_turn True b e l = Some (go, l1)"
      "if go = Goes_On then loop_run True b es l1 = Some (Leaves, l') else go = Leaves \<and> l1 = l'"
    using Cons.prems(2) by (auto split: if_splits Option.bind_splits)
  have env: "normal (e_now e)" "nanos (e_now e) \<le> since + d" "e_connect e = None" "\<not> e_done e" "times_out (e_wakes e)"
    using Cons.prems(1) by simp_all
  note q = quiet_turn [OF Cons.prems(3,4) env(3-5) t(1)]
  show ?case
  proof (cases "tv_sec (finaldeadline l) = 0")
    case True
    with q t Cons.prems(1,9) env(2) show ?thesis
      by simp
  next
    case False
    with q t(2) have go: "go = Goes_On" "loop_run True b es l1 = Some (Leaves, l')" "curr_to l1 = curr_to l * 2"
        "next_deadline (e_now e) l = Some (turn_deadline e l, finaldeadline l1)"
      by (cases go; simp)+
    have f: "nanos (finaldeadline l) = f"
      by (rule Cons.prems(10) [OF False])
    have dl: "nanos (turn_deadline e l) \<le> f" "0 \<le> tv_nsec (finaldeadline l1)" "tv_nsec (finaldeadline l1) \<le> 1000000000"
        "tv_sec (finaldeadline l1) \<noteq> 0 \<Longrightarrow> nanos (finaldeadline l1) = f"
      using next_deadline_cases [where l = l, OF env(1) Cons.prems(5-8)] go(4) f Cons.prems(7,8) by auto
    show ?thesis
      by (rule Cons.IH [where l = l1 and since = "nanos (turn_deadline e l)"])
        (use Cons.prems(1,5,6) t(1) q go dl in auto)
  qed
qed simp

text \<open>With a final deadline on a full second it does not leave its loop.\<close>

lemma unanswered_stuck:
  assumes "unanswered d b since es l t1" "loop_run True b es l = Some (go, l')"
    and "lp_ch l = None" "lp_chan l = None" "0 \<le> curr_to l" "curr_to l mod 1000 = 0"
    and "tv_nsec (finaldeadline l) = 1000000000" "tv_sec (finaldeadline l) \<noteq> 0"
  shows "go \<noteq> Leaves"
  using assms
proof (induction es arbitrary: l since)
  case (Cons e es)
  obtain go1 l1 where t: "loop_turn True b e l = Some (go1, l1)"
      "if go1 = Goes_On then loop_run True b es l1 = Some (go, l') else go = go1"
    using Cons.prems(2) by (auto split: if_splits Option.bind_splits)
  have env: "normal (e_now e)" "e_connect e = None" "\<not> e_done e" "times_out (e_wakes e)"
    using Cons.prems(1) by simp_all
  note q = quiet_turn [OF Cons.prems(3,4) env(2-4) t(1)]
  show ?case
  proof (cases "go1 = Goes_On")
    case False
    with q t(2) Cons.prems(8) show ?thesis
      by simp
  next
    case True
    have nd: "next_deadline (e_now e) l = Some (turn_deadline e l, finaldeadline l1)" "curr_to l1 = curr_to l * 2"
      using q True Cons.prems(8) by simp_all
    have "normal (turn_deadline e l)"
      by (rule invalid_turn [OF t(1) env(3) Cons.prems(8) True])
    then have "finaldeadline l1 = finaldeadline l"
      using next_deadline_cases [where l = l, OF env(1) Cons.prems(5,6)] nd(1) Cons.prems(7) by (auto simp: normal_def)
    then show ?thesis
      by (intro Cons.IH [where l = l1 and since = "nanos (turn_deadline e l)"])
        (use Cons.prems t True q nd(2) in auto)
  qed
qed simp

text \<open>Such a call leaves its loop, within the timeout and two delays.\<close>

lemma unanswered_leaves:
  assumes now: "normal now" and start: "loop_start to now None t = Some l"
    and to: "0 \<le> to" "to < 1000 * (2 ^ k - 1)" "k \<le> 21" "to mod 1000 = 0"
    and refs: "refs_ok (\<lambda>c. 0) t" and un: "unanswered d b (nanos now) es l t1" and long: "k < length es"
  obtains l' where "loop_run True b es l = Some (Leaves, l')" "lp_ch l' = None" "t1 \<le> nanos now + to * 1000000 + 2 * d"
proof -
  have refs': "refs_ok (\<lambda>c. one None c + 0) t"
    using refs by simp
  have env: "env_ok True b (nanos now) es l" "waits_end True b es l"
    using unanswered_env [OF un] by blast+
  obtain go l' where run: "loop_run True b es l = Some (go, l')" "go = Goes_On \<Longrightarrow> length es \<le> k"
      "go = In_Wait \<Longrightarrow> tv_nsec (finaldeadline l) = 1000000000"
    using call_runs [OF now to(1-3) start refs' _ env(1)] env(2) by auto
  moreover have "tv_nsec (finaldeadline l) \<noteq> 1000000000"
    using start_on_second [OF now to(1) start] now to(4) by (simp add: normal_def)
  ultimately have leaves: "loop_run True b es l = Some (Leaves, l')"
    using long by (cases go) auto
  obtain f where f: "add_timespec now to = Some f"
      "l = \<lparr>curr_to = to_min, finaldeadline = f, transmit = True, lp_ch = None, lp_chan = None, lp_table = t\<rparr>"
    using start by (auto simp: loop_start_def bind_eq_Some_conv)
  note s = add_timespec_spec [OF now to(1) f(1)]
  have "t1 \<le> nanos now + to * 1000000 + 2 * d \<and> lp_ch l' = None"
    by (rule unanswered_end [OF un leaves]) (use f(2) s to(1) in \<open>simp_all add: to_min_def\<close>)
  with leaves that show thesis
    by blast
qed

text \<open>
  A call that loses its first connection in the first turn and is answered in the second, on another one.
\<close>

definition demo_table :: conn_table where
  "demo_table = \<lparr>refno = (\<lambda>_. None), dead = (\<lambda>_. False), sent = []\<rparr>"

definition demo_start :: call_loop where
  "demo_start = \<lparr>curr_to = 1000, finaldeadline = Timespec 220 0, transmit = True, lp_ch = None, lp_chan = None,
     lp_table = demo_table\<rparr>"

definition demo_env :: "turn_env list" where
  "demo_env =
     [\<lparr>e_connect = Some 1, e_now = Timespec 100 0, e_done = False,
        e_wakes = [(False, False), (True, False)], e_dies = {1}\<rparr>,
      \<lparr>e_connect = Some 2, e_now = Timespec 101 5, e_done = False,
        e_wakes = [(False, True)], e_dies = {}\<rparr>]"

lemma demo_loop_start: "loop_start to_max (Timespec 100 0) None demo_table = Some demo_start"
  by (simp add: loop_start_def to_max_def to_min_def demo_start_def add_timespec_eq normal_def carry_nsec.simps)

definition demo_second :: call_loop where
  "demo_second = \<lparr>curr_to = 2000, finaldeadline = Timespec 220 0, transmit = True, lp_ch = Some 1, lp_chan = Some 1,
     lp_table = \<lparr>refno = (\<lambda>_. None)(1 \<mapsto> 2), dead = (\<lambda>c. c = 1), sent = [(1, framed [0, 0, 0, 0, 7])]\<rparr>\<rparr>"

definition demo_last :: call_loop where
  "demo_last = \<lparr>curr_to = 2000, finaldeadline = Timespec 220 0, transmit = False, lp_ch = Some 2, lp_chan = Some 2,
     lp_table = \<lparr>refno = (\<lambda>_. None)(2 \<mapsto> 2), dead = (\<lambda>c. c = 1),
       sent = [(1, framed [0, 0, 0, 0, 7]), (2, framed [0, 0, 0, 0, 7])]\<rparr>\<rparr>"

lemmas turn_defs = loop_turn_def transmit_request_def get_refconn_def connect_to_dst_def construct_def isdead_def incref_def
  decref_def conn_send_def next_deadline_def add_timespec_eq normal_def carry_nsec.simps cmp_timespec_def timedwait_def

lemma demo_turns:
  "loop_turn True [0, 0, 0, 0, 7] (demo_env ! 0) demo_start = Some (Goes_On, demo_second)"
  "loop_turn True [0, 0, 0, 0, 7] (demo_env ! 1) demo_second = Some (Leaves, demo_last)"
  by (auto simp: demo_env_def demo_start_def demo_second_def demo_last_def demo_table_def turn_defs)

lemma demo_env_two: "demo_env = [demo_env ! 0, demo_env ! 1]"
  by (simp add: demo_env_def)

lemma demo_env_ok: "env_ok True [0, 0, 0, 0, 7] (nanos (Timespec 100 0)) demo_env demo_start"
proof -
  have run: "env_ok True [0, 0, 0, 0, 7] (nanos (Timespec 100 0)) [demo_env ! 0, demo_env ! 1] demo_start"
    unfolding env_ok.simps demo_turns option.case prod.case turn_end.case
    by (simp add: demo_env_def demo_start_def demo_second_def demo_table_def fresh_def normal_def nanos_def
        turn_deadline_def turn_defs)
  show ?thesis
    by (subst demo_env_two) (rule run)
qed


lemma demo_run: "loop_run True [0, 0, 0, 0, 7] demo_env demo_start = Some (Leaves, demo_last)"
proof -
  have run: "loop_run True [0, 0, 0, 0, 7] [demo_env ! 0, demo_env ! 1] demo_start = Some (Leaves, demo_last)"
    by (simp add: demo_turns del: One_nat_def)
  show ?thesis
    by (subst demo_env_two) (rule run)
qed

lemma demo_table_refs: "refs_ok (\<lambda>c. one None c + 0) demo_table"
  by (simp add: refs_ok_def demo_table_def)

lemma demo_table_refs': "refs_ok (\<lambda>c. 0) demo_table"
  using demo_table_refs by simp

text \<open>A call with a final deadline on a full second, and turns in which nobody answers it.\<close>

definition late_start :: call_loop where
  "late_start = \<lparr>curr_to = 1000, finaldeadline = Timespec 103 1000000000, transmit = True, lp_ch = None,
     lp_chan = None, lp_table = demo_table\<rparr>"

definition late_turn :: "timespec \<Rightarrow> turn_env" where
  "late_turn t = \<lparr>e_connect = None, e_now = t, e_done = False, e_wakes = [(False, False), (True, False)], e_dies = {}\<rparr>"

lemma late_loop_start: "loop_start 3500 (Timespec 100 500000000) None demo_table = Some late_start"
  by (simp add: loop_start_def late_start_def to_min_def add_timespec_eq normal_def carry_nsec.simps)

lemma late_unanswered:
  "unanswered 100000000 [] (nanos (Timespec 100 500000000)) (map late_turn [Timespec 100 500000000,
     Timespec 101 600000000, Timespec 103 700000000, Timespec 104 0]) late_start 0"
  by (simp add: late_start_def late_turn_def turn_deadline_def turn_defs nanos_def normal_def times_out_def)

section \<open>Properties\<close>



text \<open>
  C33. A call that never returns: when the nanoseconds of its start and the milliseconds of its timeout
  add up to exactly a second and nobody answers it, the call, once it has come to the wait for its
  final deadline, is still in that wait after any number of returns of \<open>pthread_cond_timedwait\<close>, each of
  which is \<open>EINVAL\<close>, which the loop does not take for a time-out.
\<close>

theorem full_second_never_ends:
  assumes now: "normal now" "0 < tv_sec now" and to: "0 \<le> to" "to < 1000 * (2 ^ k - 1)" "k \<le> 21"
    and second: "tv_nsec now + to mod 1000 * 1000000 = 1000000000" and start: "loop_start to now None t = Some l"
    and refs: "refs_ok (\<lambda>c. 0) t" and un: "unanswered d b (nanos now) es l t1" and long: "k < length es"
  shows "\<exists>l'. loop_run True b es l = Some (In_Wait, l')"
proof -
  have refs': "refs_ok (\<lambda>c. one None c + 0) t"
    using refs by simp
  obtain go l' where run: "loop_run True b es l = Some (go, l')" "go = Goes_On \<Longrightarrow> length es \<le> k"
    using call_runs [OF now(1) to start refs' _ conjunct1 [OF unanswered_env [OF un]]] by auto
  obtain f where f: "add_timespec now to = Some f"
      "l = \<lparr>curr_to = to_min, finaldeadline = f, transmit = True, lp_ch = None, lp_chan = None, lp_table = t\<rparr>"
    using start by (auto simp: loop_start_def bind_eq_Some_conv)
  have nsec: "tv_nsec f = 1000000000"
    using start_on_second [OF now(1) to(1) start] second f(2) by simp
  moreover have "tv_sec f \<noteq> 0"
  proof
    assume "tv_sec f = 0"
    then have "tv_sec now * 1000000000 + tv_nsec now + to * 1000000 = 1000000000"
      using add_timespec_spec(1) [OF now(1) to(1) f(1)] nsec by (simp add: nanos_def)
    then have "tv_nsec now = 0" "to = 0"
      using now to(1) by (simp_all add: normal_def)
    with second show False
      by simp
  qed
  ultimately have "go \<noteq> Leaves"
    using unanswered_stuck [OF un run(1)] f(2) by (simp add: to_min_def)
  with run long show ?thesis
    by (cases go) auto
qed

theorem full_second_never_ends_witness:
  "\<exists>l'. loop_run True [] (map late_turn [Timespec 100 500000000, Timespec 101 600000000, Timespec 103 700000000,
      Timespec 104 0]) late_start = Some (In_Wait, l')"
  by (rule full_second_never_ends [OF _ _ _ _ _ _ late_loop_start demo_table_refs' late_unanswered, where k = 3])
    (simp_all add: normal_def)

text \<open>
  C17. A call keeps the reference counts exact over all its reconnections: when its loop has ended it
  gives its reference back, and what remains are the reference of the channel and those of the others,
  so a connection that died is deleted and none is deleted early.
\<close>

theorem call_gives_references_back:
  assumes "normal now" "0 \<le> to" "to < 1000 * (2 ^ k - 1)" "k \<le> 21" "loop_start to now chan t = Some l"
    and "refs_ok (\<lambda>c. one chan c + others c) t" "\<And>c. 0 \<le> others c"
    and "env_ok retrans b (nanos now) es l" "loop_run retrans b es l = Some (go, l')"
  shows "\<exists>t'. call_release l' = Some t' \<and> refs_ok (\<lambda>c. one (lp_chan l') c + others c) t'"
proof -
  have l': "loop_refs others l'"
    using call_runs [OF assms(1-8)] assms(9) by auto
  have "refs_ok (\<lambda>c. (one (lp_chan l') c + others c) + one (lp_ch l') c) (lp_table l')"
    using conjunct2 [OF l' [unfolded loop_refs_def]] by (rule refs_ok_cong) auto
  then show ?thesis
    unfolding call_release_def using assms(7) by (auto dest!: release_ok)
qed

theorem call_gives_references_back_witness:
  "\<exists>t'. call_release demo_last = Some t' \<and> refs_ok (\<lambda>c. one (lp_chan demo_last) c + 0) t'"
  by (rule call_gives_references_back [OF _ _ _ _ demo_loop_start demo_table_refs _ demo_env_ok demo_run, where k = 7])
    (simp_all add: normal_def to_max_def)

text \<open>
  C31. The request is sent at most once on a connection, and again only after that connection has died;
  a client without retransmission sends it at most once at all.
\<close>

theorem request_once_per_connection:
  assumes "normal now" "0 \<le> to" "to < 1000 * (2 ^ k - 1)" "k \<le> 21" "loop_start to now chan t = Some l"
    and "refs_ok (\<lambda>c. one chan c + others c) t" "\<And>c. 0 \<le> others c"
    and "env_ok retrans b (nanos now) es l" "loop_run retrans b es l = Some (go, l')"
  shows "\<exists>cs. sent (lp_table l') = sent t @ request_sent b cs \<and> distinct cs \<and>
    (\<forall>c \<in> set cs. dead (lp_table l') c \<or> lp_ch l' = Some c) \<and> (\<not> retrans \<longrightarrow> length cs \<le> 1)"
  using call_runs [OF assms(1-8)] assms(9) by (auto simp: sent_once_def)

theorem request_once_per_connection_witness:
  "\<exists>cs. sent (lp_table demo_last) = sent demo_table @ request_sent [0, 0, 0, 0, 7] cs \<and> distinct cs \<and>
    (\<forall>c \<in> set cs. dead (lp_table demo_last) c \<or> lp_ch demo_last = Some c) \<and> (\<not> True \<longrightarrow> length cs \<le> 1)"
  by (rule request_once_per_connection [OF _ _ _ _ demo_loop_start demo_table_refs _ demo_env_ok demo_run, where k = 7])
    (simp_all add: normal_def to_max_def)

text \<open>
  The destructor of a client without pending calls closes its connection and gives the last
  reference back: the connection is dead, and it is deleted if nobody else holds it.
\<close>

theorem client_destroyed:
  assumes "refs_ok (\<lambda>c. one chan c + others c) t" "\<And>c. 0 \<le> others c"
  shows "\<exists>t'. rpcc_destroy 0 chan t = Some t' \<and> refs_ok others t' \<and>
    (\<forall>c. chan = Some c \<longrightarrow> dead t' c \<and> (others c = 0 \<longrightarrow> refno t' c = None))"
proof (cases chan)
  case None
  then show ?thesis
    using assms(1) by (simp add: rpcc_destroy_def)
next
  case (Some c)
  have pos: "0 < one chan c + others c"
    using Some assms(2) [of c] by simp
  obtain t1 where t1: "closeconn c t = Some t1" "refs_ok (\<lambda>c. one chan c + others c) t1"
      "dead t1 = (dead t)(c := True)" "refno t1 = refno t"
    using closeconn_ok [OF assms(1) pos] by blast
  have r1: "refs_ok (\<lambda>d. others d + one (Some c) d) t1"
    using t1(2) by (rule refs_ok_cong) (auto simp: Some)
  obtain t2 where t2: "decref c t1 = Some t2" "refs_ok others t2" "dead t2 = dead t1"
    using decref_Some_ok [OF r1 assms(2)] by blast
  have "refno t2 c = None" if "others c = 0"
  proof -
    have "refno t1 c = Some 1"
      using refs_okD(3) [OF t1(2) pos] that Some by simp
    then have "t2 = t1\<lparr>refno := (refno t1)(c := None)\<rparr>"
      using t2(1) decref_last [of t1 c] t1(3) by simp
    then show ?thesis
      by simp
  qed
  then show ?thesis
    using Some t1(1,3) t2 by (simp add: rpcc_destroy_def)
qed

theorem client_destroyed_witness:
  "\<exists>t'. rpcc_destroy 0 (Some 1) \<lparr>refno = (\<lambda>_. None)(1 \<mapsto> 1), dead = (\<lambda>_. False), sent = []\<rparr> = Some t' \<and>
    refs_ok (\<lambda>_. 0) t' \<and> (\<forall>c. Some 1 = Some c \<longrightarrow> dead t' c \<and> ((0 :: int) = 0 \<longrightarrow> refno t' c = None))"
  by (rule client_destroyed) (simp_all add: refs_ok_def)

end
