(* ===== verification/Rpc_Test.thy ===== *)
theory Rpc_Test
  imports Lock_Client Call_Loop
begin

text \<open>
  The test program \<open>rpc/rpctest.cc\<close>: its server with four procedures, the test of the wire
  format, the calls of \<open>simple_tests\<close>, and the loops of the client threads, one call after the
  other over the loopback of \<open>Rpc_Loopback\<close>. An assertion that fails is \<open>None\<close>; the theorems
  at the end show that none does, on the code as it is modelled. The last call of \<open>simple_tests\<close>,
  which nobody answers, goes through the loop of \<open>call1\<close> with its deadlines. What \<open>random()\<close> returns
  is an argument, \<open>rnd i\<close> for the call number \<open>i\<close>, and so is what the clock shows. The memory
  statistics are left out.
\<close>

section \<open>The server\<close>

text \<open>The bytes of a literal, and a sum of two \<open>int\<close>s, which is undefined when it overflows.\<close>

definition ascii :: "string \<Rightarrow> u8 list" where
  "ascii s = map of_char s"

definition int_plus :: "u32 \<Rightarrow> int \<Rightarrow> u32 option" where
  "int_plus a k = (if fits_int (sint a + k) then Some (word_of_int (sint a + k)) else None)"

definition handle_22 :: "u8 list \<Rightarrow> u8 list \<Rightarrow> u8 list \<Rightarrow> unit \<Rightarrow> (u32 \<times> u8 list \<times> unit) option" where
  "handle_22 a b r s = Some (0, a @ b, s)"

definition handle_fast :: "u32 \<Rightarrow> u32 \<Rightarrow> unit \<Rightarrow> (u32 \<times> u32 \<times> unit) option" where
  "handle_fast a r s = do { r \<leftarrow> int_plus a 1; Some (0, r, s) }"

definition handle_slow :: "u32 \<Rightarrow> u32 \<Rightarrow> unit \<Rightarrow> (u32 \<times> u32 \<times> unit) option" where
  "handle_slow a r s = do { r \<leftarrow> int_plus a 2; Some (0, r, s) }"

text \<open>A negative length becomes a huge \<open>size_t\<close>, and the constructor of the string throws.\<close>

definition handle_bigrep :: "u32 \<Rightarrow> u8 list \<Rightarrow> unit \<Rightarrow> (u32 \<times> u8 list \<times> unit) option" where
  "handle_bigrep len r s =
     (if sint len < 0 then None else Some (0, replicate (nat (sint len)) (of_char CHR ''x''), s))"

definition handler_22 :: "unit handler" where
  "handler_22 = handler2 (get_string []) (get_string []) put_string [] handle_22"

definition startserver :: "u32 \<Rightarrow> u32 \<Rightarrow> int \<Rightarrow> conn_table \<Rightarrow> unit rpc_server option" where
  "startserver nonce r0 count net = do {
     s \<leftarrow> new_rpc_server nonce r0 count net ();
     s \<leftarrow> reg1 22 handler_22 s;
     s \<leftarrow> reg1 23 (handler1 get_int put_int r0 handle_fast) s;
     s \<leftarrow> reg1 24 (handler1 get_int put_int r0 handle_slow) s;
     reg1 25 (handler1 get_int put_string [] handle_bigrep) s
   }"

section \<open>The wire format\<close>

definition assertion :: "bool \<Rightarrow> unit option" where
  "assertion b = (if b then Some () else None)"

text \<open>\<open>g\<close> is the memory the message is built in, \<open>i0\<close> and \<open>l0\<close> the uninitialised variables.\<close>

definition testmarshall :: "(nat \<Rightarrow> u8) \<Rightarrow> unit option" where
  "testmarshall g = do {
     let rh = \<lparr>rq_xid = 1, rq_proc = 2, rq_clt_nonce = 3, rq_srv_nonce = 4, rq_xid_rep = 5\<rparr>;
     m \<leftarrow> pack_req_header rh (new_marshall g);
     assertion (m_ind m = RPC_HEADER_SZ);
     let i = 12345;
     let l = 1223344455;
     let s = ascii ''hallo....'';
     m \<leftarrow> put_int i m;
     m \<leftarrow> put_u64 l m;
     m \<leftarrow> put_string s m;
     let ((b, sz), m) = m_take_buf m;
     assertion (sz = RPC_HEADER_SZ + 4 + 8 + int (length s) + 4);
     b \<leftarrow> b;
     let un = new_unmarshall b sz;
     (rh1, un) \<leftarrow> unpack_req_header un;
     assertion (rh = rh1);
     (i1, un) \<leftarrow> get_int un;
     (l1, un) \<leftarrow> get_u64 un;
     (s1, un) \<leftarrow> get_string [] un;
     assertion (u_okdone un);
     assertion (i1 = i \<and> l1 = l \<and> s1 = s)
   }"

section \<open>The calls of the client\<close>

text \<open>
  \<open>rep\<close> and \<open>wrongrep\<close> are the variables of the results; \<open>j\<close> is what \<open>wrongrep\<close> holds before it
  is set.
\<close>

definition simple_calls :: "'w net \<Rightarrow> (nat \<Rightarrow> u8) \<Rightarrow> u32 \<Rightarrow> 'w \<Rightarrow> 'w option" where
  "simple_calls net g j w = do {
     (intret, rep, w) \<leftarrow>
       call_2 net g put_string put_string get_string 22 (ascii ''hello'') (ascii '' goodbye'') [] w;
     assertion (intret = 0);
     assertion (rep = ascii ''hello goodbye'');
     (intret, rep, w) \<leftarrow> call_1 net g put_int get_string 25 70000 rep w;
     assertion (intret = 0);
     assertion (length rep = 70000);
     (intret, rep, w) \<leftarrow> call_1 net g put_string get_string 22 (ascii ''just one'') rep w;
     assertion (sint intret < 0);
     (intret, rep, w) \<leftarrow> call_2 net g put_int put_int get_string 23 1001 1002 rep w;
     assertion (sint intret < 0);
     (intret, wrongrep, w) \<leftarrow>
       call_2 net g put_string put_string (\<lambda>_. get_int) 23 (ascii ''hello'') (ascii '' goodbye'') j w;
     assertion (sint intret < 0);
     (intret, xx, w) \<leftarrow> call_1 net g put_int (\<lambda>_. get_int) 23 77 0 w;
     assertion (intret = 0 \<and> xx = 78);
     (_, rep1, w) \<leftarrow> call_2 net g put_string put_string get_string 22
       (replicate 1000 (of_char CHR ''x'')) (ascii ''x'') [] w;
     assertion (length rep1 = 1001);
     (intret, rep, w) \<leftarrow> call_2 net g put_string put_string get_string 22
       (replicate 1000000 (of_char CHR ''x'')) (ascii ''z'') rep w;
     assertion (length rep = 1000001);
     Some w
   }"

text \<open>
  The end of \<open>simple_tests\<close>: a new client, with the nonce \<open>rnd\<close>, binds to a port nobody listens on, with
  a timeout of three seconds. \<open>t0\<close> and \<open>t1\<close> are what the clock shows at the two calls of \<open>time\<close>, \<open>now\<close>
  what it shows when \<open>call1\<close> starts, and \<open>es\<close> what happens in the turns of its loop. A call that never
  returns is \<open>None\<close>. The call fails, so \<open>bind\<close> does nothing with its result.
\<close>

definition no_conns :: conn_table where
  "no_conns = \<lparr>refno = (\<lambda>_. None), dead = (\<lambda>_. False), sent = []\<rparr>"

definition timeout_test :: "(nat \<Rightarrow> u8) \<Rightarrow> u32 \<Rightarrow> timespec \<Rightarrow> timespec \<Rightarrow> turn_env list \<Rightarrow> timespec \<Rightarrow> unit option"
where
  "timeout_test g rnd t0 now es t1 = do {
     req \<leftarrow> put_int 0 (new_marshall g);
     (r, c1) \<leftarrow> call1_begin 0 rpc_bind req (new_rpcc True rnd);
     (case r of
        Inl intret \<Rightarrow> assertion (sint intret < 0 \<and> tv_sec t1 - tv_sec t0 \<le> 4)
      | Inr (xid, req) \<Rightarrow> do {
          l \<leftarrow> loop_start 3000 now None no_conns;
          (go, l) \<leftarrow> loop_run True (m_bytes req) es l;
          (if go = Leaves then do {
             (intret, rep, c1) \<leftarrow> call1_end xid c1;
             t \<leftarrow> call_release l;
             assertion (sint intret < 0 \<and> tv_sec t1 - tv_sec t0 \<le> 4)
           }
           else None)
        })
   }"

definition simple_tests :: "'w net \<Rightarrow> (nat \<Rightarrow> u8) \<Rightarrow> u32 \<Rightarrow> u32 \<Rightarrow> timespec \<Rightarrow> timespec \<Rightarrow> turn_env list \<Rightarrow> timespec
    \<Rightarrow> 'w \<Rightarrow> 'w option" where
  "simple_tests net g j rnd t0 now es t1 w = do {
     w \<leftarrow> simple_calls net g j w;
     timeout_test g rnd t0 now es t1;
     Some w
   }"

text \<open>The rounds of the loops. A call gives up with \<open>timeout_failure\<close>, and sets no result then.\<close>

fun rounds :: "('a \<Rightarrow> 'w \<Rightarrow> 'w option) \<Rightarrow> 'a list \<Rightarrow> 'w \<Rightarrow> 'w option" where
  "rounds f [] w = Some w"
| "rounds f (x # xs) w = do { w \<leftarrow> f x w; rounds f xs w }"

definition bigrep_round :: "'w net \<Rightarrow> (nat \<Rightarrow> u8) \<Rightarrow> u32 \<Rightarrow> 'w \<Rightarrow> 'w option" where
  "bigrep_round net g arg w = do {
     (ret, rep, w) \<leftarrow> call_1 net g put_int get_string 25 arg [] w;
     assertion (ret = 0);
     assertion (word_of_nat (length rep) = arg);
     Some w
   }"

definition order_round :: "'w net \<Rightarrow> (nat \<Rightarrow> u8) \<Rightarrow> u32 \<Rightarrow> bool \<times> u32 \<Rightarrow> 'w \<Rightarrow> 'w option" where
  "order_round net g j = (\<lambda>(which, arg) w. do {
     (ret, rep, w) \<leftarrow> call_1 net g put_int (\<lambda>_. get_int) (if which then 23 else 24) arg j w;
     assertion (ret = 0);
     assertion (rep = (if which then arg + 1 else arg + 2));
     Some w
   })"

definition client1 :: "'w net \<Rightarrow> (nat \<Rightarrow> u8) \<Rightarrow> u32 \<Rightarrow> (nat \<Rightarrow> nat) \<Rightarrow> 'w \<Rightarrow> 'w option" where
  "client1 net g j rnd w = do {
     w \<leftarrow> rounds (bigrep_round net g) (map (\<lambda>i. word_of_nat (rnd i mod 2000)) [0..<100]) w;
     rounds (order_round net g j)
       (map (\<lambda>i. (rnd (100 + 2 * i) mod 2 \<noteq> 0, word_of_nat (rnd (101 + 2 * i) mod 1000))) [0..<100]) w
   }"

text \<open>\<open>client2\<close> goes on until ten seconds have passed: \<open>n\<close> rounds, whatever the clock says.\<close>

definition lossy_round :: "'w net \<Rightarrow> (nat \<Rightarrow> u8) \<Rightarrow> u32 \<Rightarrow> 'w \<Rightarrow> 'w option" where
  "lossy_round net g arg w = do {
     (ret, rep, w) \<leftarrow> call_1 net g put_int get_string 25 arg [] w;
     assertion (word_of_nat (length rep) = arg);
     Some w
   }"

definition client2 :: "'w net \<Rightarrow> (nat \<Rightarrow> u8) \<Rightarrow> (nat \<Rightarrow> nat) \<Rightarrow> nat \<Rightarrow> 'w \<Rightarrow> 'w option" where
  "client2 net g rnd n w = rounds (lossy_round net g) (map (\<lambda>i. word_of_nat (rnd i mod 2000)) [0..<n]) w"

definition client3_round :: "'w net \<Rightarrow> (nat \<Rightarrow> u8) \<Rightarrow> u32 \<Rightarrow> u32 \<Rightarrow> 'w \<Rightarrow> 'w option" where
  "client3_round net g j i w = do {
     (ret, rep, w) \<leftarrow> call_1 net g put_int (\<lambda>_. get_int) 24 i j w;
     assertion (ret = timeout_failure \<or> rep = i + 2);
     Some w
   }"

definition client3 :: "'w net \<Rightarrow> (nat \<Rightarrow> u8) \<Rightarrow> u32 \<Rightarrow> 'w \<Rightarrow> 'w option" where
  "client3 net g j w = rounds (client3_round net g j) (map word_of_nat [0..<4]) w"

text \<open>Five times a hundred calls.\<close>

definition client4 :: "'w net \<Rightarrow> (nat \<Rightarrow> u8) \<Rightarrow> (nat \<Rightarrow> nat) \<Rightarrow> 'w \<Rightarrow> 'w option" where
  "client4 net g rnd w = rounds (bigrep_round net g)
     (concat (map (\<lambda>j. map (\<lambda>i. 250000 + word_of_nat (rnd (100 * j + i) mod 2000)) [0..<100]) [0..<5])) w"

text \<open>
  Two parts of \<open>failure_test\<close>: a call of a client whose server has been replaced, and a new
  client of the new server, which calls \<open>bind\<close> twice. \<open>r\<close> is what the result of \<open>bind\<close> holds
  before the call.
\<close>

definition recovered_server_test :: "'w net \<Rightarrow> (nat \<Rightarrow> u8) \<Rightarrow> 'w \<Rightarrow> 'w option" where
  "recovered_server_test net g w = do {
     (intret, rep, w) \<leftarrow>
       call_2 net g put_string put_string get_string 22 (ascii ''hello'') (ascii '' goodbye'') [] w;
     assertion (intret = oldsrv_failure);
     Some w
   }"

definition replaced_client_test :: "conn \<Rightarrow> (nat \<Rightarrow> u8) \<Rightarrow> u32 \<Rightarrow> u8 list \<Rightarrow> 's loop \<Rightarrow> 's loop option" where
  "replaced_client_test c g r rep w = do {
     (ret, w) \<leftarrow> client_bind c g r w;
     assertion (0 \<le> sint ret);
     (ret, w) \<leftarrow> client_bind c g r w;
     assertion (sint ret < 0);
     (intret, rep, w) \<leftarrow> call_2 (loop_call1 c) g put_string put_string get_string 22
       (ascii ''hello'') (ascii '' goodbye'') rep w;
     assertion (intret = 0);
     assertion (rep = ascii ''hello goodbye'');
     Some w
   }"

section \<open>The calls over the loopback\<close>

definition test_procs :: "u32 \<Rightarrow> u32 \<Rightarrow> u32 \<rightharpoonup> unit handler" where
  "test_procs nonce r0 = [rpc_bind \<mapsto> handler1 get_int put_int r0 (rpcbind nonce),
     22 \<mapsto> handler_22, 23 \<mapsto> handler1 get_int put_int r0 handle_fast,
     24 \<mapsto> handler1 get_int put_int r0 handle_slow, 25 \<mapsto> handler1 get_int put_string [] handle_bigrep]"

lemma startserver_eq:
  "startserver nonce r0 count net = Some \<lparr>rs_nonce = nonce, rs_procs = test_procs nonce r0,
     rs_replies = empty_replies, rs_conns = (\<lambda>_. None), rs_counting = count, rs_curr_counts = count,
     rs_counts = (\<lambda>_. 0), rs_net = net, rs_app = ()\<rparr>"
  by (simp add: startserver_def new_rpc_server_def reg1_def test_procs_def rpc_bind_def)

lemma test_procs_simps [simp]:
  "test_procs nonce r0 22
     = Some (handler1 (get_pair (get_string []) (get_string [])) put_string [] (\<lambda>(a, b). handle_22 a b))"
  "test_procs nonce r0 23 = Some (handler1 get_int put_int r0 handle_fast)"
  "test_procs nonce r0 24 = Some (handler1 get_int put_int r0 handle_slow)"
  "test_procs nonce r0 25 = Some (handler1 get_int put_string [] handle_bigrep)"
  by (simp_all add: test_procs_def rpc_bind_def handler_22_def handler_tuples)

lemma test_procs_any:
  "\<exists>v. test_procs nonce r0 22
     = Some (handler1 (get_pair (get_string []) (get_string [])) put_string v (\<lambda>(a, b). handle_22 a b))"
  "\<exists>v. test_procs nonce r0 23 = Some (handler1 get_int put_int v handle_fast)"
  "\<exists>v. test_procs nonce r0 24 = Some (handler1 get_int put_int v handle_slow)"
  "\<exists>v. test_procs nonce r0 25 = Some (handler1 get_int put_string v handle_bigrep)"
  by (rule exI, rule test_procs_simps)+

text \<open>A bound client with \<open>k\<close> calls left, whose server is that of the test program.\<close>

definition test_session :: "conn \<Rightarrow> nat \<Rightarrow> unit loop \<Rightarrow> bool" where
  "test_session c k w \<longleftrightarrow> loop_ready c k w \<and> cl_bind_done (lb_client w) \<and>
     (\<exists>nonce r0. rs_procs (lb_server w) = test_procs nonce r0)"

lemma test_sessionE:
  assumes "test_session c k w" "proc \<noteq> rpc_bind"
  obtains nonce r0 where "loop_ready c k w" "loop_allowed w proc" "rs_procs (lb_server w) = test_procs nonce r0"
  using assms by (auto simp: test_session_def loop_allowed_def)

lemma test_session_next:
  assumes "test_session c k w" "loop_ready c k' w'" "rs_procs (lb_server w') = rs_procs (lb_server w)"
    and "loop_fixed w' = loop_fixed w"
  shows "test_session c k' w'"
  using assms by (auto simp: test_session_def loop_fixed_def)

text \<open>Every procedure of the server, called with its arguments, and with others.\<close>

lemma test_call_runs:
  assumes "test_session c (Suc k) w" "proc \<noteq> rpc_bind"
    and "\<And>nonce r0. \<exists>v. test_procs nonce r0 proc = Some (handler1 get_a put_r v meth)"
    and "\<And>v. meth a v () = Some (b, r, ())"
    and "emits (put_a a) ea" "reads get_a a ea" "24 + int (length ea) \<le> msg_limit" "ea \<noteq> []"
    and "emits (put_r r) er" "reads (get_r old) r er" "24 + int (length er) \<le> msg_limit" "er \<noteq> []"
    and "0 \<le> sint b"
  shows "\<exists>w'. call_1 (loop_call1 c) g put_a get_r proc a old w = Some (b, r, w') \<and> test_session c k w'"
proof -
  obtain nonce r0 where ready: "loop_ready c (Suc k) w" "loop_allowed w proc"
      and procs: "rs_procs (lb_server w) = test_procs nonce r0"
    by (rule test_sessionE [OF assms(1,2)])
  obtain v where f: "rs_procs (lb_server w) proc = Some (handler1 get_a put_r v meth)"
    using procs assms(3) by metis
  have m: "meth a v (rs_app (lb_server w)) = Some (b, r, ())"
    using assms(4) by simp
  have "\<exists>w'. call_1 (loop_call1 c) g put_a get_r proc a old w = Some (b, r, w') \<and>
      rs_app (lb_server w') = () \<and> rs_procs (lb_server w') = rs_procs (lb_server w) \<and>
      loop_ready c k w' \<and> loop_fixed w' = loop_fixed w"
    by (rule lo.typed_call [OF ready f m]) (rule assms(5-13))+
  then show ?thesis
    using test_session_next [OF assms(1)] by blast
qed

lemma test_call_refused:
  assumes "test_session c (Suc k) w" "proc \<noteq> rpc_bind"
    and "\<And>nonce r0. \<exists>v. test_procs nonce r0 proc = Some (handler1 get_a put_r v meth)"
    and "emits (put_x x) ex" "24 + int (length ex) \<le> msg_limit"
    and "\<And>u. wf_unmarshall u \<Longrightarrow> u_ok u \<Longrightarrow> u_rest u = ex \<Longrightarrow>
      \<exists>a u'. get_a u = Some (a, u') \<and> \<not> u_okdone u'"
  shows "\<exists>w'. call_1 (loop_call1 c) g put_x get_r proc x old w = Some (unmarshal_args_failure, old, w') \<and>
    test_session c k w'"
proof -
  obtain nonce r0 where ready: "loop_ready c (Suc k) w" "loop_allowed w proc"
      and procs: "rs_procs (lb_server w) = test_procs nonce r0"
    by (rule test_sessionE [OF assms(1,2)])
  obtain v where f: "rs_procs (lb_server w) proc = Some (handler1 get_a put_r v meth)"
    using procs assms(3) by metis
  have "\<exists>w'. call_1 (loop_call1 c) g put_x get_r proc x old w = Some (unmarshal_args_failure, old, w') \<and>
      rs_app (lb_server w') = rs_app (lb_server w) \<and> rs_procs (lb_server w') = rs_procs (lb_server w) \<and>
      loop_ready c k w' \<and> loop_fixed w' = loop_fixed w"
    by (rule lo.mismatched_call [OF ready f]) (rule assms(4-6) | assumption)+
  then show ?thesis
    using test_session_next [OF assms(1)] by blast
qed

text \<open>Bytes that are left when the arguments have been read, and bytes that are missing.\<close>

lemma left_over:
  assumes "reads get x bs" "wf_unmarshall u" "u_ok u" "u_rest u = bs @ r" "r \<noteq> []"
  shows "\<exists>x u'. get u = Some (x, u') \<and> \<not> u_okdone u'"
proof -
  have "get u = Some (x, u_skip (length bs) u)"
    using assms(1-4) by (simp add: reads_def)
  moreover have "u_ind u + int (length bs) < u_sz u"
    using u_rest_bound [OF assms(2)] assms(4,5) by (cases r) simp_all
  ultimately show ?thesis
    by (simp add: u_okdone_def)
qed

lemma string_missing:
  assumes "reads get x bs" "wf_unmarshall u" "u_ok u" "u_rest u = bs" "bs \<noteq> []"
  shows "\<exists>x u'. get_pair get (get_string s) u = Some (x, u') \<and> \<not> u_okdone u'"
proof -
  let ?v = "u_skip (length bs) u"
  have v: "get u = Some (x, ?v)" "wf_unmarshall ?v"
    using assms(1-4) u_rest_skip [OF assms(2), of bs "[]"] by (simp_all add: reads_def)
  have "u_ind ?v = u_sz ?v"
    using u_rest_bound [OF assms(2)] assms(4,5) by simp
  moreover obtain n u' where "get_u32 ?v = Some (n, u')"
      "u_ok u' \<longleftrightarrow> u_ok ?v \<and> ((4::nat) = 0 \<or> u_ind ?v + int 4 \<le> u_sz ?v)"
    using advances_get_u32 v(2) unfolding advances_def wf_unmarshall_def by blast
  ultimately show ?thesis
    using v(1) by (simp add: get_pair_def get_string_def u_okdone_def)
qed

lemma typed_string:
  assumes "length s \<le> 2 ^ 29"
  shows "emits (put_string s) (str_bytes s)" "reads (get_string s0) s (str_bytes s)"
    "24 + int (length (str_bytes s)) \<le> msg_limit" "str_bytes s \<noteq> []"
proof -
  show "emits (put_string s) (str_bytes s)"
    by (rule emits_put_string)
  show "reads (get_string s0) s (str_bytes s)"
    by (rule reads_get_string) (use assms in simp)
  show "24 + int (length (str_bytes s)) \<le> msg_limit" "str_bytes s \<noteq> []"
    using assms by (simp_all add: msg_limit_def str_bytes_def be32_def)
qed

lemma typed_strings:
  assumes "length a + length b \<le> 2 ^ 28"
  shows "emits (put_pair put_string put_string (a, b)) (str_bytes a @ str_bytes b)"
    "reads (get_pair (get_string []) (get_string [])) (a, b) (str_bytes a @ str_bytes b)"
    "24 + int (length (str_bytes a @ str_bytes b)) \<le> msg_limit" "str_bytes a @ str_bytes b \<noteq> []"
proof -
  show "emits (put_pair put_string put_string (a, b)) (str_bytes a @ str_bytes b)"
    by (rule emits_pair) (simp_all add: emits_put_string)
  show "reads (get_pair (get_string []) (get_string [])) (a, b) (str_bytes a @ str_bytes b)"
    by (rule reads_pair; rule reads_get_string) (use assms in simp_all)
  show "24 + int (length (str_bytes a @ str_bytes b)) \<le> msg_limit" "str_bytes a @ str_bytes b \<noteq> []"
    using assms by (simp_all add: msg_limit_def str_bytes_def be32_def)
qed

lemma concat_call:
  assumes "test_session c (Suc k) w" "length a + length b \<le> 2 ^ 28"
  shows "\<exists>w'. call_2 (loop_call1 c) g put_string put_string get_string 22 a b old w = Some (0, a @ b, w') \<and>
    test_session c k w'"
proof -
  have len: "length (a @ b) \<le> 2 ^ 29"
    using assms(2) by simp
  show ?thesis
    unfolding call_tuples
    by (rule test_call_runs [OF assms(1)])
      (rule test_procs_any typed_strings [OF assms(2)] typed_string [OF len] | simp add: rpc_bind_def handle_22_def)+
qed

lemma bigrep_call:
  assumes "test_session c (Suc k) w" "n \<le> 2 ^ 29"
  shows "\<exists>rep w'. call_1 (loop_call1 c) g put_int get_string 25 (word_of_nat n) old w = Some (0, rep, w') \<and>
    length rep = n \<and> test_session c k w'"
proof -
  have n: "sint (word_of_nat n :: u32) = int n"
    using assms(2) sint_word_of_int_fits [of "int n"] by (simp add: fits_int_def int_max_def)
  let ?s = "replicate n (of_char CHR ''x'') :: u8 list"
  have len: "length ?s \<le> 2 ^ 29"
    using assms(2) by simp
  have "\<exists>w'. call_1 (loop_call1 c) g put_int get_string 25 (word_of_nat n) old w = Some (0, ?s, w') \<and>
      test_session c k w'"
    by (rule test_call_runs [OF assms(1)])
      (rule test_procs_any typed_int small_message(1,3) typed_string [OF len] | simp add: rpc_bind_def handle_bigrep_def n)+
  then show ?thesis
    by auto
qed

lemma int_plus_small: "fits_int (sint a + k) \<Longrightarrow> int_plus a k = Some (a + word_of_int k)"
  by (simp add: int_plus_def flip: wi_hom_add)

lemma fast_call:
  assumes "test_session c (Suc k) w" "fits_int (sint a + 1)"
  shows "\<exists>w'. call_1 (loop_call1 c) g put_int (\<lambda>_. get_int) 23 a old w = Some (0, a + 1, w') \<and>
    test_session c k w'"
  by (rule test_call_runs [OF assms(1)])
    (rule test_procs_any typed_int small_message(1,3) | simp add: rpc_bind_def handle_fast_def int_plus_small [OF assms(2)])+

lemma slow_call:
  assumes "test_session c (Suc k) w" "fits_int (sint a + 2)"
  shows "\<exists>w'. call_1 (loop_call1 c) g put_int (\<lambda>_. get_int) 24 a old w = Some (0, a + 2, w') \<and>
    test_session c k w'"
  by (rule test_call_runs [OF assms(1)])
    (rule test_procs_any typed_int small_message(1,3) | simp add: rpc_bind_def handle_slow_def int_plus_small [OF assms(2)])+

lemma one_string_refused:
  assumes "test_session c (Suc k) w" "length s \<le> 2 ^ 29"
  shows "\<exists>w'. call_1 (loop_call1 c) g put_string get_r 22 s old w = Some (unmarshal_args_failure, old, w') \<and>
    test_session c k w'"
  by (rule test_call_refused [OF assms(1)])
    (rule test_procs_any typed_string(1,3,4) [OF assms(2)] string_missing [OF typed_string(2) [OF assms(2), of "[]"]]
      | assumption | simp add: rpc_bind_def)+

lemma two_ints_refused:
  assumes "test_session c (Suc k) w"
  shows "\<exists>w'. call_2 (loop_call1 c) g put_int put_int get_r 23 a b old w = Some (unmarshal_args_failure, old, w') \<and>
    test_session c k w'"
proof -
  have emits: "emits (put_pair put_int put_int (a, b)) (be32 a @ be32 b)"
    by (rule emits_pair) (simp_all add: typed_int)
  show ?thesis
    unfolding call_tuples
    by (rule test_call_refused [OF assms])
      (rule test_procs_any emits left_over [OF typed_int(2)] small_message(3) | assumption | simp add: rpc_bind_def msg_limit_def)+
qed

lemma two_strings_refused:
  assumes "test_session c (Suc k) w" "length a + length b \<le> 2 ^ 28"
  shows "\<exists>w'. call_2 (loop_call1 c) g put_string put_string get_r 23 a b old w
      = Some (unmarshal_args_failure, old, w') \<and> test_session c k w'"
proof -
  have bytes: "str_bytes a @ str_bytes b = be32 (word_of_nat (length a)) @ a @ str_bytes b"
    by (simp add: str_bytes_def)
  have ne: "a @ str_bytes b \<noteq> []"
    by (simp add: str_bytes_def be32_def)
  show ?thesis
    unfolding call_tuples
    by (rule test_call_refused [OF assms(1)])
      (rule test_procs_any typed_strings(1,3) [OF assms(2)] left_over [OF typed_int(2) _ _ _ ne]
        | assumption | simp add: rpc_bind_def bytes)+
qed

lemma header_packed:
  obtains m where "pack_req_header h (new_marshall g) = Some m" "wf_marshall m"
    "m_bytes m = overwrite (m_bytes (new_marshall g)) 4 (enc_req_header h)" "m_ind m = 24"
proof -
  obtain b where b: "m_buf (new_marshall g) = Some b" "int (length b) = m_capa (new_marshall g)"
      "DEFAULT_RPC_SZ \<le> m_capa (new_marshall g)"
    using wf_new_marshall [of g] by (auto simp: wf_marshall_def wf_buf_def)
  have "length (enc_req_header h) \<le> 20"
    by simp
  from that [OF pack_req_header_eq [OF b] wf_header_update [OF wf_new_marshall b(1) this]] show thesis
    by (simp add: new_marshall_ind)
qed

text \<open>A loop whose rounds make one call each needs as many calls as it has rounds.\<close>

lemma rounds_run:
  assumes "test_session c (k + length xs) w"
    and "\<And>x k w. x \<in> set xs \<Longrightarrow> test_session c (Suc k) w \<Longrightarrow> \<exists>w'. f x w = Some w' \<and> test_session c k w'"
  shows "\<exists>w'. rounds f xs w = Some w' \<and> test_session c k w'"
  using assms
proof (induction xs arbitrary: w)
  case (Cons x xs)
  obtain w1 where "f x w = Some w1" "test_session c (k + length xs) w1"
    using Cons.prems(2) [of x "k + length xs" w] Cons.prems(1) by auto
  moreover obtain w2 where "rounds f xs w1 = Some w2" "test_session c k w2"
    using Cons.IH [OF calculation(2)] Cons.prems(2) by auto
  ultimately show ?case
    by simp
qed simp

lemma assertion_simps [simp]: "assertion True = Some ()" "assertion False = None"
  by (simp_all add: assertion_def)

lemma bigrep_round_runs:
  assumes "test_session c (Suc k) w" "n \<le> 2 ^ 29"
  shows "\<exists>w'. bigrep_round (loop_call1 c) g (word_of_nat n) w = Some w' \<and> test_session c k w'"
    "\<exists>w'. lossy_round (loop_call1 c) g (word_of_nat n) w = Some w' \<and> test_session c k w'"
  using bigrep_call [OF assms, of g "[]"] by (auto simp: bigrep_round_def lossy_round_def)

lemma small_sint: "n < 2 ^ 30 \<Longrightarrow> fits_int (sint (word_of_nat n :: u32) + 2)"
    "n < 2 ^ 30 \<Longrightarrow> fits_int (sint (word_of_nat n :: u32) + 1)"
  using sint_word_of_int_fits [of "int n"] by (simp_all add: fits_int_def int_max_def)

lemma order_round_runs:
  assumes "test_session c (Suc k) w" "n < 2 ^ 30"
  shows "\<exists>w'. order_round (loop_call1 c) g j (b, word_of_nat n) w = Some w' \<and> test_session c k w'"
  using fast_call [OF assms(1) small_sint(2) [OF assms(2)], of g j]
    slow_call [OF assms(1) small_sint(1) [OF assms(2)], of g j]
  by (cases b) (auto simp: order_round_def)

lemma client3_round_runs:
  assumes "test_session c (Suc k) w" "n < 2 ^ 30"
  shows "\<exists>w'. client3_round (loop_call1 c) g j (word_of_nat n) w = Some w' \<and> test_session c k w'"
  using slow_call [OF assms(1) small_sint(1) [OF assms(2)], of g j] by (auto simp: client3_round_def)

lemma client1_runs:
  assumes "test_session c (200 + k) w"
  shows "\<exists>w'. client1 (loop_call1 c) g j rnd w = Some w' \<and> test_session c k w'"
proof -
  have less: "m mod 2000 \<le> 2 ^ 29" "m mod 1000 < 2 ^ 30" for m :: nat
    using mod_less_divisor [of 2000 m] mod_less_divisor [of 1000 m] by simp_all
  let ?args = "map (\<lambda>i. word_of_nat (rnd i mod 2000)) [0..<100] :: u32 list"
  have "\<exists>w1. rounds (bigrep_round (loop_call1 c) g) ?args w = Some w1 \<and> test_session c (k + 100) w1"
    by (rule rounds_run) (use assms bigrep_round_runs(1) [OF _ less(1)] in auto)
  then obtain w1 where w1: "rounds (bigrep_round (loop_call1 c) g) ?args w = Some w1"
      "test_session c (k + 100) w1"
    by blast
  have "\<exists>w2. rounds (order_round (loop_call1 c) g j)
       (map (\<lambda>i. (rnd (100 + 2 * i) mod 2 \<noteq> 0, word_of_nat (rnd (101 + 2 * i) mod 1000))) [0..<100]) w1 = Some w2
      \<and> test_session c k w2"
    by (rule rounds_run) (use w1(2) order_round_runs [OF _ less(2)] in auto)
  with w1(1) show ?thesis
    by (simp only: client1_def bind.bind_lunit)
qed

lemma client2_runs:
  assumes "test_session c (k + n) w"
  shows "\<exists>w'. client2 (loop_call1 c) g rnd n w = Some w' \<and> test_session c k w'"
proof -
  have less: "m mod 2000 \<le> 2 ^ 29" for m :: nat
    using mod_less_divisor [of 2000 m] by simp
  show ?thesis
    unfolding client2_def
    by (rule rounds_run) (use assms bigrep_round_runs(2) [OF _ less] in auto)
qed

lemma client3_runs:
  assumes "test_session c (4 + k) w"
  shows "\<exists>w'. client3 (loop_call1 c) g j w = Some w' \<and> test_session c k w'"
  unfolding client3_def
  by (rule rounds_run) (use assms client3_round_runs in \<open>auto simp: add.commute\<close>)

lemma client4_runs:
  assumes "test_session c (k + 500) w"
  shows "\<exists>w'. client4 (loop_call1 c) g rnd w = Some w' \<and> test_session c k w'"
proof -
  have less: "250000 + m mod 2000 \<le> 2 ^ 29" for m :: nat
    using mod_less_divisor [of 2000 m] by simp
  have arg: "250000 + word_of_nat (m mod 2000) = (word_of_nat (250000 + m mod 2000) :: u32)" for m
    by simp
  have len: "length (concat (map (\<lambda>j. map (\<lambda>i. 250000 + word_of_nat (rnd (100 * j + i) mod 2000)) [0..<100]) [0..<5])
      :: u32 list) = 500"
    by (simp add: length_concat comp_def sum_list_triv)
  show ?thesis
    unfolding client4_def
  proof (rule rounds_run)
    fix x :: u32 and k w
    assume x: "x \<in> set (concat (map (\<lambda>j. map (\<lambda>i. 250000 + word_of_nat (rnd (100 * j + i) mod 2000)) [0..<100]) [0..<5]))"
      and s: "test_session c (Suc k) w"
    obtain m where "x = word_of_nat (250000 + m mod 2000)"
      using x by auto
    then show "\<exists>w'. bigrep_round (loop_call1 c) g x w = Some w' \<and> test_session c k w'"
      using bigrep_round_runs(1) [OF s less [of m]] by blast
  qed (simp only: len assms)
qed

section \<open>A server that has been replaced\<close>

text \<open>
  All that a request that names another instance leaves at the server: the answer \<open>msg\<close> was sent, and
  the reference of its job is kept.
\<close>

definition after_refusal :: "conn \<Rightarrow> u8 list \<Rightarrow> 's rpc_server \<Rightarrow> 's rpc_server" where
  "after_refusal c msg s = s\<lparr>rs_net := (rs_net s)\<lparr>
     refno := (refno (rs_net s))(c := map_option (\<lambda>n. n + 1) (refno (rs_net s) c)),
     sent := sent (rs_net s) @ [(c, msg)]\<rparr>\<rparr>"

lemma after_refusal_same: "same_but_net s (after_refusal c msg s)"
  unfolding same_but_net_def after_refusal_def by (intro exI conjI, rule refl) simp

lemma after_refusalI:
  assumes "on_net (incref c) s = Some sv" "on_net (conn_send c b) sv = Some s'" "\<not> dead (rs_net s) c"
  shows "s' = after_refusal c (framed b) s"
  using assms by (auto simp: on_net_def incref_def conn_send_def after_refusal_def split: option.splits)

text \<open>The answer to a request that names another instance of the server.\<close>

lemma old_server_exchange:
  assumes refs: "refs_inv (listener_ref c) s" and alive: "\<not> dead (rs_net s) c"
    and args: "24 + int (length args) \<le> msg_limit" "length buf = 24 + length args"
      "take 20 (drop 4 buf) = enc_req_header h" "drop 24 buf = args"
    and h: "rq_srv_nonce h \<noteq> 0" "rq_srv_nonce h \<noteq> rs_nonce s"
  shows "\<exists>sv sv' msg. rpcs_got_pdu True c s = Some (True, sv) \<and> dispatch g a c buf sv = Some sv' \<and>
    drop (length (sent (rs_net sv))) (sent (rs_net sv')) = [(c, msg)] \<and> length msg = 24 \<and>
    take 8 (drop 4 msg) = enc_reply_header \<lparr>rp_xid = rq_xid h, rp_ret = oldsrv_failure\<rparr> \<and>
    sv' = after_refusal c msg s"
proof -
  obtain sv where sv: "on_net (incref c) s = Some sv" "refs_inv ((listener_ref c)(c := 2)) sv"
      "same_but_net s sv"
    using take_job [OF refs, of c] by (auto simp: listener_ref_def)
  note same = same_but_netD [OF sv(3)]
  obtain req where req: "unpack_req_header (new_unmarshall buf (int (length buf))) = Some (h, req)" "u_ok req"
    by (rule request_arrives [OF args(2,1,3,4)])
  obtain rep where rep: "pack_reply_header \<lparr>rp_xid = rq_xid h, rp_ret = oldsrv_failure\<rparr> (new_marshall g) = Some rep"
      "m_bytes rep = overwrite (m_bytes (new_marshall g)) 4
         (enc_reply_header \<lparr>rp_xid = rq_xid h, rp_ret = oldsrv_failure\<rparr>)"
    using pack_reply_ok [OF wf_new_marshall] by blast
  obtain sv' where sv': "on_net (conn_send c (m_bytes rep)) sv = Some sv'" "same_but_net sv sv'"
      "sent (rs_net sv') = sent (rs_net sv) @ (if dead (rs_net sv) c then [] else [(c, framed (m_bytes rep))])"
    using send_job [OF sv(2), of c "m_bytes rep"] by auto
  have "dispatch g a c buf sv = Some sv'"
    using req h same rep(1) sv'(1) by (simp add: dispatch_def send_failure_def)
  moreover have "m_bytes rep = overwrite (m_bytes (new_marshall g) @ []) 4
      (enc_reply_header \<lparr>rp_xid = rq_xid h, rp_ret = oldsrv_failure\<rparr>)"
    using rep(2) by simp
  note msg = framed_message [OF this new_marshall_bytes]
  moreover have "sv' = after_refusal c (framed (m_bytes rep)) s"
    by (rule after_refusalI [OF sv(1) sv'(1) alive])
  moreover have "rpcs_got_pdu True c s = Some (True, sv)"
    using sv(1) by (simp add: rpcs_got_pdu_def)
  ultimately show ?thesis
    using sv'(3) alive same by (intro exI [of _ sv] exI [of _ sv'] exI [of _ "framed (m_bytes rep)"]) simp
qed

text \<open>A client that is bound to an instance of the server which is not the one that runs.\<close>

definition old_client :: "conn \<Rightarrow> 's loop \<Rightarrow> bool" where
  "old_client c w \<longleftrightarrow> client_inv (lb_client w) \<and> cl_xid (lb_client w) + 1 \<noteq> 0 \<and> cl_bind_done (lb_client w) \<and>
     cl_srv_nonce (lb_client w) \<noteq> 0 \<and> cl_srv_nonce (lb_client w) \<noteq> rs_nonce (lb_server w) \<and>
     refs_inv (listener_ref c) (lb_server w) \<and> \<not> dead (rs_net (lb_server w)) c"

lemma old_client_refused:
  assumes old: "old_client c w" and proc: "proc \<noteq> rpc_bind"
    and req: "wf_marshall req" "m_bytes req = pre @ args" "length pre = 24" "m_ind req \<le> msg_limit"
  shows "\<exists>u w' msg. loop_call1 c proc req w = Some (oldsrv_failure, u, w') \<and> length msg = 24 \<and>
    take 8 (drop 4 msg) = enc_reply_header \<lparr>rp_xid = cl_xid (lb_client w), rp_ret = oldsrv_failure\<rparr> \<and>
    lb_server w' = after_refusal c msg (lb_server w)"
proof -
  let ?cl = "lb_client w" and ?sv = "lb_server w"
  have inv: "client_inv ?cl" and wrap: "cl_xid ?cl + 1 \<noteq> 0" and bound: "cl_bind_done ?cl"
    and srv: "cl_srv_nonce ?cl \<noteq> 0" "cl_srv_nonce ?cl \<noteq> rs_nonce ?sv"
    and refs: "refs_inv (listener_ref c) ?sv" and alive: "\<not> dead (rs_net ?sv) c"
    using old unfolding old_client_def by blast+
  obtain front rest where win: "cl_window ?cl = front # rest"
    using inv by (cases "cl_window ?cl") (auto simp: client_inv_def wf_window_def)
  let ?h = "\<lparr>rq_xid = cl_xid ?cl, rq_proc = proc, rq_clt_nonce = cl_clt_nonce ?cl,
    rq_srv_nonce = cl_srv_nonce ?cl, rq_xid_rep = front\<rparr>"
  obtain req' where req': "pack_req_header ?h req = Some req'"
      "m_bytes req' = overwrite (pre @ args) 4 (enc_req_header ?h)"
    using pack_req_ok [OF req(1), of ?h] req(2) by metis
  let ?buf = "framed (m_bytes req')"
  have "length (enc_req_header ?h) \<le> 20"
    by simp
  note buf = framed_message [OF req'(2) req(3) this]
  obtain cl1 where cl1: "call1_begin 0 proc req ?cl = Some (Inr (cl_xid ?cl, req'), cl1)"
    using req'(1) win proc bound by (auto simp: call1_begin_def Let_def)
  have "int (length (m_bytes req)) = m_ind req"
    using req(1) by simp
  then have args: "24 + int (length args) \<le> msg_limit"
    using req(2-4) by simp
  have hdr: "take 20 (drop 4 ?buf) = enc_req_header ?h"
    using buf(2) by simp
  note ex = old_server_exchange [OF refs alive args buf(1) hdr buf(3), simplified req_header.simps, OF srv,
      of "lb_junk w" "lb_next w"]
  obtain sv sv' msg where sv: "rpcs_got_pdu True c ?sv = Some (True, sv)"
      "dispatch (lb_junk w) (lb_next w) c ?buf sv = Some sv'"
      "drop (length (sent (rs_net sv))) (sent (rs_net sv')) = [(c, msg)]" "length msg = 24"
      "take 8 (drop 4 msg) = enc_reply_header \<lparr>rp_xid = cl_xid ?cl, rp_ret = oldsrv_failure\<rparr>"
      "sv' = after_refusal c msg ?sv"
    using ex by (elim exE conjE) (rule that; assumption)
  have "24 + int (length ([] :: u8 list)) \<le> msg_limit" "length msg = 24 + length ([] :: u8 list)"
      "drop 24 msg = []"
    using sv(4) by (simp_all add: msg_limit_def)
  note msg = reply_arrives [OF this(2,1) sv(5) this(3)]
  obtain cl2 un cl3 where cl: "deliver_all [(c, msg)] cl1 = Some cl2"
      "call1_end (cl_xid ?cl) cl2 = Some (oldsrv_failure, un, cl3)"
    using client_exchange [OF inv wrap cl1 msg(1) _ msg(2), of c] sv(4) by auto
  show ?thesis
    by (intro exI [of _ un] exI [of _ "w\<lparr>lb_client := cl3, lb_server := sv', lb_next := lb_next w + 1\<rparr>"] exI [of _ msg])
      (use cl1 sv cl in \<open>simp add: loop_call1_def del: deliver_all.simps\<close>)
qed

lemma old_call_refused:
  assumes "old_client c w" "proc \<noteq> rpc_bind" "emits (put_a a) ea" "24 + int (length ea) \<le> msg_limit"
  shows "\<exists>w'. call_1 (loop_call1 c) g put_a get_r proc a old w = Some (oldsrv_failure, old, w') \<and>
    (\<exists>msg. length msg = 24 \<and>
      take 8 (drop 4 msg) = enc_reply_header \<lparr>rp_xid = cl_xid (lb_client w), rp_ret = oldsrv_failure\<rparr> \<and>
      lb_server w' = after_refusal c msg (lb_server w))"
proof -
  obtain req where req: "put_a a (new_marshall g) = Some req" "wf_marshall req"
      "m_bytes req = m_bytes (new_marshall g) @ ea" and ind: "m_ind req \<le> msg_limit"
    by (rule lo.request_written [where put_a = put_a and a = a and ea = ea and g = g, OF assms(3,4)])
  obtain u w' msg where "loop_call1 c proc req w = Some (oldsrv_failure, u, w')" "length msg = 24"
      "take 8 (drop 4 msg) = enc_reply_header \<lparr>rp_xid = cl_xid (lb_client w), rp_ret = oldsrv_failure\<rparr>"
      "lb_server w' = after_refusal c msg (lb_server w)"
    using old_client_refused [OF assms(1,2) req(2,3) new_marshall_bytes ind] by blast
  moreover have "sint oldsrv_failure < 0"
    by (simp add: oldsrv_failure_def)
  ultimately show ?thesis
    using req(1) by (auto simp: call_1_def call_m_def)
qed

text \<open>The test programs of a fresh server, with nonce \<open>n\<close>, and a client that was bound to nonce 42.\<close>

definition test_world :: "u32 \<Rightarrow> bool \<Rightarrow> unit loop" where
  "test_world n bound = fresh_loop bound (the (startserver n 0 0 fresh_net))"

lemma test_world_simps [simp]:
  "rs_procs (lb_server (test_world n b)) = test_procs n 0" "rs_nonce (lb_server (test_world n b)) = n"
  "cl_bind_done (lb_client (test_world n b)) = b"
  by (simp_all add: test_world_def startserver_eq fresh_loop_client)

lemma test_world_ready: "k < 1000 \<Longrightarrow> loop_ready 3 k (test_world 42 bound)"
  unfolding test_world_def by (rule fresh_loop_ready) (simp_all add: startserver_eq)

lemma test_world_session: "k < 1000 \<Longrightarrow> test_session 3 k (test_world 42 True)"
  using test_world_ready [of k True] by (auto simp: test_session_def)

lemma test_world_old: "old_client 3 (test_world 43 True)"
  using fresh_server [of "the (startserver 43 0 0 fresh_net)"]
    fresh_loop_client(1) [of True "the (startserver 43 0 0 fresh_net)"]
  by (simp add: old_client_def test_world_def startserver_eq fresh_loop_client)
    (simp add: fresh_loop_def bind_end_def new_rpcc_def)

section \<open>Properties\<close>

text \<open>The message that \<open>testmarshall\<close> builds, and its fields.\<close>

lemma test_message_built:
  assumes s: "length s = 9"
  obtains m0 m1 m2 m3 b where "pack_req_header h (new_marshall g) = Some m0" "m_ind m0 = 24"
    "put_int 12345 m0 = Some m1" "put_u64 1223344455 m1 = Some m2" "put_string s m2 = Some m3" "m_ind m3 = 49"
    "m_buf m3 = Some b" "int (length b) = m_capa m3" "49 \<le> length b"
    "take 49 b = overwrite (m_bytes (new_marshall g)) 4 (enc_req_header h) @ be32 12345 @ be64 1223344455 @ str_bytes s"
proof -
  obtain m0 where m0: "pack_req_header h (new_marshall g) = Some m0" "wf_marshall m0"
      "m_bytes m0 = overwrite (m_bytes (new_marshall g)) 4 (enc_req_header h)" "m_ind m0 = 24"
    by (rule header_packed)
  obtain m1 where m1: "put_int 12345 m0 = Some m1" "wf_marshall m1" "m_bytes m1 = m_bytes m0 @ be32 12345"
    by (rule emitsE [OF typed_int(1) [of 12345] m0(2)]) (simp add: m0(4) msg_limit_def)
  have i1: "m_ind m1 = 28"
    using m_ind_append [OF m0(2) m1(2,3)] m0(4) by simp
  obtain m2 where m2: "put_u64 1223344455 m1 = Some m2" "wf_marshall m2"
      "m_bytes m2 = m_bytes m1 @ be64 1223344455"
    by (rule emitsE [OF emits_put_u64 [of 1223344455] m1(2)]) (simp add: i1 msg_limit_def)
  have i2: "m_ind m2 = 36"
    using m_ind_append [OF m1(2) m2(2,3)] i1 by simp
  obtain m3 where m3: "put_string s m2 = Some m3" "wf_marshall m3" "m_bytes m3 = m_bytes m2 @ str_bytes s"
    by (rule emitsE [OF emits_put_string [of s] m2(2)]) (simp add: i2 s msg_limit_def)
  have i3: "m_ind m3 = 49"
    using m_ind_append [OF m2(2) m3(2,3)] i2 s by simp
  obtain b where b: "m_buf m3 = Some b" "int (length b) = m_capa m3" "49 \<le> length b"
    using m3(2) i3 by (auto simp: wf_marshall_def wf_buf_def)
  show thesis
    by (rule that [OF m0(1,4) m1(1) m2(1) m3(1) i3 b]) (use b(1) i3 m3(3) m2(3) m1(3) m0(3) in \<open>simp add: m_bytes_def\<close>)
qed

lemma test_message_read:
  assumes s: "length s = 9" and b: "49 \<le> length b"
    and bytes: "take 49 b = overwrite (m_bytes (new_marshall g)) 4 (enc_req_header h) @ be32 12345 @ be64 1223344455 @ str_bytes s"
  defines "v \<equiv> (new_unmarshall b 49)\<lparr>u_ind := RPC_HEADER_SZ\<rparr>"
  shows "unpack_req_header (new_unmarshall b 49) = Some (h, v)" "get_int v = Some (12345, u_skip 4 v)"
    "get_u64 (u_skip 4 v) = Some (1223344455, u_skip 12 v)" "get_string [] (u_skip 12 v) = Some (s, u_skip 25 v)"
    "u_okdone (u_skip 25 v)"
proof -
  have "take 20 (drop 4 b) = take 20 (drop 4 (take 49 b))"
    by (simp add: drop_take)
  also have "\<dots> = enc_req_header h"
    unfolding bytes using new_marshall_bytes [of g] by (simp add: overwrite_def)
  finally have hdr: "take 20 (drop 4 b) = enc_req_header h" .
  show "unpack_req_header (new_unmarshall b 49) = Some (h, v)"
    unfolding v_def by (rule unpack_req_header_eq [of _ b])
      (use hdr b in \<open>simp_all add: new_unmarshall_def wf_reader_def fits_int_def int_max_def\<close>)
  have "u_rest v = drop 24 (take 49 b)"
    by (simp add: v_def u_rest_def new_unmarshall_def)
  also have "\<dots> = (be32 12345 @ be64 1223344455 @ str_bytes s) @ []"
    unfolding bytes using new_marshall_bytes [of g] by (simp add: overwrite_def)
  finally have rest: "u_rest v = (be32 12345 @ be64 1223344455 @ str_bytes s) @ []" .
  have wf: "wf_unmarshall v" "u_ok v"
    using b by (simp_all add: v_def new_unmarshall_def wf_unmarshall_def wf_reader_def fits_int_def int_max_def)
  show "get_int v = Some (12345, u_skip 4 v)"
    using typed_int(2) [of 12345] wf rest by (simp add: reads_def)
  have rest1: "u_rest (u_skip 4 v) = be64 1223344455 @ str_bytes s" "wf_unmarshall (u_skip 4 v)"
    using u_rest_skip [OF wf(1), of "be32 12345"] rest by simp_all
  show "get_u64 (u_skip 4 v) = Some (1223344455, u_skip 12 v)"
    using reads_get_u64 [of 1223344455] wf(2) rest1 by (simp add: reads_def)
  have rest2: "u_rest (u_skip 12 v) = str_bytes s @ []" "wf_unmarshall (u_skip 12 v)"
    using u_rest_skip [OF rest1(2,1)] by simp_all
  show "get_string [] (u_skip 12 v) = Some (s, u_skip 25 v)"
    using typed_string(2) [of s "[]"] wf(2) rest2 s by (simp add: reads_def)
  show "u_okdone (u_skip 25 v)"
    using wf(2) by (simp add: v_def u_okdone_def new_unmarshall_def)
qed

text \<open>
  The test of the wire format passes, whatever is in the memory the message is built in.
\<close>

theorem testmarshall_passes: "testmarshall g = Some ()"
proof -
  obtain s where s: "ascii ''hallo....'' = s" "length s = 9"
    by (simp add: ascii_def)
  show ?thesis
    by (rule test_message_built [OF s(2), of "\<lparr>rq_xid = 1, rq_proc = 2, rq_clt_nonce = 3, rq_srv_nonce = 4,
          rq_xid_rep = 5\<rparr>" g])
      (use test_message_read [OF s(2)] s in \<open>simp add: testmarshall_def m_take_buf_def Let_def\<close>)
qed

text \<open>
  The calls that are answered: strings are concatenated, a small request gets a big reply, a
  request of a million bytes arrives, too few arguments, too many, and arguments of other types
  come back with a failure.
\<close>

lemma simple_calls_pass:
  assumes "test_session c (8 + k) w"
  shows "\<exists>w'. simple_calls (loop_call1 c) g j w = Some w' \<and> test_session c k w'"
proof -
  have s: "test_session c (Suc (Suc (Suc (Suc (Suc (Suc (Suc (Suc k)))))))) w"
    using assms by (simp add: eval_nat_numeral)
  have fits: "fits_int (sint (77 :: u32) + 1)"
    by (simp add: fits_int_def int_max_def)
  have len: "length (ascii ''hello'') + length (ascii '' goodbye'') \<le> 2 ^ 28" "length (ascii ''just one'') \<le> 2 ^ 29"
    "length (replicate 1000 (of_char CHR ''x'') :: u8 list) + length (ascii ''x'') \<le> 2 ^ 28"
    "length (replicate 1000000 (of_char CHR ''x'') :: u8 list) + length (ascii ''z'') \<le> 2 ^ 28"
    by (simp_all add: ascii_def)
  obtain w1 where w1: "call_2 (loop_call1 c) g put_string put_string get_string 22 (ascii ''hello'')
      (ascii '' goodbye'') [] w = Some (0, ascii ''hello'' @ ascii '' goodbye'', w1)"
      "test_session c (Suc (Suc (Suc (Suc (Suc (Suc (Suc k))))))) w1"
    using concat_call [OF s len(1)] by blast
  let ?rep = "ascii ''hello'' @ ascii '' goodbye''"
  obtain rep w2 where w2: "call_1 (loop_call1 c) g put_int get_string 25 (word_of_nat 70000) ?rep w1
      = Some (0, rep, w2)" "length rep = 70000" "test_session c (Suc (Suc (Suc (Suc (Suc (Suc k)))))) w2"
    using bigrep_call [OF w1(2), of 70000 g ?rep] by auto
  obtain w3 where w3: "call_1 (loop_call1 c) g put_string get_string 22 (ascii ''just one'') rep w2
      = Some (unmarshal_args_failure, rep, w3)" "test_session c (Suc (Suc (Suc (Suc (Suc k))))) w3"
    using one_string_refused [OF w2(3) len(2), where get_r = get_string] by blast
  obtain w4 where w4: "call_2 (loop_call1 c) g put_int put_int get_string 23 1001 1002 rep w3
      = Some (unmarshal_args_failure, rep, w4)" "test_session c (Suc (Suc (Suc (Suc k)))) w4"
    using two_ints_refused [OF w3(2), where get_r = get_string] by blast
  obtain w5 where w5: "call_2 (loop_call1 c) g put_string put_string (\<lambda>_. get_int) 23 (ascii ''hello'')
      (ascii '' goodbye'') j w4 = Some (unmarshal_args_failure, j, w5)" "test_session c (Suc (Suc (Suc k))) w5"
    using two_strings_refused [OF w4(2) len(1), where get_r = "\<lambda>_. get_int"] by blast
  obtain w6 where w6: "call_1 (loop_call1 c) g put_int (\<lambda>_. get_int) 23 77 0 w5 = Some (0, 77 + 1, w6)"
      "test_session c (Suc (Suc k)) w6"
    using fast_call [OF w5(2) fits] by blast
  obtain w7 where w7: "call_2 (loop_call1 c) g put_string put_string get_string 22
      (replicate 1000 (of_char CHR ''x'')) (ascii ''x'') [] w6
      = Some (0, replicate 1000 (of_char CHR ''x'') @ ascii ''x'', w7)" "test_session c (Suc k) w7"
    using concat_call [OF w6(2) len(3)] by blast
  obtain w8 where w8: "call_2 (loop_call1 c) g put_string put_string get_string 22
      (replicate 1000000 (of_char CHR ''x'')) (ascii ''z'') rep w7
      = Some (0, replicate 1000000 (of_char CHR ''x'') @ ascii ''z'', w8)" "test_session c k w8"
    using concat_call [OF w7(2) len(4)] by blast
  have "ascii ''hello goodbye'' = ?rep"
    by (simp add: ascii_def)
  moreover have "sint unmarshal_args_failure < 0"
    by (simp add: unmarshal_args_failure_def)
  moreover have "length (replicate n x @ ascii [d]) = Suc n" for n x d
    by (simp add: ascii_def)
  moreover have "word_of_nat 70000 = (70000 :: u32)"
    by simp
  ultimately show ?thesis
    using w1(1) w2(1,2) w3(1) w4(1) w5(1) w6(1) w7(1) w8
    by (simp add: simple_calls_def del: of_nat_numeral)
qed

text \<open>The call that nobody answers.\<close>

lemma timeout_begin:
  obtains req m c1 where "put_int 0 (new_marshall g) = Some req"
    "call1_begin 0 rpc_bind req (new_rpcc True rnd) = Some (Inr (1, m), c1)"
    "cl_calls c1 = [1 \<mapsto> new_caller 0 1 empty_unmarshall]" "cl_window c1 = [0]"
proof -
  obtain req where req: "put_int 0 (new_marshall g) = Some req" "wf_marshall req"
    using typed_int(1) [of 0] by (rule emitsE [OF _ wf_new_marshall]) (simp add: new_marshall_ind msg_limit_def)
  obtain m where "pack_req_header \<lparr>rq_xid = 1, rq_proc = rpc_bind, rq_clt_nonce = rnd, rq_srv_nonce = 0, rq_xid_rep = 0\<rparr>
      req = Some m"
    using pack_req_ok [OF req(2)] by metis
  then have "call1_begin 0 rpc_bind req (new_rpcc True rnd) = Some (Inr (1, m), (new_rpcc True rnd)\<lparr>cl_xid := 2,
      cl_calls := [1 \<mapsto> new_caller 0 1 empty_unmarshall]\<rparr>)"
    by (simp add: call1_begin_def new_rpcc_def initial_window_def)
  from that [OF req(1) this] show thesis
    by (simp add: new_rpcc_def initial_window_def)
qed

lemma timeout_end:
  assumes "cl_calls c1 = [1 \<mapsto> new_caller 0 1 empty_unmarshall]" "cl_window c1 = [0]"
  obtains c2 where "call1_end 1 c1 = Some (timeout_failure, empty_unmarshall, c2)"
proof -
  obtain w where "update_xid_rep 1 [0] = Some w"
    using update_xid_rep_spec [of "[0]" 1] by auto
  with that assms show thesis
    by (simp add: call1_end_def new_caller_def)
qed

lemma timeout_test_passes:
  assumes clock: "normal t0" "normal now" "normal t1" "nanos now \<le> nanos t0 + d" "3 * d < 1000000000"
    and un: "\<forall>b. unanswered d b (nanos now) es (the (loop_start 3000 now None no_conns)) (nanos t1)"
    and long: "3 < length es"
  shows "timeout_test g rnd t0 now es t1 = Some ()"
proof -
  obtain req m c1 where c1: "put_int 0 (new_marshall g) = Some req"
      "call1_begin 0 rpc_bind req (new_rpcc True rnd) = Some (Inr (1, m), c1)"
      "cl_calls c1 = [1 \<mapsto> new_caller 0 1 empty_unmarshall]" "cl_window c1 = [0]"
    by (rule timeout_begin)
  obtain c2 where c2: "call1_end 1 c1 = Some (timeout_failure, empty_unmarshall, c2)"
    by (rule timeout_end [OF c1(3,4)])
  obtain l where l: "loop_start 3000 now None no_conns = Some l"
    using add_timespec_eq [OF clock(2), of 3000] by (auto simp: loop_start_def)
  have un': "unanswered d (m_bytes m) (nanos now) es l (nanos t1)"
    using un l by simp
  have "refs_ok (\<lambda>c. 0) no_conns"
    by (rule refs_okI) (simp_all add: no_conns_def)
  from unanswered_leaves [OF clock(2) l _ _ _ _ this un' long] obtain l' where
    l': "loop_run True (m_bytes m) es l = Some (Leaves, l')" "lp_ch l' = None"
      "nanos t1 \<le> nanos now + 3000 * 1000000 + 2 * d"
    by auto
  have "nanos t1 < nanos t0 + 4 * 1000000000"
    using l'(3) clock(4,5) by simp
  then have "tv_sec t1 - tv_sec t0 \<le> 4"
    using clock(1,3) by (simp add: nanos_def normal_def)
  then show ?thesis
    using c1(1,2) c2 l l'(1,2) by (simp add: timeout_test_def call_release_def assertion_def timeout_failure_def)
qed

text \<open>A run of that loop: it waits for one second, for two, is late by a tenth of a second each time, and leaves.\<close>

definition silent_turn :: "timespec \<Rightarrow> turn_env" where
  "silent_turn t = \<lparr>e_connect = None, e_now = t, e_done = False, e_wakes = [(False, False), (True, False)], e_dies = {}\<rparr>"

definition silent_turns :: "turn_env list" where
  "silent_turns = map silent_turn
     [Timespec 100 200000000, Timespec 101 300000000, Timespec 103 300000000, Timespec 103 300000000]"

lemma silent_start:
  "loop_start 3000 (Timespec 100 200000000) None no_conns = Some \<lparr>curr_to = 1000, finaldeadline = Timespec 103 200000000,
     transmit = True, lp_ch = None, lp_chan = None, lp_table = no_conns\<rparr>"
  by (simp add: loop_start_def to_min_def add_timespec_eq normal_def carry_nsec.simps)

lemma silent_unanswered:
  "unanswered 100000000 b (nanos (Timespec 100 200000000)) silent_turns
     (the (loop_start 3000 (Timespec 100 200000000) None no_conns)) (nanos (Timespec 103 400000000))"
  by (simp add: silent_start silent_turns_def silent_turn_def turn_deadline_def turn_defs nanos_def normal_def times_out_def)

text \<open>
  C29. \<open>simple_tests\<close> passes on the program as it is modelled, with all its assertions: the answered
  calls give the right results, or a failure for too few, too many and mistyped arguments; and
  the \<open>bind\<close> to a port nobody listens on fails, at most four seconds after it began by the clock,
  provided that its connects fail, its waits time out, and the program is never late by \<open>d\<close>
  nanoseconds, where three such delays are less than a second.
\<close>

theorem simple_tests_pass:
  assumes "test_session c (8 + k) w"
    and "normal t0" "normal now" "normal t1" "nanos now \<le> nanos t0 + d" "3 * d < 1000000000"
    and "\<forall>b. unanswered d b (nanos now) es (the (loop_start 3000 now None no_conns)) (nanos t1)" "3 < length es"
  shows "\<exists>w'. simple_tests (loop_call1 c) g j rnd t0 now es t1 w = Some w' \<and> test_session c k w'"
proof -
  obtain w' where "simple_calls (loop_call1 c) g j w = Some w'" "test_session c k w'"
    using simple_calls_pass [OF assms(1)] by blast
  with timeout_test_passes [OF assms(2-8)] show ?thesis
    by (simp add: simple_tests_def)
qed

theorem simple_tests_pass_witness:
  "\<exists>w'. simple_tests (loop_call1 3) (\<lambda>_. 0) 5 7 (Timespec 100 200000000) (Timespec 100 200000000) silent_turns
      (Timespec 103 400000000) (test_world 42 True) = Some w' \<and> test_session 3 2 w'"
proof (rule simple_tests_pass [where d = 100000000])
  show "\<forall>b. unanswered 100000000 b (nanos (Timespec 100 200000000)) silent_turns
      (the (loop_start 3000 (Timespec 100 200000000) None no_conns)) (nanos (Timespec 103 400000000))"
    using silent_unanswered by blast
qed (simp_all add: test_world_session normal_def silent_turns_def)

text \<open>
  The loops of the client threads pass, one after the other and whatever \<open>random()\<close> returns: a
  thread of \<open>concurrent_test\<close>, \<open>n\<close> rounds of \<open>lossy_test\<close>, a thread of \<open>failure_test\<close> and one of
  \<open>garbage_collection_test\<close>. Each reply is the reply of its call.
\<close>

theorem client_threads_pass:
  assumes "test_session c (704 + n + k) w"
  shows "\<exists>w1 w2 w3 w4. client1 (loop_call1 c) g j rnd w = Some w1 \<and>
    client2 (loop_call1 c) g rnd n w1 = Some w2 \<and> client3 (loop_call1 c) g j w2 = Some w3 \<and>
    client4 (loop_call1 c) g rnd w3 = Some w4 \<and> test_session c k w4"
proof -
  have "200 + (504 + k + n) = 704 + n + k"
    by simp
  then obtain w1 where w1: "client1 (loop_call1 c) g j rnd w = Some w1" "test_session c (504 + k + n) w1"
    using client1_runs [of c "504 + k + n" w g j rnd] assms by metis
  obtain w2 where w2: "client2 (loop_call1 c) g rnd n w1 = Some w2" "test_session c (504 + k) w2"
    using client2_runs [OF w1(2), of g rnd] by blast
  have "504 + k = 4 + (k + 500)"
    by simp
  then obtain w3 where w3: "client3 (loop_call1 c) g j w2 = Some w3" "test_session c (k + 500) w3"
    using client3_runs [of c "k + 500" w2 g j] w2(2) by metis
  obtain w4 where "client4 (loop_call1 c) g rnd w3 = Some w4" "test_session c k w4"
    using client4_runs [OF w3(2), of g rnd] by blast
  with w1 w2 w3 show ?thesis
    by blast
qed

theorem client_threads_pass_witness:
  "\<exists>w1 w2 w3 w4. client1 (loop_call1 3) (\<lambda>_. 0) 5 (\<lambda>i. 7 * i) (test_world 42 True) = Some w1 \<and>
    client2 (loop_call1 3) (\<lambda>_. 0) (\<lambda>i. 7 * i) 20 w1 = Some w2 \<and>
    client3 (loop_call1 3) (\<lambda>_. 0) 5 w2 = Some w3 \<and>
    client4 (loop_call1 3) (\<lambda>_. 0) (\<lambda>i. 7 * i) w3 = Some w4 \<and> test_session 3 2 w4"
  by (rule client_threads_pass, rule test_world_session) simp

text \<open>
  C30. The client of a server that has been replaced: every call but \<open>bind\<close>, with whatever arguments,
  returns \<open>oldsrv_failure\<close> and leaves the result variable as it is. No handler runs, and the new
  server is exactly as before, its reply window, its table of clients and its counters included,
  but for the connection of the call: a reply of 24 bytes was sent on it, and its reference count
  is one higher, since \<open>dispatch\<close> returns there without giving the reference of its job back.
\<close>

theorem replaced_server_refuses:
  assumes "old_client c w" "proc \<noteq> rpc_bind" "emits (put_a a) ea" "24 + int (length ea) \<le> msg_limit"
  shows "\<exists>w' msg n. call_1 (loop_call1 c) g put_a get_r proc a old w = Some (oldsrv_failure, old, w') \<and>
    length msg = 24 \<and>
    take 8 (drop 4 msg) = enc_reply_header \<lparr>rp_xid = cl_xid (lb_client w), rp_ret = oldsrv_failure\<rparr> \<and>
    refno (rs_net (lb_server w)) c = Some n \<and>
    lb_server w' = (lb_server w)\<lparr>rs_net := (rs_net (lb_server w))\<lparr>
      refno := (refno (rs_net (lb_server w)))(c \<mapsto> n + 1),
      sent := sent (rs_net (lb_server w)) @ [(c, msg)]\<rparr>\<rparr>"
proof -
  have "refs_inv (listener_ref c) (lb_server w)"
    using assms(1) by (simp add: old_client_def)
  then obtain n where "refno (rs_net (lb_server w)) c = Some n"
    using take_job [of "listener_ref c" "lb_server w" c]
    by (auto simp: listener_ref_def on_net_def incref_def split: option.splits)
  with old_call_refused [where put_a = put_a and a = a and ea = ea and g = g and get_r = get_r and old = old, OF assms] show ?thesis
    by (auto simp: after_refusal_def)
qed

theorem replaced_server_refuses_witness:
  "\<exists>w' msg n. call_1 (loop_call1 3) (\<lambda>_. 0) put_int (\<lambda>_. get_int) 23 77 5 (test_world 43 True)
      = Some (oldsrv_failure, 5, w') \<and> length msg = 24 \<and>
    take 8 (drop 4 msg) = enc_reply_header \<lparr>rp_xid = cl_xid (lb_client (test_world 43 True)), rp_ret = oldsrv_failure\<rparr> \<and>
    refno (rs_net (lb_server (test_world 43 True))) 3 = Some n \<and>
    lb_server w' = (lb_server (test_world 43 True))\<lparr>rs_net := (rs_net (lb_server (test_world 43 True)))\<lparr>
      refno := (refno (rs_net (lb_server (test_world 43 True))))(3 \<mapsto> n + 1),
      sent := sent (rs_net (lb_server (test_world 43 True))) @ [(3, msg)]\<rparr>\<rparr>"
  by (rule replaced_server_refuses) (rule test_world_old typed_int small_message | simp add: rpc_bind_def)+

text \<open>
  The two parts of \<open>failure_test\<close> pass: the old client is told that its server is gone; a new
  client binds, cannot bind again, and then gets its answers.
\<close>

theorem failure_tests_pass:
  assumes "old_client c w" "loop_ready c (k + 2) w2" "\<not> cl_bind_done (lb_client w2)"
    and "rs_procs (lb_server w2) = test_procs (rs_nonce (lb_server w2)) r0"
  shows "(\<exists>w'. recovered_server_test (loop_call1 c) g w = Some w' \<and> same_but_net (lb_server w) (lb_server w')) \<and>
    (\<exists>w'. replaced_client_test c g r rep w2 = Some w' \<and> test_session c k w')"
proof
  have len: "length (ascii ''hello'') + length (ascii '' goodbye'') \<le> 2 ^ 28"
    by (simp add: ascii_def)
  have err: "\<exists>w'. call_1 (loop_call1 c) g (put_pair put_string put_string) get_string 22
      (ascii ''hello'', ascii '' goodbye'') [] w = Some (oldsrv_failure, [], w') \<and>
      (\<exists>msg. length msg = 24 \<and>
        take 8 (drop 4 msg) = enc_reply_header \<lparr>rp_xid = cl_xid (lb_client w), rp_ret = oldsrv_failure\<rparr> \<and>
        lb_server w' = after_refusal c msg (lb_server w))"
    by (rule old_call_refused) (rule assms(1) typed_strings(1,3) [OF len] | simp add: rpc_bind_def)+
  then show "\<exists>w'. recovered_server_test (loop_call1 c) g w = Some w' \<and> same_but_net (lb_server w) (lb_server w')"
    by (auto simp: recovered_server_test_def call_tuples after_refusal_same)
  have ready: "loop_ready c (Suc (Suc k)) w2"
    using assms(2) by simp
  have procs: "rs_procs (lb_server w2) rpc_bind
      = Some (handler1 get_int put_int r0 (rpcbind (rs_nonce (lb_server w2))))"
    using assms(4) by (simp add: test_procs_def rpc_bind_def)
  obtain w3 where w3: "client_bind c g r w2 = Some (0, w3)" "cl_bind_done (lb_client w3)"
      "loop_ready c (Suc k) w3" "rs_procs (lb_server w3) = rs_procs (lb_server w2)"
    using bind_runs [OF ready assms(3) procs] by blast
  have "test_session c (Suc k) w3"
    using w3(2-4) assms(4) by (auto simp: test_session_def)
  then obtain w4 where w4: "call_2 (loop_call1 c) g put_string put_string get_string 22 (ascii ''hello'')
      (ascii '' goodbye'') rep w3 = Some (0, ascii ''hello'' @ ascii '' goodbye'', w4)" "test_session c k w4"
    using concat_call [OF _ len] by blast
  have "ascii ''hello goodbye'' = ascii ''hello'' @ ascii '' goodbye''" "sint bind_failure < 0"
    by (simp_all add: ascii_def bind_failure_def)
  then show "\<exists>w'. replaced_client_test c g r rep w2 = Some w' \<and> test_session c k w'"
    using w3(1) w4 bind_again [OF w3(2)] by (simp add: replaced_client_test_def)
qed

theorem failure_tests_pass_witness:
  "(\<exists>w'. recovered_server_test (loop_call1 3) (\<lambda>_. 0) (test_world 43 True) = Some w' \<and>
      same_but_net (lb_server (test_world 43 True)) (lb_server w')) \<and>
    (\<exists>w'. replaced_client_test 3 (\<lambda>_. 0) 5 [] (test_world 42 False) = Some w' \<and> test_session 3 2 w')"
  by (rule failure_tests_pass [OF test_world_old test_world_ready]) simp_all

end
