(* ===== verification/Connection_IO.thy ===== *)
theory Connection_IO
  imports Connection_Refs Marshalling
begin

text \<open>
  The input and output of a \<open>connection\<close> (\<open>rpc/connection.cc\<close>): \<open>readpdu\<close> and \<open>read_cb\<close>, which
  cut the byte stream of a socket into messages, and \<open>writepdu\<close> and \<open>write_cb\<close>, which put a
  message on it. What a system call returns is an argument: the theorems hold for all outcomes the
  kernel may choose. \<open>None\<close> is a failed assertion or an access outside a block of memory.
\<close>

section \<open>State\<close>

record charbuf =
  cb_buf :: "u8 list option"
  cb_sz :: int
  cb_solong :: int

definition no_charbuf :: charbuf where
  "no_charbuf = \<lparr>cb_buf = None, cb_sz = 0, cb_solong = 0\<rparr>"

text \<open>
  \<open>c_again\<close> says whether \<open>errno\<close> is \<open>EAGAIN\<close> in the thread of the poll manager, \<open>c_out\<close> is what
  was written to the socket, and \<open>c_watch_r\<close>, \<open>c_watch_w\<close> say for what it is watched.
\<close>

record connection =
  c_dead :: bool
  c_wpdu :: charbuf
  c_rpdu :: charbuf
  c_waiters :: nat
  c_again :: bool
  c_out :: "u8 list"
  c_watch_r :: bool
  c_watch_w :: bool

definition new_connection :: "bool \<Rightarrow> connection" where
  "new_connection e = \<lparr>c_dead = False, c_wpdu = no_charbuf, c_rpdu = no_charbuf, c_waiters = 0,
     c_again = e, c_out = [], c_watch_r = True, c_watch_w = False\<rparr>"

definition MAX_PDU :: int where
  "MAX_PDU = 10 * 2 ^ 20"

section \<open>Reading\<close>

text \<open>
  The outcome of a \<open>read\<close>: bytes, the end of the stream, or an error, which is \<open>EAGAIN\<close> or not.
  Only an error sets \<open>errno\<close>.
\<close>

datatype read_result = Got "u8 list" | Eof | Fail bool

fun read_count :: "read_result \<Rightarrow> int" where
  "read_count (Got bs) = int (length bs)"
| "read_count Eof = 0"
| "read_count (Fail a) = -1"

fun read_bytes :: "read_result \<Rightarrow> u8 list" where
  "read_bytes (Got bs) = bs"
| "read_bytes Eof = []"
| "read_bytes (Fail a) = []"

fun errno_after :: "read_result \<Rightarrow> bool \<Rightarrow> bool" where
  "errno_after (Fail a) e = a"
| "errno_after r e = e"

definition ntoh32 :: "u8 list \<Rightarrow> u32" where
  "ntoh32 b = push_bit 24 (ucast (b ! 0)) OR push_bit 16 (ucast (b ! 1)) OR
     push_bit 8 (ucast (b ! 2)) OR ucast (b ! 3)"

text \<open>A store into a block has to be inside it.\<close>

definition store_at :: "int \<Rightarrow> u8 list \<Rightarrow> u8 list \<Rightarrow> u8 list option" where
  "store_at off bs b =
     (if 0 \<le> off \<and> off + int (length bs) \<le> int (length b) then Some (overwrite b (nat off) bs)
      else None)"

text \<open>
  The block for a message of size \<open>sz\<close>: the \<open>int\<close> is converted to \<open>size_t\<close> and the sum wraps; a
  block that is larger than every message is not to be had, and the assertion fails.
\<close>

definition pdu_block :: "(nat \<Rightarrow> u8) \<Rightarrow> int \<Rightarrow> u8 list option" where
  "pdu_block g sz =
     (let n = (word_of_int sz :: u64) + 4
      in if uint n \<le> MAX_PDU + 4 then Some (malloc_bytes g (unat n)) else None)"

text \<open>The second half of \<open>readpdu\<close>: a read into what is left of the block.\<close>

definition read_body :: "read_result \<Rightarrow> bool \<Rightarrow> charbuf \<Rightarrow> (bool \<times> bool \<times> charbuf) option" where
  "read_body r e p =
     (let e = errno_after r e in
      if read_count r \<le> 0
      then Some (if e then (True, e, p) else (False, e, no_charbuf))
      else do {
        b \<leftarrow> cb_buf p;
        b \<leftarrow> store_at (cb_solong p) (read_bytes r) b;
        Some (True, e, p\<lparr>cb_buf := Some b, cb_solong := cb_solong p + read_count r\<rparr>)
      })"

text \<open>\<open>r1\<close> is the outcome of the read of the length word, if there is one, \<open>r2\<close> that of the other.\<close>

definition readpdu :: "(nat \<Rightarrow> u8) \<Rightarrow> read_result \<Rightarrow> read_result \<Rightarrow> bool \<Rightarrow> charbuf
    \<Rightarrow> (bool \<times> bool \<times> charbuf) option" where
  "readpdu g r1 r2 e p =
     (if cb_sz p = 0 then
        let n = read_count r1; e = errno_after r1 e in
        if n = 0 then Some (False, e, p)
        else if n < 0 then (if e then None else Some (False, e, p))
        else if n \<noteq> 4 then Some (False, e, p)
        else let sz = sint (ntoh32 (read_bytes r1)) in
          if sz > MAX_PDU then Some (False, e, p)
          else if cb_buf p \<noteq> None then None
          else do {
            b \<leftarrow> pdu_block g sz;
            b \<leftarrow> store_at 0 (read_bytes r1) b;
            read_body r2 e \<lparr>cb_buf = Some b, cb_sz = sz, cb_solong = 4\<rparr>
          }
      else read_body r2 e p)"

text \<open>
  The callback of a readable socket. \<open>got\<close> is \<open>got_pdu\<close> of the channel manager, on its state; it
  is handed the message and says whether it has taken it.
\<close>

definition read_cb :: "(u8 list \<Rightarrow> 'm \<Rightarrow> (bool \<times> 'm) option) \<Rightarrow> (nat \<Rightarrow> u8) \<Rightarrow> read_result \<Rightarrow> read_result
    \<Rightarrow> connection \<Rightarrow> 'm \<Rightarrow> (connection \<times> 'm) option" where
  "read_cb got g r1 r2 c m =
     (if c_dead c then Some (c, m)
      else do {
        (succ, e, p) \<leftarrow>
          (if cb_buf (c_rpdu c) = None \<or> cb_solong (c_rpdu c) < cb_sz (c_rpdu c)
           then readpdu g r1 r2 (c_again c) (c_rpdu c)
           else Some (True, c_again c, c_rpdu c));
        let c = c\<lparr>c_rpdu := p, c_again := e\<rparr>;
        let c = (if \<not> succ then c\<lparr>c_watch_r := False, c_watch_w := False, c_dead := True\<rparr> else c);
        (case cb_buf p of
           Some b \<Rightarrow>
             if cb_sz p = cb_solong p then do {
               (taken, m) \<leftarrow> got (take (nat (cb_sz p)) b) m;
               Some (if taken then c\<lparr>c_rpdu := no_charbuf\<rparr> else c, m)
             }
             else Some (c, m)
         | None \<Rightarrow> Some (c, m))
      })"

section \<open>Writing\<close>

text \<open>The outcome of a \<open>write\<close>: a number of bytes taken, or an error, which is \<open>EAGAIN\<close> or not.\<close>

datatype write_result = Wrote nat | Refused bool

definition writepdu :: "write_result \<Rightarrow> connection \<Rightarrow> (bool \<times> connection) option" where
  "writepdu r c =
     (let p = c_wpdu c in
      if cb_solong p < 0 then None
      else if cb_solong p = cb_sz p then Some (True, c)
      else do {
        b \<leftarrow> cb_buf p;
        b \<leftarrow> (if cb_solong p = 0 then store_at 0 (be32 (word_of_int (cb_sz p))) b else Some b);
        let p = p\<lparr>cb_buf := Some b\<rparr>;
        (case r of
           Refused again \<Rightarrow>
             Some (again, c\<lparr>c_wpdu := (if again then p else p\<lparr>cb_solong := -1, cb_sz := 0\<rparr>)\<rparr>)
         | Wrote n \<Rightarrow>
             Some (True, c\<lparr>c_out := c_out c @ take n (drop (nat (cb_solong p)) b),
                           c_wpdu := p\<lparr>cb_solong := cb_solong p + int n\<rparr>\<rparr>))
      })"

text \<open>The callback of a writable socket; the flag says whether \<open>send_complete_\<close> was signalled.\<close>

definition write_cb :: "write_result \<Rightarrow> connection \<Rightarrow> (bool \<times> connection) option" where
  "write_cb r c =
     (if c_dead c then None
      else if cb_sz (c_wpdu c) = 0 then Some (False, c\<lparr>c_watch_w := False\<rparr>)
      else do {
        (ok, c) \<leftarrow> writepdu r c;
        (if \<not> ok then Some (True, c\<lparr>c_watch_r := False, c_watch_w := False, c_dead := True\<rparr>)
         else if cb_solong (c_wpdu c) < 0 then None
         else if cb_solong (c_wpdu c) < cb_sz (c_wpdu c) then Some (False, c)
         else Some (True, c))
      })"

section \<open>A stream of messages\<close>

definition frames :: "u8 list list \<Rightarrow> u8 list" where
  "frames ms = concat (map framed ms)"

text \<open>The sizes that can be sent: more than the length word, and what the reader accepts.\<close>

definition pdu_ok :: "u8 list \<Rightarrow> bool" where
  "pdu_ok b \<longleftrightarrow> 4 < length b \<and> int (length b) \<le> MAX_PDU"

text \<open>A channel manager that takes every message.\<close>

definition collect :: "u8 list \<Rightarrow> u8 list list \<Rightarrow> (bool \<times> u8 list list) option" where
  "collect b ms = Some (True, ms @ [b])"

text \<open>
  A callback on a socket that holds the bytes \<open>inp\<close>: the poll manager calls it when there are some and
  the connection is alive. The read of the length word gives at least one byte and at most \<open>k1\<close>, the
  other one at most \<open>k2\<close>, or \<open>EAGAIN\<close> when \<open>k2\<close> is 0.
\<close>

definition stream_cb :: "(nat \<Rightarrow> u8) \<Rightarrow> nat \<times> nat \<Rightarrow> connection \<times> u8 list \<times> u8 list list
    \<Rightarrow> (connection \<times> u8 list \<times> u8 list list) option" where
  "stream_cb g = (\<lambda>(k1, k2) (c, inp, ms).
     if inp = [] \<or> c_dead c then Some (c, inp, ms)
     else
       let p = c_rpdu c;
           word = (if cb_sz p = 0 then take (max 1 k1) (take 4 inp) else []);
           inp' = drop (length word) inp;
           want = nat (if cb_sz p = 0 then sint (ntoh32 word) - 4 else cb_sz p - cb_solong p);
           bs = (if cb_sz p = 0 \<and> length word \<noteq> 4 then [] else take (min k2 want) inp')
       in do {
         (c, ms) \<leftarrow> read_cb collect g (Got word) (if bs = [] then Fail True else Got bs) c ms;
         Some (c, drop (length bs) inp', ms)
       })"

fun stream_run :: "(nat \<Rightarrow> u8) \<Rightarrow> (nat \<times> nat) list \<Rightarrow> connection \<times> u8 list \<times> u8 list list
    \<Rightarrow> (connection \<times> u8 list \<times> u8 list list) option" where
  "stream_run g [] s = Some s"
| "stream_run g (k # ks) s = do { s \<leftarrow> stream_cb g k s; stream_run g ks s }"

text \<open>Reads that take a length word whole, and how many of the others get something.\<close>

definition words_whole :: "(nat \<times> nat) list \<Rightarrow> bool" where
  "words_whole ks \<longleftrightarrow> (\<forall>k \<in> set ks. 4 \<le> fst k)"

definition reads_done :: "(nat \<times> nat) list \<Rightarrow> nat" where
  "reads_done ks = length (filter (\<lambda>k. 0 < snd k) ks)"

subsection \<open>Reassembly\<close>

lemma ntoh32_be32 [simp]: "ntoh32 (be32 x) = x"
  by (simp add: ntoh32_def be32_def u32_from_bytes)

lemma framed_be32: "framed b = overwrite b 0 (be32 (word_of_nat (length b)))"
  by (simp add: framed_def be32_def Let_def)

lemma framed_simps:
  assumes "pdu_ok b"
  shows "length (framed b) = length b" "take 4 (framed b) = be32 (word_of_nat (length b))"
    "sint (word_of_nat (length b) :: u32) = int (length b)"
proof -
  show "length (framed b) = length b" "take 4 (framed b) = be32 (word_of_nat (length b))"
    using assms by (simp_all add: framed_be32 pdu_ok_def overwrite_def)
  have "fits_int (int (length b))"
    using assms by (simp add: pdu_ok_def MAX_PDU_def fits_int_def int_max_def)
  then show "sint (word_of_nat (length b) :: u32) = int (length b)"
    using sint_word_of_int_fits [of "int (length b)"] by simp
qed

lemma pdu_block_ok:
  assumes "0 \<le> sz" "sz \<le> MAX_PDU"
  shows "pdu_block g sz = Some (malloc_bytes g (nat sz + 4))"
proof -
  have "uint ((word_of_int sz :: u64) + 4) = sz + 4"
    using assms by (simp add: uint_word_ariths take_bit_int_eq_self MAX_PDU_def uint_word_of_int)
  then show ?thesis
    using assms by (simp add: pdu_block_def Let_def unat_eq_nat_uint nat_add_distrib)
qed

text \<open>The state between two callbacks: \<open>n\<close> bytes of the frame \<open>f\<close> have arrived, at least its length word.\<close>

definition partly_read :: "u8 list \<Rightarrow> nat \<Rightarrow> charbuf \<Rightarrow> bool" where
  "partly_read f n p \<longleftrightarrow> 4 \<le> n \<and> n \<le> length f \<and> cb_sz p = int (length f) \<and> cb_solong p = int n \<and>
     (\<exists>b. cb_buf p = Some b \<and> length f \<le> length b \<and> take n b = take n f)"

lemma read_body_partly:
  assumes "partly_read f n p" "bs = take j (drop n f)"
  shows "\<exists>e' p'. read_body (if bs = [] then Fail True else Got bs) e p = Some (True, e', p') \<and>
    partly_read f (n + length bs) p'"
proof (cases "bs = []")
  case True
  with assms(1) show ?thesis
    by (auto simp: read_body_def)
next
  case False
  obtain b where b: "cb_buf p = Some b" "length f \<le> length b" "take n b = take n f"
    and n: "4 \<le> n" "n \<le> length f" and p: "cb_sz p = int (length f)" "cb_solong p = int n"
    using assms(1) by (auto simp: partly_read_def)
  have len: "n + length bs \<le> length f"
    using assms(2) n by simp
  have bs: "take (length bs) (drop n f) = bs"
    using assms(2) by (simp add: min_def)
  have "take (n + length bs) (overwrite b n bs) = take n b @ bs"
    using len b(2) by (intro take_overwrite) simp
  also have "\<dots> = take (n + length bs) f"
    using b(3) bs by (simp add: take_add)
  finally have "partly_read f (n + length bs) (p\<lparr>cb_buf := Some (overwrite b n bs), cb_solong := int n + int (length bs)\<rparr>)"
    using len n b(2) p by (simp add: partly_read_def)
  with False b p len show ?thesis
    by (simp add: read_body_def store_at_def)
qed

lemma readpdu_fresh:
  assumes "pdu_ok b" "bs = take j (drop 4 (framed b))"
  shows "\<exists>e' p'. readpdu g (Got (be32 (word_of_nat (length b)))) (if bs = [] then Fail True else Got bs) e no_charbuf
      = Some (True, e', p') \<and> partly_read (framed b) (4 + length bs) p'"
proof -
  note f = framed_simps [OF assms(1)]
  have sz: "4 < length b" "int (length b) \<le> MAX_PDU"
    using assms(1) by (simp_all add: pdu_ok_def)
  let ?w = "be32 (word_of_nat (length b))"
  let ?blk = "overwrite (malloc_bytes g (length b + 4)) 0 ?w"
  have "partly_read (framed b) 4 \<lparr>cb_buf = Some ?blk, cb_sz = int (length b), cb_solong = 4\<rparr>"
    using sz f(1,2) by (simp add: partly_read_def overwrite_def)
  from read_body_partly [OF this assms(2), of e] sz f(3) pdu_block_ok [of "int (length b)" g]
  show ?thesis
    by (simp add: readpdu_def no_charbuf_def store_at_def)
qed

text \<open>A length word of which only a part has arrived.\<close>

lemma split_word:
  assumes "\<not> c_dead c" "c_rpdu c = no_charbuf" "0 < length bs" "length bs < 4"
  shows "read_cb got g (Got bs) r2 c m = Some (c\<lparr>c_watch_r := False, c_watch_w := False, c_dead := True\<rparr>, m)"
proof -
  have "c\<lparr>c_rpdu := no_charbuf, c_again := c_again c\<rparr> = c"
    using assms(2) by simp
  with assms show ?thesis
    by (simp add: read_cb_def readpdu_def no_charbuf_def Let_def)
qed

definition stream_inv :: "u8 list list \<Rightarrow> connection \<times> u8 list \<times> u8 list list \<Rightarrow> bool" where
  "stream_inv ms = (\<lambda>(c, inp, D). \<not> c_dead c \<and> (\<exists>past todo. ms = past @ todo \<and> D = map framed past \<and>
     (c_rpdu c = no_charbuf \<and> inp = frames todo \<or>
      (\<exists>b rest n. todo = b # rest \<and> partly_read (framed b) n (c_rpdu c) \<and> n < length (framed b) \<and>
         inp = drop n (framed b) @ frames rest))))"

lemma stream_invI:
  assumes "\<not> c_dead c"
  shows "c_rpdu c = no_charbuf \<Longrightarrow> stream_inv (past @ todo) (c, frames todo, map framed past)"
    and "partly_read (framed b) n (c_rpdu c) \<Longrightarrow> n < length (framed b) \<Longrightarrow>
      stream_inv (past @ b # rest) (c, drop n (framed b) @ frames rest, map framed past)"
  using assms unfolding stream_inv_def prod.case by blast+

text \<open>After the reads of a callback: the message is handed over when it is complete.\<close>

lemma read_cb_delivers:
  assumes "\<not> c_dead c" "pdu_ok b" "partly_read (framed b) n p"
    and "(if cb_buf (c_rpdu c) = None \<or> cb_solong (c_rpdu c) < cb_sz (c_rpdu c)
        then readpdu g r1 r2 (c_again c) (c_rpdu c) else Some (True, c_again c, c_rpdu c)) = Some (True, e, p)"
  shows "read_cb collect g r1 r2 c D =
    Some (if n = length b then (c\<lparr>c_rpdu := no_charbuf, c_again := e\<rparr>, D @ [framed b])
          else (c\<lparr>c_rpdu := p, c_again := e\<rparr>, D))"
proof -
  note f = framed_simps [OF assms(2)]
  obtain blk where blk: "cb_buf p = Some blk" "take n blk = take n (framed b)"
    and p: "cb_sz p = int (length b)" "cb_solong p = int n"
    using assms(3) f(1) by (auto simp: partly_read_def)
  have "take (length b) blk = framed b" if "n = length b"
    using blk(2) that f(1) by simp
  then show ?thesis
    using assms(1) p blk(1) unfolding read_cb_def assms(4) by (simp add: collect_def)
qed

lemma stream_cb_eq:
  assumes "inp \<noteq> []" "\<not> c_dead c" "cb_sz (c_rpdu c) = 0 \<Longrightarrow> 4 \<le> k1 \<and> 4 \<le> length inp"
    and "word = (if cb_sz (c_rpdu c) = 0 then take 4 inp else [])" "inp' = drop (length word) inp" "bs = take (min k want) inp'"
    and "want = nat (if cb_sz (c_rpdu c) = 0 then sint (ntoh32 word) - 4
      else cb_sz (c_rpdu c) - cb_solong (c_rpdu c))"
    and "read_cb collect g (Got word) (if bs = [] then Fail True else Got bs) c D = Some x"
  shows "stream_cb g (k1, k) (c, inp, D) = Some (fst x, drop (length bs) inp', snd x)"
proof -
  have word: "(if cb_sz (c_rpdu c) = 0 then take (max 1 k1) (take 4 inp) else []) = word"
    using assms(3) unfolding assms(4) by (simp del: take_take One_nat_def add: le_max_iff_disj)
  have whole: "\<not> (cb_sz (c_rpdu c) = 0 \<and> length word \<noteq> 4)"
    using assms(3) unfolding assms(4) by auto
  have nonempty: "\<not> (inp = [] \<or> c_dead c)"
    using assms(1,2) by simp
  show ?thesis
    unfolding stream_cb_def prod.case Let_def if_not_P [OF nonempty] word if_not_P [OF whole]
      assms(5,7) [symmetric] assms(6) [symmetric] assms(8)
    by (simp add: split_def)
qed

text \<open>What a callback leaves: the message is complete, or read up to a later place.\<close>

lemma stream_inv_next:
  assumes "\<not> c_dead c" "pdu_ok b" "partly_read (framed b) n p"
  shows "stream_inv (past @ b # rest)
    (if n = length b then (c\<lparr>c_rpdu := no_charbuf, c_again := e\<rparr>, frames rest, map framed past @ [framed b])
     else (c\<lparr>c_rpdu := p, c_again := e\<rparr>, drop n (framed b) @ frames rest, map framed past))"
proof (cases "n = length b")
  case True
  then show ?thesis
    using stream_invI(1) [of "c\<lparr>c_rpdu := no_charbuf, c_again := e\<rparr>" "past @ [b]" rest] assms(1) by simp
next
  case False
  then have "n < length (framed b)"
    using assms(3) framed_simps(1) [OF assms(2)] by (auto simp: partly_read_def)
  with False assms(1,3) show ?thesis
    using stream_invI(2) [of "c\<lparr>c_rpdu := p, c_again := e\<rparr>" b n past rest] by simp
qed

text \<open>A callback that starts a message reads its length and as much of the rest as there is.\<close>

lemma stream_cb_starts:
  assumes "\<not> c_dead c" "c_rpdu c = no_charbuf" "pdu_ok b" "4 \<le> k1"
  shows "\<exists>s'. stream_cb g (k1, k) (c, frames (b # rest), map framed past) = Some s' \<and> stream_inv (past @ b # rest) s' \<and>
    length (fst (snd s')) < length (frames (b # rest))"
proof -
  let ?inp = "framed b @ frames rest" and ?D = "map framed past"
  note f = framed_simps [OF assms(3)]
  have len: "4 < length b"
    using assms(3) by (simp add: pdu_ok_def)
  have nonempty: "?inp \<noteq> []"
    using f(1) len by auto
  define bs where "bs = take (min k (length b - 4)) (drop 4 (framed b))"
  have word: "take 4 ?inp = be32 (word_of_nat (length b))" and rest: "drop 4 ?inp = drop 4 (framed b) @ frames rest"
    using f(1,2) len by simp_all
  have bs: "bs = take (min k (length b - 4)) (drop 4 ?inp)"
    using rest f(1) by (simp add: bs_def)
  obtain e p where p: "readpdu g (Got (be32 (word_of_nat (length b)))) (if bs = [] then Fail True else Got bs)
      (c_again c) no_charbuf = Some (True, e, p)" "partly_read (framed b) (4 + length bs) p"
    using readpdu_fresh [OF assms(3) bs_def] by blast
  have after: "drop (length bs) (drop 4 ?inp) = (if 4 + length bs = length b then frames rest
      else drop (4 + length bs) (framed b) @ frames rest)"
    unfolding rest bs_def using f(1) len by (simp add: add.commute)
  have want: "nat (int (length b) - 4) = length b - 4"
    using len by simp
  have "read_cb collect g (Got (take 4 ?inp)) (if bs = [] then Fail True else Got bs) c ?D = Some
      (if 4 + length bs = length b then (c\<lparr>c_rpdu := no_charbuf, c_again := e\<rparr>, ?D @ [framed b])
       else (c\<lparr>c_rpdu := p, c_again := e\<rparr>, ?D))"
    by (rule read_cb_delivers [OF assms(1,3) p(2)]) (use assms(2) p(1) word in \<open>simp add: no_charbuf_def\<close>)
  from stream_cb_eq [OF nonempty assms(1) _ _ _ bs _ this, of k1]
  have "stream_cb g (k1, k) (c, ?inp, ?D) = Some (if 4 + length bs = length b
      then (c\<lparr>c_rpdu := no_charbuf, c_again := e\<rparr>, frames rest, ?D @ [framed b])
      else (c\<lparr>c_rpdu := p, c_again := e\<rparr>, drop (4 + length bs) (framed b) @ frames rest, ?D))"
    using assms(2,4) f(1,3) len word(1) after want by (simp add: no_charbuf_def split: if_splits del: drop_append drop_drop)
  then show ?thesis
    using stream_inv_next [OF assms(1,3) p(2), of past rest e] f(1) len by (auto simp: frames_def)
qed

text \<open>A callback in the middle of a message reads on.\<close>

lemma stream_cb_reads_on:
  assumes "\<not> c_dead c" "partly_read (framed b) n (c_rpdu c)" "n < length (framed b)" "pdu_ok b"
  shows "\<exists>s'. stream_cb g (k1, k) (c, drop n (framed b) @ frames rest, map framed past) = Some s' \<and>
    stream_inv (past @ b # rest) s' \<and>
    length (fst (snd s')) < length (drop n (framed b) @ frames rest) + (if k = 0 then 1 else 0)"
proof -
  let ?inp = "drop n (framed b) @ frames rest" and ?D = "map framed past"
  note f = framed_simps [OF assms(4)] and n = assms(3)
  have p0: "cb_sz (c_rpdu c) = int (length b)" "cb_solong (c_rpdu c) = int n" "4 \<le> n"
    using assms(2) f(1) by (auto simp: partly_read_def)
  then have pos: "cb_sz (c_rpdu c) \<noteq> 0" "cb_solong (c_rpdu c) < cb_sz (c_rpdu c)" "b \<noteq> []"
    using n f(1) by auto
  have nonempty: "?inp \<noteq> []"
    using n by simp
  define bs where "bs = take (min k (length b - n)) (drop n (framed b))"
  have bs: "bs = take (min k (length b - n)) (drop (length []) ?inp)"
    using f(1) by (simp add: bs_def)
  obtain e p where p: "read_body (if bs = [] then Fail True else Got bs) (c_again c) (c_rpdu c) = Some (True, e, p)"
      "partly_read (framed b) (n + length bs) p"
    using read_body_partly [OF assms(2) bs_def] by blast
  have after: "drop (length bs) ?inp = (if n + length bs = length b then frames rest
      else drop (n + length bs) (framed b) @ frames rest)"
    unfolding bs_def using f(1) n by (simp add: add.commute)
  have "read_cb collect g (Got []) (if bs = [] then Fail True else Got bs) c ?D = Some
      (if n + length bs = length b then (c\<lparr>c_rpdu := no_charbuf, c_again := e\<rparr>, ?D @ [framed b])
       else (c\<lparr>c_rpdu := p, c_again := e\<rparr>, ?D))"
    by (rule read_cb_delivers [OF assms(1,4) p(2)]) (use p(1) pos in \<open>simp add: readpdu_def\<close>)
  from stream_cb_eq [OF nonempty assms(1) _ _ _ bs _ this, of k1]
  have "stream_cb g (k1, k) (c, ?inp, ?D) = Some (if n + length bs = length b
      then (c\<lparr>c_rpdu := no_charbuf, c_again := e\<rparr>, frames rest, ?D @ [framed b])
      else (c\<lparr>c_rpdu := p, c_again := e\<rparr>, drop (n + length bs) (framed b) @ frames rest, ?D))"
    using p0 n f(1) pos(3) after by (simp split: if_splits flip: of_nat_diff)
  moreover have "length b - (n + length bs) < length b - n" if "k \<noteq> 0"
    using that n f(1) by (simp add: bs_def)
  ultimately show ?thesis
    using stream_inv_next [OF assms(1,4) p(2), of past rest e] f(1) n by (cases "k = 0") auto
qed

text \<open>One callback keeps the invariant, and takes at least one byte from the socket.\<close>

lemma stream_cb_step:
  assumes "stream_inv ms (c, inp, D)" "\<forall>b \<in> set ms. pdu_ok b" "inp \<noteq> []" "cb_sz (c_rpdu c) = 0 \<Longrightarrow> 4 \<le> k1"
  shows "\<exists>s'. stream_cb g (k1, k) (c, inp, D) = Some s' \<and> stream_inv ms s' \<and>
    length (fst (snd s')) < length inp + (if k = 0 then 1 else 0)"
proof -
  obtain past todo where D: "\<not> c_dead c" "ms = past @ todo" "D = map framed past"
    and cs: "c_rpdu c = no_charbuf \<and> inp = frames todo \<or>
      (\<exists>b rest n. todo = b # rest \<and> partly_read (framed b) n (c_rpdu c) \<and> n < length (framed b) \<and>
         inp = drop n (framed b) @ frames rest)"
    using assms(1) unfolding stream_inv_def prod.case by blast
  from cs show ?thesis
  proof
    assume fresh: "c_rpdu c = no_charbuf \<and> inp = frames todo"
    then obtain b rest where "todo = b # rest"
      using assms(3) by (cases todo) (auto simp: frames_def)
    moreover have "4 \<le> k1"
      using assms(4) fresh by (simp add: no_charbuf_def)
    ultimately show ?thesis
      using stream_cb_starts [of c b k1 g k rest past] fresh D assms(2) by fastforce
  next
    assume "\<exists>b rest n. todo = b # rest \<and> partly_read (framed b) n (c_rpdu c) \<and> n < length (framed b) \<and>
         inp = drop n (framed b) @ frames rest"
    then show ?thesis
      using stream_cb_reads_on [OF D(1)] D(2,3) assms(2) by fastforce
  qed
qed

text \<open>A length word that comes in pieces ends the connection, with what was handed over before.\<close>

definition stream_over :: "u8 list list \<Rightarrow> connection \<times> u8 list \<times> u8 list list \<Rightarrow> bool" where
  "stream_over ms = (\<lambda>(c, inp, D). c_dead c \<and> (\<exists>past todo. ms = past @ todo \<and> D = map framed past))"

lemma stream_cb_split_word:
  assumes "stream_inv ms (c, inp, D)" "inp \<noteq> []" "cb_sz (c_rpdu c) = 0" "k1 < 4"
    and "\<forall>b \<in> set ms. pdu_ok b"
  shows "\<exists>s'. stream_cb g (k1, k) (c, inp, D) = Some s' \<and> stream_over ms s'"
proof -
  obtain past todo where D: "\<not> c_dead c" "ms = past @ todo" "D = map framed past"
    and cs: "c_rpdu c = no_charbuf \<and> inp = frames todo \<or>
      (\<exists>b rest n. todo = b # rest \<and> partly_read (framed b) n (c_rpdu c) \<and> n < length (framed b) \<and>
         inp = drop n (framed b) @ frames rest)"
    using assms(1) unfolding stream_inv_def prod.case by blast
  have fresh: "c_rpdu c = no_charbuf"
    using cs assms(3) by (auto simp: partly_read_def)
  let ?word = "take (max 1 k1) (take 4 inp)"
  have word: "0 < length ?word" "length ?word < 4"
    using assms(2,4) by (auto simp: min_def max_def)
  have "read_cb collect g (Got ?word) (Fail True) c D =
      Some (c\<lparr>c_watch_r := False, c_watch_w := False, c_dead := True\<rparr>, D)"
    by (rule split_word [OF D(1) fresh word])
  moreover have "\<not> (inp = [] \<or> c_dead c)" "cb_sz (c_rpdu c) = 0 \<and> length ?word \<noteq> 4"
    using assms(2,3) D(1) word(2) by simp_all
  ultimately have "stream_cb g (k1, k) (c, inp, D) =
      Some (c\<lparr>c_watch_r := False, c_watch_w := False, c_dead := True\<rparr>, drop (length ?word) inp, D)"
    unfolding stream_cb_def prod.case Let_def by (simp only: if_not_P if_P simp_thms) simp
  then show ?thesis
    using D(2,3) by (auto simp: stream_over_def)
qed

lemma stream_cb_idle: "inp = [] \<or> c_dead c \<Longrightarrow> stream_cb g k (c, inp, D) = Some (c, inp, D)"
  by (cases k) (auto simp: stream_cb_def)

lemma stream_inv_alive: "stream_inv ms (c, inp, D) \<Longrightarrow> \<not> c_dead c"
  by (simp add: stream_inv_def)

text \<open>Any run, and one in which every length word is read whole.\<close>

lemma stream_run_ok:
  assumes "stream_inv ms s \<or> stream_over ms s" "\<forall>b \<in> set ms. pdu_ok b"
  shows "\<exists>s'. stream_run g ks s = Some s' \<and> (stream_inv ms s' \<or> stream_over ms s')"
  using assms(1)
proof (induction ks arbitrary: s)
  case (Cons k ks)
  obtain c inp D k1 k2 where s: "s = (c, inp, D)" "k = (k1, k2)"
    by (cases s; cases k)
  have "\<exists>s'. stream_cb g k s = Some s' \<and> (stream_inv ms s' \<or> stream_over ms s')"
  proof (cases "inp = [] \<or> c_dead c")
    case True
    then show ?thesis
      using Cons.prems stream_cb_idle [OF True] s by simp
  next
    case False
    then have inv: "stream_inv ms (c, inp, D)"
      using Cons.prems s by (simp add: stream_over_def)
    show ?thesis
    proof (cases "cb_sz (c_rpdu c) = 0 \<and> k1 < 4")
      case True
      then show ?thesis
        using stream_cb_split_word [OF inv _ _ _ assms(2)] False s by blast
    next
      case False
      then show ?thesis
        using stream_cb_step [OF inv assms(2), of k1 g k2] \<open>\<not> (inp = [] \<or> c_dead c)\<close> s by force
    qed
  qed
  then show ?case
    using Cons.IH by auto
qed simp

lemma stream_run_inv:
  assumes "stream_inv ms s" "\<forall>b \<in> set ms. pdu_ok b" "words_whole ks"
  shows "\<exists>s'. stream_run g ks s = Some s' \<and> stream_inv ms s' \<and>
    length (fst (snd s')) \<le> length (fst (snd s)) - reads_done ks"
  using assms(1,3)
proof (induction ks arbitrary: s)
  case (Cons k ks)
  obtain c inp D k1 k2 where s: "s = (c, inp, D)" "k = (k1, k2)"
    by (cases s; cases k)
  have whole: "4 \<le> k1" "words_whole ks"
    using Cons.prems(2) s by (simp_all add: words_whole_def)
  obtain s' where s': "stream_cb g k s = Some s'" "stream_inv ms s'"
      "length (fst (snd s')) \<le> length inp - (if k2 = 0 then 0 else 1)"
  proof (cases "inp = []")
    case True
    then show ?thesis
      using that Cons.prems s by (simp add: stream_cb_idle)
  next
    case False
    then obtain s' where "stream_cb g (k1, k2) (c, inp, D) = Some s'" "stream_inv ms s'"
        "length (fst (snd s')) < length inp + (if k2 = 0 then 1 else 0)"
      using stream_cb_step [OF _ assms(2) False] Cons.prems(1) whole(1) s by blast
    then show ?thesis
      using that s by (cases "k2 = 0") simp_all
  qed
  obtain s'' where "stream_run g ks s' = Some s''" "stream_inv ms s''"
      "length (fst (snd s'')) \<le> length (fst (snd s')) - reads_done ks"
    using Cons.IH [OF s'(2) whole(2)] by blast
  with s s'(1,3) show ?case
    by (cases "k2 = 0") (auto simp: reads_done_def)
qed (simp add: reads_done_def)

lemma stream_inv_end:
  assumes "stream_inv ms (c, [], D)" "\<forall>b \<in> set ms. pdu_ok b"
  shows "D = map framed ms \<and> \<not> c_dead c"
proof -
  have no_frames: "todo = []" if "ms = past @ todo" "frames todo = []" for past todo
  proof (cases todo)
    case (Cons b rest)
    then show ?thesis
      using that assms(2) framed_simps(1) [of b] by (auto simp: frames_def pdu_ok_def)
  qed simp
  show ?thesis
    using assms(1) unfolding stream_inv_def prod.case by (auto dest: no_frames)
qed

lemma stream_inv_prefix:
  assumes "stream_inv ms (c, inp, D)"
  shows "\<not> c_dead c \<and> (\<exists>past todo. ms = past @ todo \<and> D = map framed past)"
  using assms unfolding stream_inv_def by blast

lemma stream_inv_start: "stream_inv ms (new_connection e, frames ms, [])"
  using stream_invI(1) [of "new_connection e" "[]" ms] by (simp add: new_connection_def)

lemma stream_reassembly:
  assumes "\<forall>b \<in> set ms. pdu_ok b"
  shows "\<exists>c inp D. stream_run g ks (new_connection e, frames ms, []) = Some (c, inp, D) \<and>
    (\<exists>past todo. ms = past @ todo \<and> D = map framed past) \<and>
    (words_whole ks \<longrightarrow> \<not> c_dead c \<and> (length (frames ms) \<le> reads_done ks \<longrightarrow> D = map framed ms))"
proof -
  obtain c inp D where run: "stream_run g ks (new_connection e, frames ms, []) = Some (c, inp, D)"
      "stream_inv ms (c, inp, D) \<or> stream_over ms (c, inp, D)"
    using stream_run_ok [OF _ assms, of "(new_connection e, frames ms, [])" g ks] stream_inv_start [of ms e] by auto
  have "\<exists>past todo. ms = past @ todo \<and> D = map framed past"
    using run(2) stream_inv_prefix [of ms c inp D] by (auto simp: stream_over_def)
  moreover have "\<not> c_dead c \<and> (length (frames ms) \<le> reads_done ks \<longrightarrow> D = map framed ms)" if "words_whole ks"
  proof -
    have inv: "stream_inv ms (c, inp, D)" and "length inp \<le> length (frames ms) - reads_done ks"
      using stream_run_inv [OF stream_inv_start assms that, of g e] run(1) by auto
    then show ?thesis
      using stream_inv_end [OF _ assms, of c D] stream_inv_alive [OF inv] by auto
  qed
  ultimately show ?thesis
    using run(1) by blast
qed

section \<open>Properties of reading\<close>

text \<open>
  C8. The byte stream is cut where it was put together: whatever pieces the kernel returns and
  however often a read would block, the callbacks hand over an initial part of the messages, each
  whole, once and in order. As long as no read of a length word returns only a part of it the
  connection stays alive, and once a callback per byte has read something, all messages were handed
  over; a length word in pieces closes the connection.
\<close>

theorem stream_reassembled:
  assumes "\<forall>b \<in> set ms. pdu_ok b"
  shows "\<exists>c inp D. stream_run g ks (new_connection e, frames ms, []) = Some (c, inp, D) \<and>
    (\<exists>past todo. ms = past @ todo \<and> D = map framed past) \<and>
    (words_whole ks \<longrightarrow> \<not> c_dead c \<and> (length (frames ms) \<le> reads_done ks \<longrightarrow> D = map framed ms))"
  using assms by (rule stream_reassembly)

theorem stream_reassembled_witness:
  "\<exists>c inp D. stream_run (\<lambda>_. 0) (replicate 14 (4, 3)) (new_connection False, frames [replicate 9 1, replicate 5 2], [])
      = Some (c, inp, D) \<and> \<not> c_dead c \<and> D = map framed [replicate 9 1, replicate 5 2]"
proof -
  have "words_whole (replicate 14 (4, 3))" "length (frames [replicate 9 1, replicate 5 2 :: u8 list]) \<le> reads_done (replicate 14 (4, 3))"
    by (simp_all add: words_whole_def reads_done_def frames_def framed_simps(1) pdu_ok_def MAX_PDU_def)
  then show ?thesis
    using stream_reassembled [of "[replicate 9 1, replicate 5 2]" "\<lambda>_. 0" "replicate 14 (4, 3)" False]
    by (simp add: pdu_ok_def MAX_PDU_def) blast
qed

text \<open>
  A length word below 4 is not rejected, and lets the peer write outside the block. A negative
  one fails an assertion or overruns the block at once. With 0 to 3 the size that is left, read as
  a \<open>size_t\<close>, is larger than any block, so all that has arrived is read: more bytes than the length
  word says overrun the block.
\<close>

definition read_size :: "charbuf \<Rightarrow> int" where
  "read_size p = uint (word_of_int (cb_sz p - cb_solong p) :: u64)"

lemma uint_size_t:
  assumes "- (2 ^ 63) \<le> x" "x < 0"
  shows "uint (word_of_int x :: u64) = x + 2 ^ 64"
proof -
  have "uint (word_of_int x :: u64) = (x + 2 ^ 64) mod 2 ^ 64"
    by (simp add: uint_word_of_int take_bit_eq_mod del: mod_add_self2) (metis mod_add_self2)
  also have "\<dots> = x + 2 ^ 64"
    using assms by (intro mod_pos_pos_trivial) simp_all
  finally show ?thesis .
qed

lemma pdu_block_negative:
  assumes "sz < 0" "- (2 ^ 31) \<le> sz"
  shows "(do { b \<leftarrow> pdu_block g sz; store_at 0 (be32 w) b }) = None"
proof -
  have n: "(word_of_int sz :: u64) + 4 = word_of_int (sz + 4)"
    by simp
  consider "sz < -4" | "-4 \<le> sz"
    by linarith
  then show ?thesis
  proof cases
    case 1
    then have "MAX_PDU + 4 < uint (word_of_int (sz + 4) :: u64)"
      using uint_size_t [of "sz + 4"] assms(2) by (simp add: MAX_PDU_def)
    then show ?thesis
      by (simp only: pdu_block_def n Let_def) simp
  next
    case 2
    then have "uint (word_of_int (sz + 4) :: u64) = sz + 4"
      using assms(1) by (simp only: uint_word_of_int take_bit_eq_mod) simp
    then show ?thesis
      using assms(1) by (simp only: pdu_block_def n Let_def unat_eq_nat_uint) (simp add: store_at_def MAX_PDU_def)
  qed
qed

theorem undersized_length_word:
  assumes "sint w < 4"
  shows "(if sint w < 0 then readpdu g (Got (be32 w)) r2 e no_charbuf = None
    else MAX_PDU + 4 < read_size \<lparr>cb_buf = Some b, cb_sz = sint w, cb_solong = 4\<rparr> \<and>
      (sint w < int (length bs) \<longrightarrow> readpdu g (Got (be32 w)) (Got bs) e no_charbuf = None))"
proof (cases "sint w < 0")
  case True
  have "- (2 ^ 31) \<le> sint w"
    using sint_ge [of w] by simp
  note neg = pdu_block_negative [OF True this, of g w]
  then show ?thesis
    using True by (auto simp: readpdu_def no_charbuf_def Let_def MAX_PDU_def split: Option.bind_splits)
next
  case False
  have "uint (word_of_int (sint w - 4) :: u64) = sint w - 4 + 2 ^ 64"
    by (rule uint_size_t) (use False assms in simp_all)
  then have "MAX_PDU + 4 < read_size \<lparr>cb_buf = Some b, cb_sz = sint w, cb_solong = 4\<rparr>"
    using False by (simp add: read_size_def MAX_PDU_def del: of_int_diff)
  moreover have "readpdu g (Got (be32 w)) (Got bs) e no_charbuf = None" if "sint w < int (length bs)"
  proof -
    have "bs \<noteq> []"
      using that False by auto
    then show ?thesis
      using that False assms pdu_block_ok [of "sint w" g]
      by (simp add: readpdu_def no_charbuf_def read_body_def store_at_def MAX_PDU_def Let_def)
  qed
  ultimately show ?thesis
    using False by simp
qed

theorem undersized_length_word_witness:
  "(if sint (2 :: u32) < 0 then readpdu (\<lambda>_. 0) (Got (be32 2)) Eof False no_charbuf = None
    else MAX_PDU + 4 < read_size \<lparr>cb_buf = Some [], cb_sz = sint (2 :: u32), cb_solong = 4\<rparr> \<and>
      (sint (2 :: u32) < int (length [1 :: u8, 1, 1]) \<longrightarrow>
        readpdu (\<lambda>_. 0) (Got (be32 2)) (Got [1, 1, 1]) False no_charbuf = None))"
  by (rule undersized_length_word) simp

text \<open>
  A message the manager does not take (the queue of the thread pool is full) is kept: the next
  callback reads nothing and offers the same bytes again.
\<close>

theorem rejected_message_kept:
  assumes "\<not> c_dead c" "cb_buf (c_rpdu c) = Some b" "cb_solong (c_rpdu c) = cb_sz (c_rpdu c)"
    and "got (take (nat (cb_sz (c_rpdu c))) b) m = Some (taken, m')"
  shows "read_cb got g r1 r2 c m = Some (if taken then c\<lparr>c_rpdu := no_charbuf\<rparr> else c, m')"
  using assms by (simp add: read_cb_def)

theorem rejected_message_kept_witness:
  "read_cb (\<lambda>b m. Some (False, m)) (\<lambda>_. 0) Eof Eof
      ((new_connection False)\<lparr>c_rpdu := \<lparr>cb_buf = Some (be32 5 @ [1, 0, 0, 0, 0]), cb_sz = 5, cb_solong = 5\<rparr>\<rparr>) ()
    = Some (if False then ((new_connection False)\<lparr>c_rpdu := \<lparr>cb_buf = Some (be32 5 @ [1, 0, 0, 0, 0]), cb_sz = 5,
          cb_solong = 5\<rparr>\<rparr>)\<lparr>c_rpdu := no_charbuf\<rparr>
        else (new_connection False)\<lparr>c_rpdu := \<lparr>cb_buf = Some (be32 5 @ [1, 0, 0, 0, 0]), cb_sz = 5, cb_solong = 5\<rparr>\<rparr>, ())"
  by (rule rejected_message_kept) (simp_all add: new_connection_def)

text \<open>
  A length word that arrives in two pieces ends the connection: the reader takes fewer than four
  bytes for an error, although the stream is in order.
\<close>

theorem split_length_word_closes:
  assumes "\<not> c_dead c" "c_rpdu c = no_charbuf" "0 < length bs" "length bs < 4"
  shows "read_cb got g (Got bs) r2 c m = Some (c\<lparr>c_watch_r := False, c_watch_w := False, c_dead := True\<rparr>, m)"
  by (rule split_word [OF assms])

theorem split_length_word_closes_witness:
  "read_cb collect (\<lambda>_. 0) (Got (take 2 (frames [replicate 9 1]))) Eof (new_connection False) [] =
    Some ((new_connection False)\<lparr>c_watch_r := False, c_watch_w := False, c_dead := True\<rparr>, [])"
  by (rule split_length_word_closes)
    (simp_all add: new_connection_def frames_def framed_be32 overwrite_def)

text \<open>
  The peer closes in the middle of a message, and the last error in this thread was \<open>EAGAIN\<close>: the
  end of the stream is taken for a read that would block. Nothing changes, the socket stays readable,
  and the callback is called again and again.
\<close>

theorem eof_with_stale_errno_ignored:
  assumes "\<not> c_dead c" "c_again c" "cb_sz (c_rpdu c) \<noteq> 0" "cb_solong (c_rpdu c) < cb_sz (c_rpdu c)"
  shows "read_cb got g r1 Eof c m = Some (c, m)"
  using assms by (cases c) (simp add: read_cb_def readpdu_def read_body_def Let_def split: option.split)

theorem eof_with_stale_errno_ignored_witness:
  "read_cb collect (\<lambda>_. 0) Eof Eof ((new_connection True)\<lparr>c_rpdu := \<lparr>cb_buf = Some (be32 9 @ replicate 9 0),
      cb_sz = 9, cb_solong = 4\<rparr>\<rparr>) [] =
    Some ((new_connection True)\<lparr>c_rpdu := \<lparr>cb_buf = Some (be32 9 @ replicate 9 0), cb_sz = 9, cb_solong = 4\<rparr>\<rparr>, [])"
  by (rule eof_with_stale_errno_ignored) (simp_all add: new_connection_def)

end
