(* ===== verification/Connection_Send.thy ===== *)
theory Connection_Send
  imports Connection_IO
begin

text \<open>
  \<open>connection::send\<close> and \<open>closeconn\<close> (\<open>rpc/connection.cc\<close>) under any interleaving of the threads
  that send on a connection, the thread of the poll manager, and a thread that closes it. The mutex
  \<open>m_\<close> makes a section atomic; \<open>send\<close> is cut where it waits on a condition variable or gives the
  mutex up.
\<close>

section \<open>The sections of send\<close>

text \<open>
  Where a thread is: outside, in the wait for the connection to be free and after it, in the wait for
  its message to be written and after it, or in \<open>block_remove_fd\<close> after a failure.
\<close>

datatype sender =
    Out
  | Queued "u8 list"
  | Ready "u8 list"
  | Owner "u8 list"
  | Resumed "u8 list"
  | Removing "u8 list"

datatype send_next = Quits | Returns bool | Removes | Waits

definition send_blocked :: "connection \<Rightarrow> bool" where
  "send_blocked c \<longleftrightarrow> \<not> c_dead c \<and> cb_buf (c_wpdu c) \<noteq> None"

definition send_pending :: "connection \<Rightarrow> bool" where
  "send_pending c \<longleftrightarrow> \<not> c_dead c \<and> 0 \<le> cb_solong (c_wpdu c) \<and> cb_solong (c_wpdu c) < cb_sz (c_wpdu c)"

text \<open>The end of \<open>send\<close>: its result, and the connection is free.\<close>

definition send_finish :: "connection \<Rightarrow> bool \<times> connection" where
  "send_finish c = (\<not> c_dead c \<and> cb_solong (c_wpdu c) = cb_sz (c_wpdu c), c\<lparr>c_wpdu := no_charbuf\<rparr>)"

text \<open>What follows the first wait, up to the second; \<open>r\<close> is the outcome of the \<open>write\<close>.\<close>

definition send_start :: "u8 list \<Rightarrow> write_result \<Rightarrow> connection \<Rightarrow> (send_next \<times> connection) option" where
  "send_start b r c =
     (if c_dead c then Some (Quits, c)
      else do {
        (ok, c) \<leftarrow> writepdu r (c\<lparr>c_wpdu := \<lparr>cb_buf = Some b, cb_sz = int (length b), cb_solong = 0\<rparr>\<rparr>);
        Some (if \<not> ok then (Removes, c\<lparr>c_dead := True\<rparr>)
              else if cb_solong (c_wpdu c) = cb_sz (c_wpdu c)
              then (case send_finish c of (ret, c) \<Rightarrow> (Returns ret, c))
              else (Waits, c\<lparr>c_watch_w := True\<rparr>))
      })"

text \<open>\<open>closeconn\<close> up to the end of its critical section, and the poll manager's part of it.\<close>

definition close_mark :: "connection \<Rightarrow> connection" where
  "close_mark c = c\<lparr>c_dead := True\<rparr>"

definition close_unwatch :: "connection \<Rightarrow> connection" where
  "close_unwatch c = c\<lparr>c_watch_r := False, c_watch_w := False\<rparr>"

section \<open>The system\<close>

text \<open>\<open>sy_log\<close> lists the messages whose \<open>send\<close> returned true, in the order of the returns.\<close>

record send_sys =
  sy_conn :: connection
  sy_thr :: "nat \<Rightarrow> sender"
  sy_log :: "u8 list list"

definition init_send :: "bool \<Rightarrow> send_sys" where
  "init_send e = \<lparr>sy_conn = new_connection e, sy_thr = (\<lambda>_. Out), sy_log = []\<rparr>"

fun wake_queued :: "sender \<Rightarrow> sender" where
  "wake_queued (Queued b) = Ready b"
| "wake_queued s = s"

fun wake_owner :: "sender \<Rightarrow> sender" where
  "wake_owner (Owner b) = Resumed b"
| "wake_owner s = s"

text \<open>Thread \<open>t\<close> gives the connection back: the waiters are woken, if there are any, and the result is logged.\<close>

definition leave :: "nat \<Rightarrow> u8 list \<Rightarrow> bool \<Rightarrow> connection \<Rightarrow> send_sys \<Rightarrow> send_sys" where
  "leave t b ret c s =
     s\<lparr>sy_conn := c,
       sy_thr := (if 0 < c_waiters c then wake_queued \<circ> (sy_thr s)(t := Out) else (sy_thr s)(t := Out)),
       sy_log := (if ret then sy_log s @ [b] else sy_log s)\<rparr>"

definition proceed :: "nat \<Rightarrow> u8 list \<Rightarrow> send_next \<Rightarrow> connection \<Rightarrow> send_sys \<Rightarrow> send_sys" where
  "proceed t b nx c s =
     (case nx of
        Quits \<Rightarrow> s\<lparr>sy_conn := c, sy_thr := (sy_thr s)(t := Out)\<rparr>
      | Returns ret \<Rightarrow> leave t b ret c s
      | Removes \<Rightarrow> s\<lparr>sy_conn := c, sy_thr := (sy_thr s)(t := Removing b)\<rparr>
      | Waits \<Rightarrow> s\<lparr>sy_conn := c, sy_thr := (sy_thr s)(t := Owner b)\<rparr>)"

text \<open>A \<open>write\<close> takes no more than it is given.\<close>

definition fits_write :: "write_result \<Rightarrow> int \<Rightarrow> bool" where
  "fits_write r n \<longleftrightarrow> (case r of Wrote k \<Rightarrow> int k \<le> n | Refused a \<Rightarrow> True)"

definition add_waiter :: "connection \<Rightarrow> connection" where
  "add_waiter c = c\<lparr>c_waiters := c_waiters c + 1\<rparr>"

definition drop_waiter :: "connection \<Rightarrow> connection" where
  "drop_waiter c = c\<lparr>c_waiters := c_waiters c - 1\<rparr>"

inductive send_step :: "send_sys \<Rightarrow> send_sys \<Rightarrow> bool" where
  enter_wait:
  "sy_thr s t = Out \<Longrightarrow> pdu_ok b \<Longrightarrow> send_blocked (sy_conn s) \<Longrightarrow>
   send_step s (s\<lparr>sy_conn := add_waiter (sy_conn s), sy_thr := (sy_thr s)(t := Queued b)\<rparr>)"
| enter_go:
  "sy_thr s t = Out \<Longrightarrow> pdu_ok b \<Longrightarrow> \<not> send_blocked (sy_conn s) \<Longrightarrow> fits_write r (int (length b)) \<Longrightarrow>
   send_start b r (sy_conn s) = Some (nx, c) \<Longrightarrow> send_step s (proceed t b nx c s)"
| wake_wait:
  "sy_thr s t = Queued b \<Longrightarrow> send_step s (s\<lparr>sy_thr := (sy_thr s)(t := Ready b)\<rparr>)"
| retry_wait:
  "sy_thr s t = Ready b \<Longrightarrow> send_blocked (sy_conn s) \<Longrightarrow>
   send_step s (s\<lparr>sy_thr := (sy_thr s)(t := Queued b)\<rparr>)"
| retry_go:
  "sy_thr s t = Ready b \<Longrightarrow> \<not> send_blocked (sy_conn s) \<Longrightarrow> fits_write r (int (length b)) \<Longrightarrow>
   send_start b r (drop_waiter (sy_conn s)) = Some (nx, c) \<Longrightarrow> send_step s (proceed t b nx c s)"
| writable:
  "c_watch_w (sy_conn s) \<Longrightarrow>
   fits_write r (cb_sz (c_wpdu (sy_conn s)) - cb_solong (c_wpdu (sy_conn s))) \<Longrightarrow>
   write_cb r (sy_conn s) = Some (sig, c) \<Longrightarrow>
   send_step s (s\<lparr>sy_conn := c, sy_thr := (if sig then wake_owner \<circ> sy_thr s else sy_thr s)\<rparr>)"
| wake_owner:
  "sy_thr s t = Owner b \<Longrightarrow> send_step s (s\<lparr>sy_thr := (sy_thr s)(t := Resumed b)\<rparr>)"
| resume_wait:
  "sy_thr s t = Resumed b \<Longrightarrow> send_pending (sy_conn s) \<Longrightarrow>
   send_step s (s\<lparr>sy_thr := (sy_thr s)(t := Owner b)\<rparr>)"
| resume_finish:
  "sy_thr s t = Resumed b \<Longrightarrow> \<not> send_pending (sy_conn s) \<Longrightarrow> send_finish (sy_conn s) = (ret, c) \<Longrightarrow>
   send_step s (leave t b ret c s)"
| removed:
  "sy_thr s t = Removing b \<Longrightarrow> send_finish (close_unwatch (sy_conn s)) = (ret, c) \<Longrightarrow>
   send_step s (leave t b ret c s)"
| read_fails:
  "\<not> c_dead (sy_conn s) \<Longrightarrow>
   send_step s (s\<lparr>sy_conn := close_unwatch (close_mark (sy_conn s)), sy_thr := wake_owner \<circ> sy_thr s\<rparr>)"
| close_begin: "\<not> c_dead (sy_conn s) \<Longrightarrow> send_step s (s\<lparr>sy_conn := close_mark (sy_conn s)\<rparr>)"
| close_end: "c_dead (sy_conn s) \<Longrightarrow> send_step s (s\<lparr>sy_conn := close_unwatch (sy_conn s)\<rparr>)"

inductive_cases send_stepE: "send_step s s'"

inductive send_reach :: "bool \<Rightarrow> send_sys \<Rightarrow> bool" for e where
  start: "send_reach e (init_send e)"
| step: "send_reach e s \<Longrightarrow> send_step s s' \<Longrightarrow> send_reach e s'"

section \<open>Invariant\<close>

text \<open>The message a thread owns the connection with.\<close>

fun owned :: "sender \<Rightarrow> u8 list option" where
  "owned (Owner b) = Some b"
| "owned (Resumed b) = Some b"
| "owned (Removing b) = Some b"
| "owned s = None"

fun queued :: "sender \<Rightarrow> bool" where
  "queued (Queued b) = True"
| "queued (Ready b) = True"
| "queued s = False"

text \<open>\<open>n\<close> bytes of the message \<open>b\<close> are on the wire; the length word is stored by the first write.\<close>

definition wpdu_at :: "u8 list \<Rightarrow> nat \<Rightarrow> charbuf \<Rightarrow> bool" where
  "wpdu_at b n p \<longleftrightarrow> n \<le> length b \<and> cb_sz p = int (length b) \<and> cb_solong p = int n \<and>
     (cb_buf p = Some (framed b) \<or> n = 0 \<and> cb_buf p = Some b)"

definition write_failed :: "charbuf \<Rightarrow> bool" where
  "write_failed p \<longleftrightarrow> cb_buf p \<noteq> None \<and> cb_sz p = 0 \<and> cb_solong p = -1"

definition sending :: "u8 list \<Rightarrow> u8 list list \<Rightarrow> connection \<Rightarrow> bool" where
  "sending b log c \<longleftrightarrow> (\<exists>n. c_out c = frames log @ take n (framed b) \<and>
     (wpdu_at b n (c_wpdu c) \<or> c_dead c \<and> write_failed (c_wpdu c)))"

lemma frames_append [simp]: "frames (ms @ ns) = frames ms @ frames ns" "frames [b] = framed b"
  by (simp_all add: frames_def)

lemma writepdu_sending:
  assumes "wpdu_at b n (c_wpdu c)" "pdu_ok b" "n < length b" "fits_write r (int (length b) - int n)"
    and out: "c_out c = o1 @ take n (framed b)"
  shows "\<exists>ok n' p. writepdu r c = Some (ok, c\<lparr>c_wpdu := p, c_out := o1 @ take n' (framed b)\<rparr>) \<and>
    (if ok then wpdu_at b n' p else write_failed p)"
proof -
  note f = framed_simps [OF assms(2)]
  have len: "4 < length b"
    using assms(2) by (simp add: pdu_ok_def)
  have p: "cb_sz (c_wpdu c) = int (length b)" "cb_solong (c_wpdu c) = int n"
      "cb_buf (c_wpdu c) = Some (framed b) \<or> n = 0 \<and> cb_buf (c_wpdu c) = Some b"
    using assms(1) by (auto simp: wpdu_at_def)
  have idem: "overwrite (framed b) 0 (be32 (word_of_nat (length b))) = framed b"
    using len by (simp add: framed_be32 overwrite_def)
  have store: "(do { x \<leftarrow> cb_buf (c_wpdu c);
      if cb_solong (c_wpdu c) = 0 then store_at 0 (be32 (word_of_int (cb_sz (c_wpdu c)))) x else Some x })
      = Some (framed b)"
    using p len idem f(1) by (auto simp: store_at_def framed_be32)
  let ?p = "(c_wpdu c)\<lparr>cb_buf := Some (framed b)\<rparr>"
  have run: "writepdu r c = (case r of
      Refused again \<Rightarrow> Some (again, c\<lparr>c_wpdu := (if again then ?p else ?p\<lparr>cb_solong := -1, cb_sz := 0\<rparr>)\<rparr>)
    | Wrote k \<Rightarrow> Some (True, c\<lparr>c_out := c_out c @ take k (drop n (framed b)),
         c_wpdu := ?p\<lparr>cb_solong := int n + int k\<rparr>\<rparr>))"
    using p assms(3) store unfolding writepdu_def Let_def by (auto split: write_result.splits Option.bind_splits)
  show ?thesis
  proof (cases r)
    case (Wrote k)
    then have "n + k \<le> length b"
      using assms(3,4) by (simp add: fits_write_def)
    then have "wpdu_at b (n + k) (?p\<lparr>cb_solong := int n + int k\<rparr>)"
      using p by (simp add: wpdu_at_def)
    moreover have "c_out c @ take k (drop n (framed b)) = o1 @ take (n + k) (framed b)"
      using out by (simp add: take_add)
    ultimately show ?thesis
      using run Wrote by (intro exI [of _ True] exI [of _ "n + k"] exI) auto
  next
    case (Refused a)
    have "wpdu_at b n ?p" "write_failed (?p\<lparr>cb_solong := -1, cb_sz := 0\<rparr>)"
      using p assms(3) by (auto simp: wpdu_at_def write_failed_def)
    moreover have "c\<lparr>c_wpdu := q\<rparr> = c\<lparr>c_wpdu := q, c_out := o1 @ take n (framed b)\<rparr>" for q
      using out by (cases c) simp
    ultimately show ?thesis
      using run Refused by (intro exI [of _ a] exI [of _ n] exI [of _ "if a then ?p else ?p\<lparr>cb_solong := -1, cb_sz := 0\<rparr>"]) simp
  qed
qed

text \<open>What the first part of \<open>send\<close> leaves, on a free connection.\<close>

lemma send_start_spec:
  assumes "send_start b r c = Some (nx, c')" "pdu_ok b" "fits_write r (int (length b))" "\<not> c_dead c"
    and "c_out c = frames log"
  shows "c_waiters c' = c_waiters c \<and>
    (case nx of
       Quits \<Rightarrow> False
     | Returns ret \<Rightarrow> ret \<and> c_wpdu c' = no_charbuf \<and> c_out c' = frames (log @ [b]) \<and> \<not> c_dead c'
     | Removes \<Rightarrow> c_dead c' \<and> sending b log c'
     | Waits \<Rightarrow> sending b log c')"
proof -
  let ?c = "c\<lparr>c_wpdu := \<lparr>cb_buf = Some b, cb_sz = int (length b), cb_solong = 0\<rparr>\<rparr>"
  have at0: "wpdu_at b 0 (c_wpdu ?c)"
    by (simp add: wpdu_at_def)
  have len: "0 < length b"
    using assms(2) by (auto simp: pdu_ok_def)
  obtain ok n p where w: "writepdu r ?c = Some (ok, ?c\<lparr>c_wpdu := p, c_out := frames log @ take n (framed b)\<rparr>)"
      "if ok then wpdu_at b n p else write_failed p"
    using writepdu_sending [OF at0 assms(2) len, of r "frames log"] assms(3,5) by auto
  show ?thesis
  proof (cases ok)
    case False
    then show ?thesis
      using w assms(1,4) by (auto simp: send_start_def sending_def)
  next
    case True
    with w(2) have at: "wpdu_at b n p"
      by simp
    then have "take n (framed b) = framed b" if "cb_solong p = cb_sz p"
      using that framed_simps(1) [OF assms(2)] by (simp add: wpdu_at_def)
    with at w(1) True assms(1,4) show ?thesis
      by (auto simp: send_start_def sending_def send_finish_def split: if_splits)
  qed
qed

definition waiting :: "(nat \<Rightarrow> sender) \<Rightarrow> nat set" where
  "waiting th = {t. queued (th t)}"

lemma waiting_simps [simp]:
  "waiting (th(t := x)) = (if queued x then insert t (waiting th) else waiting th - {t})"
  "waiting (wake_queued \<circ> th) = waiting th" "waiting (wake_owner \<circ> th) = waiting th"
  "t \<in> waiting th \<longleftrightarrow> queued (th t)"
proof -
  have "queued (wake_queued x) = queued x" "queued (wake_owner x) = queued x" for x
    by (cases x; simp)+
  then show "waiting (th(t := x)) = (if queued x then insert t (waiting th) else waiting th - {t})"
    "waiting (wake_queued \<circ> th) = waiting th" "waiting (wake_owner \<circ> th) = waiting th"
    "t \<in> waiting th \<longleftrightarrow> queued (th t)"
    by (auto simp: waiting_def)
qed

lemma owned_wake [simp]: "owned (wake_queued x) = owned x" "owned (wake_owner x) = owned x"
  by (cases x; simp)+

lemma wake_eq [simp]:
  "wake_queued x = Queued b \<longleftrightarrow> False" "wake_queued x = Ready b \<longleftrightarrow> x = Queued b \<or> x = Ready b"
  "wake_queued x = Removing b \<longleftrightarrow> x = Removing b"
  "wake_owner x = Queued b \<longleftrightarrow> x = Queued b" "wake_owner x = Ready b \<longleftrightarrow> x = Ready b"
  "wake_owner x = Removing b \<longleftrightarrow> x = Removing b"
  by (cases x; auto)+

definition free_ok :: "send_sys \<Rightarrow> bool" where
  "free_ok s \<longleftrightarrow> c_wpdu (sy_conn s) = no_charbuf \<and> (\<forall>t b. sy_thr s t \<noteq> Queued b) \<and>
     (\<exists>b n. c_out (sy_conn s) = frames (sy_log s) @ take n (framed b)) \<and>
     (\<not> c_dead (sy_conn s) \<longrightarrow> c_out (sy_conn s) = frames (sy_log s))"

text \<open>
  The connection is owned by at most one thread, whose message is the one that is being written; a
  free connection leaves nobody waiting; \<open>waiters_\<close> counts the threads in the first wait.
\<close>

definition send_inv :: "send_sys \<Rightarrow> bool" where
  "send_inv s \<longleftrightarrow>
     (finite (waiting (sy_thr s)) \<and> c_waiters (sy_conn s) = card (waiting (sy_thr s))) \<and>
     (\<forall>t b. sy_thr s t = Queued b \<or> sy_thr s t = Ready b \<longrightarrow> pdu_ok b) \<and>
     (\<forall>t b. sy_thr s t = Removing b \<longrightarrow> c_dead (sy_conn s)) \<and>
     (\<forall>t b. owned (sy_thr s t) = Some b \<longrightarrow> pdu_ok b \<and> sending b (sy_log s) (sy_conn s) \<and>
        (\<forall>t'. owned (sy_thr s t') \<noteq> None \<longrightarrow> t' = t)) \<and>
     ((\<forall>t. owned (sy_thr s t) = None) \<longrightarrow> free_ok s)"

lemma send_invI:
  assumes "finite (waiting (sy_thr s))" "c_waiters (sy_conn s) = card (waiting (sy_thr s))"
    and "\<And>t b. sy_thr s t = Queued b \<or> sy_thr s t = Ready b \<Longrightarrow> pdu_ok b"
    and "\<And>t b. sy_thr s t = Removing b \<Longrightarrow> c_dead (sy_conn s)"
    and "\<And>t b. owned (sy_thr s t) = Some b \<Longrightarrow> pdu_ok b \<and> sending b (sy_log s) (sy_conn s) \<and>
        (\<forall>t'. owned (sy_thr s t') \<noteq> None \<longrightarrow> t' = t)"
    and "(\<And>t. owned (sy_thr s t) = None) \<Longrightarrow> free_ok s"
  shows "send_inv s"
  using assms unfolding send_inv_def by blast

lemma send_invD:
  assumes "send_inv s"
  shows "finite (waiting (sy_thr s))" "c_waiters (sy_conn s) = card (waiting (sy_thr s))"
    "sy_thr s t = Queued b \<or> sy_thr s t = Ready b \<Longrightarrow> pdu_ok b"
    "sy_thr s t = Removing b \<Longrightarrow> c_dead (sy_conn s)"
    "owned (sy_thr s t) = Some b \<Longrightarrow> pdu_ok b"
    "owned (sy_thr s t) = Some b \<Longrightarrow> sending b (sy_log s) (sy_conn s)"
    "owned (sy_thr s t) = Some b \<Longrightarrow> owned (sy_thr s t') \<noteq> None \<Longrightarrow> t' = t"
    "(\<And>t. owned (sy_thr s t) = None) \<Longrightarrow> free_ok s"
  using assms unfolding send_inv_def by blast+

lemma sending_buf: "sending b log c \<Longrightarrow> cb_buf (c_wpdu c) \<noteq> None"
  by (auto simp: sending_def wpdu_at_def write_failed_def)

lemma sending_dead [simp]: "sending b log c \<Longrightarrow> sending b log (c\<lparr>c_dead := True\<rparr>)"
  by (auto simp: sending_def)

lemma sending_other [simp]:
  "sending b log (c\<lparr>c_waiters := w\<rparr>) = sending b log c" "sending b log (c\<lparr>c_watch_r := x\<rparr>) = sending b log c"
  "sending b log (c\<lparr>c_watch_w := x\<rparr>) = sending b log c"
  by (simp_all add: sending_def)

text \<open>A connection that is not blocked is dead or free.\<close>

lemma free_no_owner:
  assumes "send_inv s" "\<not> send_blocked (sy_conn s)" "\<not> c_dead (sy_conn s)"
  shows "owned (sy_thr s t) = None" "free_ok s"
proof -
  have none: "owned (sy_thr s t) = None" for t
  proof (cases "owned (sy_thr s t)")
    case (Some b)
    then show ?thesis
      using sending_buf [OF send_invD(6) [OF assms(1) Some]] assms(2,3) by (simp add: send_blocked_def)
  qed simp
  then show "owned (sy_thr s t) = None" "free_ok s"
    using send_invD(8) [OF assms(1)] by blast+
qed

text \<open>A thread leaves, and nobody else owns the connection.\<close>

lemma leave_inv:
  assumes inv: "send_inv s" and "c_wpdu c = no_charbuf" "\<And>t'. t' \<noteq> t \<Longrightarrow> owned (sy_thr s t') = None"
    and "c_waiters c = card (waiting (sy_thr s) - {t})"
    and out: "\<exists>b' n. c_out c = frames (if ret then sy_log s @ [b] else sy_log s) @ take n (framed b')"
    and "\<not> c_dead c \<Longrightarrow> c_out c = frames (if ret then sy_log s @ [b] else sy_log s)"
  shows "send_inv (leave t b ret c s)"
proof -
  let ?th = "sy_thr (leave t b ret c s)"
  have th: "?th = (if 0 < c_waiters c then wake_queued \<circ> (sy_thr s)(t := Out) else (sy_thr s)(t := Out))"
    by (simp add: leave_def)
  have fin: "finite (waiting (sy_thr s))"
    by (rule send_invD(1) [OF inv])
  have none: "owned (?th t') = None" for t'
    using assms(3) [of t'] by (simp add: th)
  have "sy_thr s t' \<noteq> Queued b'" if "c_waiters c = 0" "t' \<noteq> t" for t' b'
  proof -
    have "waiting (sy_thr s) - {t} = {}"
      using that(1) assms(4) fin by simp
    then have "t' \<notin> waiting (sy_thr s)"
      using that(2) by blast
    then show ?thesis
      by auto
  qed
  then have "?th t' \<noteq> Queued b'" for t' b'
    by (cases "t' = t") (auto simp: th)
  then have "free_ok (leave t b ret c s)"
    using assms(2,6) out by (simp add: free_ok_def) (simp add: leave_def)
  moreover have "waiting ?th = waiting (sy_thr s) - {t}"
    by (simp add: th)
  moreover have "pdu_ok b'" if "?th t' = Queued b' \<or> ?th t' = Ready b'" for t' b'
    using that send_invD(3) [OF inv, of t' b'] by (auto simp: th split: if_splits)
  moreover have "?th t' \<noteq> Removing b'" for t' b'
    using none [of t'] by auto
  ultimately show ?thesis
    using fin assms(4) none by (intro send_invI) (auto, simp_all add: leave_def)
qed

lemma drop_waiter_simps [simp]:
  "c_dead (drop_waiter c) = c_dead c" "c_out (drop_waiter c) = c_out c" "c_wpdu (drop_waiter c) = c_wpdu c"
  "c_waiters (drop_waiter c) = c_waiters c - 1"
  by (simp_all add: drop_waiter_def)

text \<open>A thread takes the free connection.\<close>

lemma own_inv:
  assumes inv: "send_inv s" and none: "\<And>t. owned (sy_thr s t) = None" and x: "owned x = Some b"
    and b: "pdu_ok b" and "sending b (sy_log s) c" "\<And>b'. x = Removing b' \<Longrightarrow> c_dead c"
    and "c_waiters c = card (waiting (sy_thr s) - {t})"
  shows "send_inv (s\<lparr>sy_conn := c, sy_thr := (sy_thr s)(t := x)\<rparr>)"
proof -
  let ?s = "s\<lparr>sy_conn := c, sy_thr := (sy_thr s)(t := x)\<rparr>"
  have q: "\<not> queued x"
    using x by (cases x) simp_all
  show ?thesis
  proof (rule send_invI)
    show "pdu_ok b'" if "sy_thr ?s t' = Queued b' \<or> sy_thr ?s t' = Ready b'" for t' b'
      using that send_invD(3) [OF inv, of t' b'] q by (auto split: if_splits)
    show "pdu_ok b' \<and> sending b' (sy_log ?s) (sy_conn ?s) \<and> (\<forall>t''. owned (sy_thr ?s t'') \<noteq> None \<longrightarrow> t'' = t')"
      if "owned (sy_thr ?s t') = Some b'" for t' b'
      using that none x b assms(5) by (auto split: if_splits)
    show "c_dead (sy_conn ?s)" if "sy_thr ?s t' = Removing b'" for t' b'
      using that none [of t'] assms(6) by (auto split: if_splits)
    show "free_ok ?s" if "\<And>t'. owned (sy_thr ?s t') = None"
      using that [of t] x by simp
  qed (use send_invD(1) [OF inv] q assms(7) in auto)
qed

text \<open>A thread that is not the owner goes on after the first wait.\<close>

lemma proceed_inv:
  assumes inv: "send_inv s" and free: "\<not> send_blocked (sy_conn s)" and "pdu_ok b" "fits_write r (int (length b))"
    and go: "send_start b r c0 = Some (nx, c)" and t: "owned (sy_thr s t) = None"
    and c0: "c_dead c0 = c_dead (sy_conn s)" "c_out c0 = c_out (sy_conn s)" "c_wpdu c0 = c_wpdu (sy_conn s)"
      "c_waiters c0 = card (waiting (sy_thr s) - {t})"
  shows "send_inv (proceed t b nx c s)"
proof (cases "c_dead (sy_conn s)")
  case True
  then have nx: "nx = Quits" "c = c0"
    using go c0(1) by (simp_all add: send_start_def)
  let ?s = "s\<lparr>sy_conn := c0, sy_thr := (sy_thr s)(t := Out)\<rparr>"
  have "send_inv ?s"
  proof (rule send_invI)
    show "pdu_ok b'" if "sy_thr ?s t' = Queued b' \<or> sy_thr ?s t' = Ready b'" for t' b'
      using that send_invD(3) [OF inv, of t' b'] by (auto split: if_splits)
    show "pdu_ok b' \<and> sending b' (sy_log ?s) (sy_conn ?s) \<and> (\<forall>t''. owned (sy_thr ?s t'') \<noteq> None \<longrightarrow> t'' = t')"
      if "owned (sy_thr ?s t') = Some b'" for t' b'
      using that send_invD(5-7) [OF inv, of t' b'] c0 by (auto simp: sending_def split: if_splits)
    show "free_ok ?s" if "\<And>t'. owned (sy_thr ?s t') = None"
    proof -
      have "owned (sy_thr s t') = None" for t'
        using that [of t'] t by (simp split: if_splits)
      then show ?thesis
        using send_invD(8) [OF inv] c0 by (simp add: free_ok_def)
    qed
  qed (use send_invD(1) [OF inv] c0 True in auto)
  with nx show ?thesis
    by (simp add: proceed_def)
next
  case False
  note none = free_no_owner(1) [OF inv free False]
  have f: "free_ok s"
    by (rule free_no_owner(2) [OF inv free False])
  have out: "c_out c0 = frames (sy_log s)"
    using f False c0(2) by (simp add: free_ok_def)
  have alive: "\<not> c_dead c0"
    using False c0(1) by simp
  note spec = send_start_spec [OF go assms(3,4) alive out]
  show ?thesis
  proof (cases nx)
    case Quits
    with spec show ?thesis
      by simp
  next
    case (Returns ret)
    with spec c0(4) have "send_inv (leave t b ret c s)"
      by (intro leave_inv [OF inv] none) (auto intro: exI [of _ b] exI [of _ 0])
    with Returns show ?thesis
      by (simp add: proceed_def)
  next
    case Removes
    have "send_inv (s\<lparr>sy_conn := c, sy_thr := (sy_thr s)(t := Removing b)\<rparr>)"
      by (rule own_inv [OF inv none _ assms(3)]) (use spec Removes c0(4) in auto)
    with Removes show ?thesis
      by (simp add: proceed_def)
  next
    case Waits
    have "send_inv (s\<lparr>sy_conn := c, sy_thr := (sy_thr s)(t := Owner b)\<rparr>)"
      by (rule own_inv [OF inv none _ assms(3)]) (use spec Waits c0(4) in auto)
    with Waits show ?thesis
      by (simp add: proceed_def)
  qed
qed

lemma close_simps [simp]:
  "c_dead (close_mark c) = True" "c_out (close_mark c) = c_out c" "c_wpdu (close_mark c) = c_wpdu c"
  "c_waiters (close_mark c) = c_waiters c"
  "c_dead (close_unwatch c) = c_dead c" "c_out (close_unwatch c) = c_out c"
  "c_wpdu (close_unwatch c) = c_wpdu c" "c_waiters (close_unwatch c) = c_waiters c"
  by (simp_all add: close_mark_def close_unwatch_def)

lemma add_waiter_simps [simp]:
  "c_dead (add_waiter c) = c_dead c" "c_out (add_waiter c) = c_out c" "c_wpdu (add_waiter c) = c_wpdu c"
  "c_waiters (add_waiter c) = c_waiters c + 1"
  by (simp_all add: add_waiter_def)

text \<open>
  A step that changes neither who owns the connection nor what is written: threads wake or wait, the
  connection dies.
\<close>

lemma quiet_inv:
  assumes inv: "send_inv s" and th: "\<And>t. owned (th t) = owned (sy_thr s t)"
    and "\<And>t b. th t = Queued b \<or> th t = Ready b \<Longrightarrow> pdu_ok b" "\<And>t b. th t = Removing b \<Longrightarrow> sy_thr s t = Removing b"
    and w: "finite (waiting th)" "c_waiters c = card (waiting th)"
    and c: "c_out c = c_out (sy_conn s)" "c_wpdu c = c_wpdu (sy_conn s)" "c_dead (sy_conn s) \<Longrightarrow> c_dead c"
    and "\<And>t b. free_ok s \<Longrightarrow> th t \<noteq> Queued b"
  shows "send_inv (s\<lparr>sy_conn := c, sy_thr := th\<rparr>)"
proof (rule send_invI)
  let ?s = "s\<lparr>sy_conn := c, sy_thr := th\<rparr>"
  show "pdu_ok b \<and> sending b (sy_log ?s) (sy_conn ?s) \<and> (\<forall>t'. owned (sy_thr ?s t') \<noteq> None \<longrightarrow> t' = t)"
    if "owned (sy_thr ?s t) = Some b" for t b
    using that send_invD(5-7) [OF inv, of t b] c th by (auto simp: sending_def)
  show "free_ok ?s" if "\<And>t. owned (sy_thr ?s t) = None"
  proof -
    have "free_ok s"
      using that th send_invD(8) [OF inv] by simp
    then show ?thesis
      using assms(10) c by (auto simp: free_ok_def)
  qed
  show "c_dead (sy_conn ?s)" if "sy_thr ?s t = Removing b" for t b
    using that assms(4) send_invD(4) [OF inv] c(3) by auto
qed (use assms in auto)

lemma quiet_conn:
  assumes inv: "send_inv s" and "c_out c = c_out (sy_conn s)" "c_wpdu c = c_wpdu (sy_conn s)"
    and "c_dead (sy_conn s) \<Longrightarrow> c_dead c" "c_waiters c = c_waiters (sy_conn s)"
  shows "send_inv (s\<lparr>sy_conn := c\<rparr>)"
proof -
  have "send_inv (s\<lparr>sy_conn := c, sy_thr := sy_thr s\<rparr>)"
    by (rule quiet_inv [OF inv]) (use assms send_invD(1-3) [OF inv] in \<open>simp_all add: free_ok_def\<close>)
  then show ?thesis
    by simp
qed

text \<open>Thread \<open>t\<close> changes between the two states of a wait.\<close>

lemma quiet_thr:
  assumes inv: "send_inv s" and "owned x = owned (sy_thr s t)" "queued x = queued (sy_thr s t)"
    and "\<And>b. x = Queued b \<or> x = Ready b \<Longrightarrow> pdu_ok b" "\<And>b. x = Queued b \<Longrightarrow> \<not> free_ok s"
    and "\<And>b. x \<noteq> Removing b"
  shows "send_inv (s\<lparr>sy_thr := (sy_thr s)(t := x)\<rparr>)"
proof -
  have w: "waiting ((sy_thr s)(t := x)) = waiting (sy_thr s)"
    using assms(3) by (auto simp: waiting_def)
  have "send_inv (s\<lparr>sy_conn := sy_conn s, sy_thr := (sy_thr s)(t := x)\<rparr>)"
  proof (rule quiet_inv [OF inv])
    show "pdu_ok b" if "((sy_thr s)(t := x)) t' = Queued b \<or> ((sy_thr s)(t := x)) t' = Ready b" for t' b
      using that assms(4) send_invD(3) [OF inv, of t' b] by (auto split: if_splits)
    show "((sy_thr s)(t := x)) t' \<noteq> Queued b" if "free_ok s" for t' b
      using that assms(5) by (auto simp: free_ok_def)
  qed (use assms send_invD(1,2) [OF inv] w in \<open>auto split: if_splits\<close>)
  then show ?thesis
    by simp
qed

text \<open>The end of \<open>send\<close> after the second wait.\<close>

lemma finish_inv:
  assumes inv: "send_inv s" and t: "owned (sy_thr s t) = Some b"
    and c: "c_out c0 = c_out (sy_conn s)" "c_wpdu c0 = c_wpdu (sy_conn s)" "c_dead c0 = c_dead (sy_conn s)"
      "c_waiters c0 = c_waiters (sy_conn s)"
    and fin: "send_finish c0 = (ret, c)" and over: "\<not> send_pending c0"
  shows "send_inv (leave t b ret c s)"
proof -
  obtain n where out: "c_out c0 = frames (sy_log s) @ take n (framed b)"
    and at: "wpdu_at b n (c_wpdu c0) \<or> c_dead c0 \<and> write_failed (c_wpdu c0)"
    using send_invD(6) [OF inv t] c by (auto simp: sending_def)
  have c': "ret = (\<not> c_dead c0 \<and> cb_solong (c_wpdu c0) = cb_sz (c_wpdu c0))" "c = c0\<lparr>c_wpdu := no_charbuf\<rparr>"
    using fin by (simp_all add: send_finish_def)
  have "n = length b" if "\<not> c_dead c0"
    using at over that by (auto simp: send_pending_def wpdu_at_def)
  then have full: "take n (framed b) = framed b" if "\<not> c_dead c0"
    using that framed_simps(1) [OF send_invD(5) [OF inv t]] by simp
  have ret: "ret \<longleftrightarrow> \<not> c_dead c0"
    using c'(1) at over by (auto simp: send_pending_def wpdu_at_def)
  have "\<not> queued (sy_thr s t)"
    using t by (cases "sy_thr s t") simp_all
  then have "waiting (sy_thr s) - {t} = waiting (sy_thr s)"
    by (auto simp: waiting_def)
  moreover have "\<exists>b' n. c_out c = frames (if ret then sy_log s @ [b] else sy_log s) @ take n (framed b')"
  proof (cases ret)
    case True
    then have "c_out c = frames (sy_log s @ [b]) @ take 0 (framed b)"
      using ret full out c'(2) by simp
    with True show ?thesis
      by metis
  next
    case False
    then have "c_out c = frames (sy_log s) @ take n (framed b)"
      using out c'(2) by simp
    with False show ?thesis
      by metis
  qed
  ultimately show ?thesis
    using send_invD(2,7) [OF inv] t c c'(2) ret full out by (intro leave_inv [OF inv]) auto
qed

text \<open>The owner's message makes progress; threads may be woken.\<close>

lemma owner_inv:
  assumes inv: "send_inv s" and t: "owned (sy_thr s t) = Some b" and "sending b (sy_log s) c"
    and c: "c_dead (sy_conn s) \<Longrightarrow> c_dead c" "c_waiters c = c_waiters (sy_conn s)"
  shows "send_inv (s\<lparr>sy_conn := c, sy_thr := (if sig then wake_owner \<circ> sy_thr s else sy_thr s)\<rparr>)"
proof -
  let ?s = "s\<lparr>sy_conn := c, sy_thr := (if sig then wake_owner \<circ> sy_thr s else sy_thr s)\<rparr>"
  have o: "owned (sy_thr ?s t') = owned (sy_thr s t')" "sy_thr ?s t' = Removing x \<longleftrightarrow> sy_thr s t' = Removing x"
    "sy_thr ?s t' = Queued x \<longleftrightarrow> sy_thr s t' = Queued x" "sy_thr ?s t' = Ready x \<longleftrightarrow> sy_thr s t' = Ready x"
    "waiting (sy_thr ?s) = waiting (sy_thr s)" for t' x
    by simp_all
  show ?thesis
  proof (rule send_invI)
    show "finite (waiting (sy_thr ?s))" "c_waiters (sy_conn ?s) = card (waiting (sy_thr ?s))"
      unfolding o(5) using send_invD(1,2) [OF inv] c(2) by simp_all
    show "pdu_ok b'" if "sy_thr ?s t' = Queued b' \<or> sy_thr ?s t' = Ready b'" for t' b'
      using that send_invD(3) [OF inv] unfolding o(3,4) by blast
    show "c_dead (sy_conn ?s)" if "sy_thr ?s t' = Removing b'" for t' b'
      using that send_invD(4) [OF inv] c(1) unfolding o(2) by simp
    show "pdu_ok b' \<and> sending b' (sy_log ?s) (sy_conn ?s) \<and> (\<forall>t''. owned (sy_thr ?s t'') \<noteq> None \<longrightarrow> t'' = t')"
      if "owned (sy_thr ?s t') = Some b'" for t' b'
    proof -
      have t': "owned (sy_thr s t') = Some b'"
        using that by (simp only: o)
      then have "t' = t"
        using send_invD(7) [OF inv t, of t'] by simp
      with t t' assms(3) send_invD(5,7) [OF inv t'] show ?thesis
        unfolding o(1) by simp
    qed
    show "free_ok ?s" if "\<And>t'. owned (sy_thr ?s t') = None"
      using that [of t] t unfolding o(1) by simp
  qed
qed

lemma writable_inv:
  assumes inv: "send_inv s" and "fits_write r (cb_sz (c_wpdu (sy_conn s)) - cb_solong (c_wpdu (sy_conn s)))"
    and cb: "write_cb r (sy_conn s) = Some (sig, c)"
  shows "send_inv (s\<lparr>sy_conn := c, sy_thr := (if sig then wake_owner \<circ> sy_thr s else sy_thr s)\<rparr>)"
proof (cases "\<forall>t. owned (sy_thr s t) = None")
  case True
  then have "free_ok s"
    using send_invD(8) [OF inv] by blast
  then have "sig = False" "c = (sy_conn s)\<lparr>c_watch_w := False\<rparr>" "free_ok s"
    using cb by (auto simp: free_ok_def write_cb_def no_charbuf_def split: if_splits)
  then show ?thesis
    using quiet_conn [OF inv, of c] by simp
next
  case False
  then obtain t b where t: "owned (sy_thr s t) = Some b"
    by auto
  have alive: "\<not> c_dead (sy_conn s)"
    using cb by (auto simp: write_cb_def)
  have ok: "pdu_ok b"
    by (rule send_invD(5) [OF inv t])
  obtain n where out: "c_out (sy_conn s) = frames (sy_log s) @ take n (framed b)" and at: "wpdu_at b n (c_wpdu (sy_conn s))"
    using send_invD(6) [OF inv t] alive by (auto simp: sending_def)
  have sz: "cb_sz (c_wpdu (sy_conn s)) = int (length b)" "cb_solong (c_wpdu (sy_conn s)) = int n" "n \<le> length b" "b \<noteq> []"
    using at ok by (auto simp: wpdu_at_def pdu_ok_def)
  obtain okw n' p where w: "writepdu r (sy_conn s) = Some (okw, (sy_conn s)\<lparr>c_wpdu := p,
      c_out := frames (sy_log s) @ take n' (framed b)\<rparr>)" "if okw then wpdu_at b n' p else write_failed p"
  proof (cases "n = length b")
    case True
    then have "writepdu r (sy_conn s) = Some (True, sy_conn s)"
      using sz by (simp add: writepdu_def)
    moreover have "sy_conn s = (sy_conn s)\<lparr>c_wpdu := c_wpdu (sy_conn s), c_out := frames (sy_log s) @ take n (framed b)\<rparr>"
      using out by simp
    ultimately show ?thesis
      using that [of True n "c_wpdu (sy_conn s)"] at by simp
  next
    case False
    show ?thesis
      using writepdu_sending [OF at ok _ _ out, of r] False sz assms(2) that by auto
  qed
  have "sending b (sy_log s) c" "c_waiters c = c_waiters (sy_conn s)"
    using cb w alive sz(1,4) by (auto simp: write_cb_def sending_def split: if_splits)
  then show ?thesis
    using alive by (intro owner_inv [OF inv t]) simp_all
qed

lemma send_step_inv: "send_step s s' \<Longrightarrow> send_inv s \<Longrightarrow> send_inv s'"
proof (induction rule: send_step.induct)
  case (enter_wait s t b)
  then have "\<not> free_ok s"
    by (auto simp: free_ok_def send_blocked_def no_charbuf_def)
  moreover have "card (insert t (waiting (sy_thr s))) = card (waiting (sy_thr s)) + 1"
    using send_invD(1) [OF enter_wait.prems] enter_wait.hyps(1) by simp
  ultimately show ?case
    using enter_wait send_invD(1-4) [OF enter_wait.prems] by (intro quiet_inv) (auto split: if_splits)
next
  case (enter_go s t b r nx c)
  then have "waiting (sy_thr s) - {t} = waiting (sy_thr s)"
    by (auto simp: waiting_def)
  then show ?case
    using enter_go send_invD(2) [OF enter_go.prems] by (intro proceed_inv) auto
next
  case (wake_wait s t b)
  then show ?case
    using send_invD(3) [OF wake_wait.prems] by (intro quiet_thr) auto
next
  case (retry_wait s t b)
  then have "\<not> free_ok s"
    by (auto simp: free_ok_def send_blocked_def no_charbuf_def)
  then show ?case
    using retry_wait send_invD(3) [OF retry_wait.prems] by (intro quiet_thr) auto
next
  case (retry_go s t b r nx c)
  then show ?case
    using send_invD(1-3) [OF retry_go.prems] by (intro proceed_inv [where ?c0.0 = "drop_waiter (sy_conn s)"]) auto
next
  case (writable s r sig c)
  then show ?case
    by (intro writable_inv)
next
  case (wake_owner s t b)
  then show ?case
    by (intro quiet_thr) auto
next
  case (resume_wait s t b)
  then show ?case
    by (intro quiet_thr) auto
next
  case (resume_finish s t b ret c)
  then show ?case
    by (intro finish_inv [where ?c0.0 = "sy_conn s"]) auto
next
  case (removed s t b ret c)
  then show ?case
    using send_invD(4) [OF removed.prems, of t b]
    by (intro finish_inv [where ?c0.0 = "close_unwatch (sy_conn s)"]) (auto simp: send_pending_def)
next
  case (read_fails s)
  then show ?case
    using send_invD(1-4) [OF read_fails.prems] by (intro quiet_inv) (auto simp: free_ok_def)
next
  case (close_begin s)
  then show ?case
    by (intro quiet_conn) auto
next
  case (close_end s)
  then show ?case
    by (intro quiet_conn) auto
qed

lemma send_reach_inv: "send_reach e s \<Longrightarrow> send_inv s"
proof (induction rule: send_reach.induct)
  case start
  then show ?case
    by (simp add: send_inv_def init_send_def new_connection_def free_ok_def frames_def waiting_def)
qed (rule send_step_inv)

lemma leave_log: "set (sy_log (leave t b ret c s)) \<subseteq> insert b (set (sy_log s))"
  by (auto simp: leave_def)

lemma send_step_log: "send_step s s' \<Longrightarrow> send_inv s \<Longrightarrow> \<forall>b \<in> set (sy_log s). pdu_ok b \<Longrightarrow> \<forall>b \<in> set (sy_log s'). pdu_ok b"
proof (induction rule: send_step.induct)
  case (enter_go s t b r nx c)
  then show ?case
    using leave_log [of t b _ c s] by (auto simp: proceed_def split: send_next.splits)
next
  case (retry_go s t b r nx c)
  then show ?case
    using leave_log [of t b _ c s] send_invD(3) [OF retry_go.prems(1), of t b]
    by (auto simp: proceed_def split: send_next.splits)
next
  case (resume_finish s t b ret c)
  then show ?case
    using leave_log [of t b ret c s] send_invD(5) [OF resume_finish.prems(1), of t b] by auto
next
  case (removed s t b ret c)
  then show ?case
    using leave_log [of t b ret c s] send_invD(5) [OF removed.prems(1), of t b] by auto
qed simp_all

lemma send_reach_log: "send_reach e s \<Longrightarrow> \<forall>b \<in> set (sy_log s). pdu_ok b"
proof (induction rule: send_reach.induct)
  case start
  then show ?case
    by (simp add: init_send_def)
next
  case (step s s')
  then show ?case
    by (intro send_step_log [OF step.hyps(2)] send_reach_inv)
qed

text \<open>A run: thread 0 starts to send, the socket takes one byte, and the thread waits.\<close>

definition demo_msg :: "u8 list" where
  "demo_msg = replicate 9 1"

definition demo_waiting :: send_sys where
  "demo_waiting = (init_send False)\<lparr>
     sy_conn := (new_connection False)\<lparr>
       c_wpdu := \<lparr>cb_buf = Some (be32 9 @ replicate 5 1), cb_sz = 9, cb_solong = 1\<rparr>,
       c_out := [0], c_watch_w := True\<rparr>,
     sy_thr := (\<lambda>_. Out)(0 := Owner demo_msg)\<rparr>"

lemma demo_msg_ok: "pdu_ok demo_msg"
  by (simp add: demo_msg_def pdu_ok_def MAX_PDU_def)

lemma demo_waiting_reach: "send_reach False demo_waiting"
proof -
  have go: "send_start demo_msg (Wrote 1) (new_connection False) = Some (Waits, sy_conn demo_waiting)"
    by code_simp
  have "send_step (init_send False) (proceed 0 demo_msg Waits (sy_conn demo_waiting) (init_send False))"
    by (rule enter_go [OF _ demo_msg_ok])
      (use go in \<open>simp_all add: init_send_def send_blocked_def new_connection_def no_charbuf_def fits_write_def demo_msg_def\<close>)
  moreover have "proceed 0 demo_msg Waits (sy_conn demo_waiting) (init_send False) = demo_waiting"
    by (simp add: proceed_def demo_waiting_def init_send_def)
  ultimately show ?thesis
    using send_reach.step [OF send_reach.start, of False demo_waiting] by simp
qed

text \<open>Another run: the socket takes the whole message at once.\<close>

definition demo_sent :: send_sys where
  "demo_sent = (init_send False)\<lparr>sy_conn := (new_connection False)\<lparr>c_out := framed demo_msg\<rparr>, sy_log := [demo_msg]\<rparr>"

lemma demo_sent_reach: "send_reach False demo_sent"
proof -
  have go: "send_start demo_msg (Wrote 9) (new_connection False) = Some (Returns True, sy_conn demo_sent)"
    by code_simp
  have "send_step (init_send False) (proceed 0 demo_msg (Returns True) (sy_conn demo_sent) (init_send False))"
    by (rule enter_go [OF _ demo_msg_ok])
      (use go in \<open>simp_all add: init_send_def send_blocked_def new_connection_def no_charbuf_def fits_write_def demo_msg_def\<close>)
  moreover have "proceed 0 demo_msg (Returns True) (sy_conn demo_sent) (init_send False) = demo_sent"
    by (simp add: proceed_def leave_def demo_sent_def init_send_def new_connection_def fun_upd_idem)
  ultimately show ?thesis
    using send_reach.step [OF send_reach.start, of False demo_sent] by simp
qed

lemma demo_closed_reach:
  "send_reach False (demo_waiting\<lparr>sy_conn := close_mark (sy_conn demo_waiting)\<rparr>)"
  "send_reach False (demo_waiting\<lparr>sy_conn := close_unwatch (close_mark (sy_conn demo_waiting))\<rparr>)"
proof -
  have alive: "\<not> c_dead (sy_conn demo_waiting)"
    by (simp add: demo_waiting_def new_connection_def)
  show *: "send_reach False (demo_waiting\<lparr>sy_conn := close_mark (sy_conn demo_waiting)\<rparr>)"
    by (rule send_reach.step [OF demo_waiting_reach close_begin [OF alive]])
  show "send_reach False (demo_waiting\<lparr>sy_conn := close_unwatch (close_mark (sy_conn demo_waiting))\<rparr>)"
    using send_reach.step [OF * close_end] by simp
qed

definition demo_stranded :: send_sys where
  "demo_stranded = demo_waiting\<lparr>sy_conn := close_unwatch (close_mark (sy_conn demo_waiting))\<rparr>"

lemma demo_stranded:
  "send_reach False demo_stranded" "sy_thr demo_stranded 0 = Owner demo_msg" "c_dead (sy_conn demo_stranded)"
  "\<not> c_watch_w (sy_conn demo_stranded)"
  using demo_closed_reach(2) by (simp_all add: demo_stranded_def) (simp_all add: demo_waiting_def close_unwatch_def)

section \<open>Properties\<close>

text \<open>
  C14. Messages do not mix on the wire: whatever the threads, the poll manager and the closing thread
  do, the bytes written are the frames of the messages whose \<open>send\<close> returned true, in that order,
  followed by a part of at most one other frame; on a living connection that nobody is sending on
  there is no such part.
\<close>

theorem sends_do_not_mix:
  assumes "send_reach e s"
  shows "(\<exists>b n. c_out (sy_conn s) = frames (sy_log s) @ take n (framed b)) \<and>
    ((\<forall>t. owned (sy_thr s t) = None) \<and> \<not> c_dead (sy_conn s) \<longrightarrow> c_out (sy_conn s) = frames (sy_log s))"
proof (cases "\<forall>t. owned (sy_thr s t) = None")
  case True
  then show ?thesis
    using send_invD(8) [OF send_reach_inv [OF assms]] by (simp add: free_ok_def)
next
  case False
  then obtain t b where "owned (sy_thr s t) = Some b"
    by auto
  from send_invD(6) [OF send_reach_inv [OF assms] this] False show ?thesis
    by (auto simp: sending_def)
qed

theorem sends_do_not_mix_witness:
  "(\<exists>b n. c_out (sy_conn demo_waiting) = frames (sy_log demo_waiting) @ take n (framed b)) \<and>
    c_out (sy_conn (init_send False)) = frames (sy_log (init_send False))"
  using sends_do_not_mix [OF demo_waiting_reach] sends_do_not_mix [OF send_reach.start [of False]]
  by (simp add: init_send_def new_connection_def)

text \<open>
  C26. Two connections joined by a stream are a FIFO channel of messages. Let any number of threads
  have sent on one end, and let nobody be sending now on the living connection: the other end hands
  over an initial part of the messages whose \<open>send\<close> returned true, each whole and in the order of the
  returns, in whatever pieces its reads take the stream. As long as no read takes only a part of a
  length word, which would close the reader, it stays alive, and once enough has been read it has
  handed over all of them.
\<close>

theorem channel_in_order:
  assumes "send_reach e s" "\<not> c_dead (sy_conn s)" "\<forall>t. owned (sy_thr s t) = None"
  shows "\<exists>c inp D. stream_run g ks (new_connection e', c_out (sy_conn s), []) = Some (c, inp, D) \<and>
    (\<exists>past todo. sy_log s = past @ todo \<and> D = map framed past) \<and>
    (words_whole ks \<longrightarrow> \<not> c_dead c \<and>
      (length (c_out (sy_conn s)) \<le> reads_done ks \<longrightarrow> D = map framed (sy_log s)))"
proof -
  have "c_out (sy_conn s) = frames (sy_log s)"
    using send_invD(8) [OF send_reach_inv [OF assms(1)]] assms(2,3) by (simp add: free_ok_def)
  then show ?thesis
    using stream_reassembly [OF send_reach_log [OF assms(1)], of g ks e'] by simp
qed

theorem channel_in_order_witness:
  "\<exists>c inp D. stream_run (\<lambda>_. 0) (replicate 9 (4, 2)) (new_connection True, c_out (sy_conn demo_sent), []) = Some (c, inp, D) \<and>
    \<not> c_dead c \<and> D = [framed demo_msg]"
proof -
  have "\<not> c_dead (sy_conn demo_sent)" "\<forall>t. owned (sy_thr demo_sent t) = None"
    by (simp_all add: demo_sent_def init_send_def new_connection_def)
  moreover have "words_whole (replicate 9 (4, 2))" "length (c_out (sy_conn demo_sent)) \<le> reads_done (replicate 9 (4, 2))"
    by (simp_all add: words_whole_def reads_done_def demo_sent_def framed_simps(1) [OF demo_msg_ok] demo_msg_def [symmetric])
      (simp add: demo_msg_def)
  moreover have "sy_log demo_sent = [demo_msg]"
    by (simp add: demo_sent_def)
  ultimately show ?thesis
    using channel_in_order [OF demo_sent_reach, of "\<lambda>_. 0" "replicate 9 (4, 2)" True] by fastforce
qed

text \<open>
  C36. No sender is left behind: while nobody is sending, no thread sleeps in the wait for the
  connection, and a thread that was woken can leave it.
\<close>

theorem no_sender_left_behind:
  assumes "send_reach e s" "\<forall>t. owned (sy_thr s t) = None"
  shows "sy_thr s t \<noteq> Queued b \<and>
    (sy_thr s t = Ready b \<longrightarrow> (\<exists>s'. send_step s s' \<and> \<not> queued (sy_thr s' t)))"
proof -
  have inv: "send_inv s"
    by (rule send_reach_inv [OF assms(1)])
  have f: "free_ok s"
    using send_invD(8) [OF inv] assms(2) by blast
  have "\<exists>s'. send_step s s' \<and> \<not> queued (sy_thr s' t)" if t: "sy_thr s t = Ready b"
  proof -
    let ?c = "drop_waiter (sy_conn s)"
    have free: "\<not> send_blocked (sy_conn s)"
      using f by (simp add: free_ok_def send_blocked_def no_charbuf_def)
    have ok: "pdu_ok b"
      using send_invD(3) [OF inv] t by blast
    have at0: "wpdu_at b 0 (c_wpdu (?c\<lparr>c_wpdu := \<lparr>cb_buf = Some b, cb_sz = int (length b), cb_solong = 0\<rparr>\<rparr>))"
      by (simp add: wpdu_at_def)
    have "0 < length b"
      using ok by (auto simp: pdu_ok_def)
    then obtain okw c1 where "writepdu (Wrote 0) (?c\<lparr>c_wpdu := \<lparr>cb_buf = Some b, cb_sz = int (length b), cb_solong = 0\<rparr>\<rparr>)
        = Some (okw, c1)"
      using writepdu_sending [OF at0 ok, of "Wrote 0" "c_out ?c"] by (auto simp: fits_write_def)
    then obtain nx c where go: "send_start b (Wrote 0) ?c = Some (nx, c)"
      unfolding send_start_def by (cases "c_dead ?c") fastforce+
    have "send_step s (proceed t b nx c s)"
      by (rule retry_go [OF t free _ go]) (simp add: fits_write_def)
    moreover have "\<not> queued (sy_thr (proceed t b nx c s) t)"
      by (simp add: proceed_def leave_def split: send_next.splits)
    ultimately show ?thesis
      by blast
  qed
  then show ?thesis
    using f by (simp add: free_ok_def)
qed

theorem no_sender_left_behind_witness: "sy_thr (init_send False) 3 \<noteq> Queued demo_msg"
  using no_sender_left_behind [OF send_reach.start, of False 3 demo_msg] by (simp add: init_send_def)

text \<open>
  \<open>closeconn\<close> while a message is being written: between its critical section and the removal of
  the socket from the poll manager the callback for the writable socket fails its assertion.
\<close>

theorem close_during_write_asserts:
  "\<exists>s. send_reach False s \<and> c_watch_w (sy_conn s) \<and> write_cb r (sy_conn s) = None"
proof -
  let ?s = "demo_waiting\<lparr>sy_conn := close_mark (sy_conn demo_waiting)\<rparr>"
  have "c_watch_w (sy_conn ?s)" "write_cb r (sy_conn ?s) = None"
    by (simp_all add: demo_waiting_def close_mark_def write_cb_def)
  with demo_closed_reach(1) show ?thesis
    by blast
qed

text \<open>
  \<open>closeconn\<close> does not signal \<open>send_complete_\<close>: a thread that waits for its message to be written
  when the connection is closed stays in that wait whatever else happens, unless the wait ends
  spuriously.
\<close>

theorem close_strands_sender:
  assumes "sy_thr s t = Owner b" "c_dead (sy_conn s)" "\<not> c_watch_w (sy_conn s)" "send_step s s'"
  shows "(sy_thr s' t = Owner b \<and> c_dead (sy_conn s') \<and> \<not> c_watch_w (sy_conn s')) \<or>
    s' = s\<lparr>sy_thr := (sy_thr s)(t := Resumed b)\<rparr>"
  using assms(4,1-3)
  by (cases rule: send_step.cases)
    (auto simp: send_start_def proceed_def leave_def send_finish_def close_unwatch_def drop_waiter_def
      add_waiter_def close_mark_def split: if_splits)

theorem close_strands_sender_witness:
  "(sy_thr (demo_stranded\<lparr>sy_conn := close_unwatch (sy_conn demo_stranded)\<rparr>) 0 = Owner demo_msg \<and>
      c_dead (sy_conn (demo_stranded\<lparr>sy_conn := close_unwatch (sy_conn demo_stranded)\<rparr>)) \<and>
      \<not> c_watch_w (sy_conn (demo_stranded\<lparr>sy_conn := close_unwatch (sy_conn demo_stranded)\<rparr>))) \<or>
    demo_stranded\<lparr>sy_conn := close_unwatch (sy_conn demo_stranded)\<rparr>
      = demo_stranded\<lparr>sy_thr := (sy_thr demo_stranded)(0 := Resumed demo_msg)\<rparr>"
  by (rule close_strands_sender [OF demo_stranded(2-4) close_end [OF demo_stranded(3)]])

end
