(* ===== verification/Poll_Aio.thy ===== *)
theory Poll_Aio
  imports Prelude
begin

unbundle bit_operations_syntax

text \<open>
  The two implementations of the interface \<open>aio_mgr\<close> in \<open>rpc/pollmgr.h\<close> and \<open>rpc/pollmgr.cc\<close>, the
  one on \<open>select\<close> and the one on \<open>epoll\<close>: which descriptors are watched for which events, the
  contract they share, and where they differ. \<open>None\<close> is a failed assertion.
\<close>

datatype poll_flag = CB_NONE | CB_RDONLY | CB_WRONLY | CB_RDWR | CB_MASK

fun flag_code :: "poll_flag \<Rightarrow> 32 word" where
  "flag_code CB_NONE = 0x0"
| "flag_code CB_RDONLY = 0x1"
| "flag_code CB_WRONLY = 0x10"
| "flag_code CB_RDWR = 0x11"
| "flag_code CB_MASK = NOT 0x11"

definition MAX_POLL_FDS :: nat where
  "MAX_POLL_FDS = 128"

section \<open>The implementation on select\<close>

text \<open>\<open>pipe_bytes\<close> is how many bytes are in the pipe that interrupts the wait.\<close>

record select_aio =
  rfds :: "nat set"
  wfds :: "nat set"
  highfds :: nat
  pipefd :: nat
  pipe_bytes :: nat

definition new_select :: "nat \<Rightarrow> select_aio" where
  "new_select pipe0 = \<lparr>rfds = {pipe0}, wfds = {}, highfds = pipe0, pipefd = pipe0, pipe_bytes = 0\<rparr>"

definition select_watch :: "nat \<Rightarrow> poll_flag \<Rightarrow> select_aio \<Rightarrow> select_aio option" where
  "select_watch fd flag a = Some
     (let a = (if highfds a \<le> fd then a\<lparr>highfds := fd\<rparr> else a);
          a = (if flag = CB_RDONLY then a\<lparr>rfds := insert fd (rfds a)\<rparr>
               else if flag = CB_WRONLY then a\<lparr>wfds := insert fd (wfds a)\<rparr>
               else a\<lparr>rfds := insert fd (rfds a), wfds := insert fd (wfds a)\<rparr>)
      in a\<lparr>pipe_bytes := pipe_bytes a + 1\<rparr>)"

definition select_is_watched :: "nat \<Rightarrow> poll_flag \<Rightarrow> select_aio \<Rightarrow> bool option" where
  "select_is_watched fd flag a = Some
     (if flag = CB_RDONLY then fd \<in> rfds a
      else if flag = CB_WRONLY then fd \<in> wfds a
      else fd \<in> rfds a \<and> fd \<in> wfds a)"

text \<open>The loop that looks for the new highest descriptor, with the candidate found so far.\<close>

fun highest :: "select_aio \<Rightarrow> nat list \<Rightarrow> nat \<Rightarrow> nat" where
  "highest a [] newh = newh"
| "highest a (i # is) newh =
     highest a is (if i \<in> rfds a then i else if i \<in> wfds a then i else newh)"

definition select_unwatch :: "nat \<Rightarrow> poll_flag \<Rightarrow> select_aio \<Rightarrow> (bool \<times> select_aio) option" where
  "select_unwatch fd flag a = do {
     a \<leftarrow> (if flag = CB_RDONLY then Some (a\<lparr>rfds := rfds a - {fd}\<rparr>)
          else if flag = CB_WRONLY then Some (a\<lparr>wfds := wfds a - {fd}\<rparr>)
          else if flag = CB_RDWR then Some (a\<lparr>wfds := wfds a - {fd}, rfds := rfds a - {fd}\<rparr>)
          else None);
     let a = (if fd \<notin> rfds a \<and> fd \<notin> wfds a \<and> fd = highfds a
              then a\<lparr>highfds := highest a [0..<highfds a + 1] (pipefd a)\<rparr> else a);
     let a = (if flag = CB_RDWR then a\<lparr>pipe_bytes := pipe_bytes a + 1\<rparr> else a);
     Some (fd \<notin> rfds a \<and> fd \<notin> wfds a, a)
   }"

text \<open>
  \<open>wait_ready\<close> after its critical section has copied the sets and \<open>highfds\<close> into \<open>high\<close>: \<open>tr\<close> and
  \<open>tw\<close> are what \<open>select\<close> has left in the copies. A byte is taken out of the pipe when it is readable.
\<close>

fun select_scan :: "nat set \<Rightarrow> nat set \<Rightarrow> nat list \<Rightarrow> select_aio \<Rightarrow> (nat list \<times> nat list \<times> select_aio) option" where
  "select_scan tr tw [] a = Some ([], [], a)"
| "select_scan tr tw (fd # fds) a =
     (if fd = pipefd a \<and> fd \<in> tr
      then (if pipe_bytes a = 0 then None else select_scan tr tw fds (a\<lparr>pipe_bytes := pipe_bytes a - 1\<rparr>))
      else map_option (\<lambda>(rs, ws, a). (if fd \<in> tr then fd # rs else rs, if fd \<in> tw then fd # ws else ws, a))
             (select_scan tr tw fds a))"

datatype select_result = Ready "nat set" "nat set" | Interrupted | Select_Failed

definition select_wait :: "nat \<Rightarrow> select_result \<Rightarrow> select_aio \<Rightarrow> (nat list \<times> nat list \<times> select_aio) option" where
  "select_wait high ret a =
     (case ret of
        Interrupted \<Rightarrow> Some ([], [], a)
      | Select_Failed \<Rightarrow> None
      | Ready tr tw \<Rightarrow> select_scan tr tw [0..<high + 1] a)"

section \<open>The implementation on epoll\<close>

definition EPOLLIN :: "32 word" where "EPOLLIN = 0x001"
definition EPOLLOUT :: "32 word" where "EPOLLOUT = 0x004"
definition EPOLLET :: "32 word" where "EPOLLET = 0x80000000"

text \<open>\<open>interest\<close> is the list the kernel keeps for the descriptor \<open>pollfd_\<close>.\<close>

record epoll_aio =
  fdstatus :: "nat \<Rightarrow> 32 word"
  interest :: "nat \<rightharpoonup> 32 word"

definition new_epoll :: epoll_aio where
  "new_epoll = \<lparr>fdstatus = (\<lambda>_. 0), interest = Map.empty\<rparr>"

datatype ctl_op = EPOLL_CTL_ADD | EPOLL_CTL_MOD | EPOLL_CTL_DEL

text \<open>\<open>epoll_ctl\<close> fails with \<open>EEXIST\<close> or \<open>ENOENT\<close>.\<close>

fun epoll_ctl :: "ctl_op \<Rightarrow> nat \<Rightarrow> 32 word \<Rightarrow> (nat \<rightharpoonup> 32 word) \<Rightarrow> (nat \<rightharpoonup> 32 word) option" where
  "epoll_ctl EPOLL_CTL_ADD fd ev l = (if l fd = None then Some (l(fd \<mapsto> ev)) else None)"
| "epoll_ctl EPOLL_CTL_MOD fd ev l = (if l fd = None then None else Some (l(fd \<mapsto> ev)))"
| "epoll_ctl EPOLL_CTL_DEL fd ev l = (if l fd = None then None else Some (l(fd := None)))"

definition status_events :: "32 word \<Rightarrow> 32 word" where
  "status_events st =
     (let ev = EPOLLET;
          ev = (if st AND flag_code CB_RDONLY \<noteq> 0 then ev OR EPOLLIN else ev)
      in if st AND flag_code CB_WRONLY \<noteq> 0 then ev OR EPOLLOUT else ev)"

definition epoll_watch :: "nat \<Rightarrow> poll_flag \<Rightarrow> epoll_aio \<Rightarrow> epoll_aio option" where
  "epoll_watch fd flag a =
     (if MAX_POLL_FDS \<le> fd then None
      else
        let op = (if fdstatus a fd \<noteq> 0 then EPOLL_CTL_MOD else EPOLL_CTL_ADD);
            st = fdstatus a fd OR flag_code flag;
            ev = status_events st
        in if flag = CB_RDWR \<and> ev \<noteq> EPOLLET OR EPOLLIN OR EPOLLOUT then None
           else map_option (\<lambda>l. a\<lparr>fdstatus := (fdstatus a)(fd := st), interest := l\<rparr>)
                  (epoll_ctl op fd ev (interest a)))"

definition epoll_unwatch :: "nat \<Rightarrow> poll_flag \<Rightarrow> epoll_aio \<Rightarrow> (bool \<times> epoll_aio) option" where
  "epoll_unwatch fd flag a =
     (if MAX_POLL_FDS \<le> fd then None
      else
        let st = fdstatus a fd AND NOT (flag_code flag);
            op = (if st \<noteq> 0 then EPOLL_CTL_MOD else EPOLL_CTL_DEL);
            ev = status_events st
        in if flag = CB_RDWR \<and> op \<noteq> EPOLL_CTL_DEL then None
           else map_option (\<lambda>l. (op = EPOLL_CTL_DEL, a\<lparr>fdstatus := (fdstatus a)(fd := st), interest := l\<rparr>))
                  (epoll_ctl op fd ev (interest a)))"

definition epoll_is_watched :: "nat \<Rightarrow> poll_flag \<Rightarrow> epoll_aio \<Rightarrow> bool option" where
  "epoll_is_watched fd flag a =
     (if MAX_POLL_FDS \<le> fd then None
      else Some (fdstatus a fd AND flag_code CB_MASK = flag_code flag))"

text \<open>\<open>wait_ready\<close> with the events that \<open>epoll_wait\<close> returns.\<close>

fun epoll_ready :: "(nat \<times> 32 word) list \<Rightarrow> nat list \<times> nat list" where
  "epoll_ready [] = ([], [])"
| "epoll_ready ((fd, ev) # es) =
     (case epoll_ready es of (rs, ws) \<Rightarrow>
        (if ev AND EPOLLIN \<noteq> 0 then fd # rs else rs, if ev AND EPOLLOUT \<noteq> 0 then fd # ws else ws))"

section \<open>The contract\<close>

datatype direction = In | Out

fun dirs :: "poll_flag \<Rightarrow> direction set" where
  "dirs CB_RDONLY = {In}"
| "dirs CB_WRONLY = {Out}"
| "dirs CB_RDWR = {In, Out}"
| "dirs f = {}"

lemma not_In [simp]: "d \<noteq> In \<longleftrightarrow> d = Out"
  by (cases d) simp_all

text \<open>
  \<open>watched\<close> is the abstract set of what is watched. The callers pass one of the three flags, and they
  unwatch only a descriptor that is watched.
\<close>

locale aio_mgr =
  fixes watch :: "nat \<Rightarrow> poll_flag \<Rightarrow> 's \<Rightarrow> 's option"
    and unwatch :: "nat \<Rightarrow> poll_flag \<Rightarrow> 's \<Rightarrow> (bool \<times> 's) option"
    and watched :: "'s \<Rightarrow> (nat \<times> direction) set"
    and valid :: "'s \<Rightarrow> bool"
    and usable :: "nat \<Rightarrow> 's \<Rightarrow> bool"
  assumes watch_law: "valid s \<Longrightarrow> usable fd s \<Longrightarrow> dirs flag \<noteq> {} \<Longrightarrow>
      \<exists>s'. watch fd flag s = Some s' \<and> valid s' \<and> watched s' = watched s \<union> {fd} \<times> dirs flag \<and>
        (\<forall>x. usable x s' = usable x s)"
    and unwatch_law: "valid s \<Longrightarrow> usable fd s \<Longrightarrow> dirs flag \<noteq> {} \<Longrightarrow> (fd, d) \<in> watched s \<Longrightarrow>
      \<exists>s'. unwatch fd flag s = Some (\<forall>d. (fd, d) \<notin> watched s', s') \<and> valid s' \<and>
        watched s' = watched s - {fd} \<times> dirs flag \<and> (\<forall>x. usable x s' = usable x s)"

datatype aio_op = Watch nat poll_flag | Unwatch nat poll_flag

text \<open>What the operations do to the set, with the answers of \<open>unwatch\<close>; \<open>None\<close> breaks the contract.\<close>

fun spec_run :: "(nat \<Rightarrow> bool) \<Rightarrow> aio_op list \<Rightarrow> (nat \<times> direction) set \<Rightarrow> (bool list \<times> (nat \<times> direction) set) option" where
  "spec_run ok [] W = Some ([], W)"
| "spec_run ok (Watch fd flag # os) W =
     (if ok fd \<and> dirs flag \<noteq> {} then spec_run ok os (W \<union> {fd} \<times> dirs flag) else None)"
| "spec_run ok (Unwatch fd flag # os) W =
     (if ok fd \<and> dirs flag \<noteq> {} \<and> ((fd, In) \<in> W \<or> (fd, Out) \<in> W)
      then map_option (\<lambda>(bs, W'). (((fd, In) \<notin> W - {fd} \<times> dirs flag \<and> (fd, Out) \<notin> W - {fd} \<times> dirs flag) # bs, W'))
             (spec_run ok os (W - {fd} \<times> dirs flag))
      else None)"

fun aio_run ::
  "(nat \<Rightarrow> poll_flag \<Rightarrow> 's \<Rightarrow> 's option) \<Rightarrow> (nat \<Rightarrow> poll_flag \<Rightarrow> 's \<Rightarrow> (bool \<times> 's) option) \<Rightarrow>
   aio_op list \<Rightarrow> 's \<Rightarrow> (bool list \<times> 's) option" where
  "aio_run w u [] s = Some ([], s)"
| "aio_run w u (Watch fd flag # os) s = do { s \<leftarrow> w fd flag s; aio_run w u os s }"
| "aio_run w u (Unwatch fd flag # os) s =
     do { (b, s) \<leftarrow> u fd flag s; (bs, s) \<leftarrow> aio_run w u os s; Some (b # bs, s) }"

lemma all_dirs: "(\<forall>d. (fd, d) \<notin> W) \<longleftrightarrow> (fd, In) \<notin> W \<and> (fd, Out) \<notin> W"
  by (metis direction.exhaust)

context aio_mgr
begin

lemma run_refines:
  "spec_run ok os (watched s) = Some (bs, W) \<Longrightarrow> valid s \<Longrightarrow> (\<And>x. ok x \<Longrightarrow> usable x s) \<Longrightarrow>
   \<exists>s'. aio_run watch unwatch os s = Some (bs, s') \<and> valid s' \<and> watched s' = W"
proof (induction os arbitrary: s bs)
  case (Cons o' os)
  show ?case
  proof (cases o')
    case (Watch fd flag)
    then have c: "ok fd" "dirs flag \<noteq> {}" "spec_run ok os (watched s \<union> {fd} \<times> dirs flag) = Some (bs, W)"
      using Cons.prems(1) by (auto split: if_splits)
    obtain s' where s': "watch fd flag s = Some s'" "valid s'" "watched s' = watched s \<union> {fd} \<times> dirs flag"
        "\<And>x. usable x s' = usable x s"
      using watch_law [OF Cons.prems(2) Cons.prems(3) [OF c(1)] c(2)] by blast
    have "\<exists>s''. aio_run watch unwatch os s' = Some (bs, s'') \<and> valid s'' \<and> watched s'' = W"
      by (rule Cons.IH) (use c(3) s'(2,3,4) Cons.prems(3) in simp_all)
    then show ?thesis
      using Watch s'(1) by simp
  next
    case (Unwatch fd flag)
    then obtain d bs' where c: "ok fd" "dirs flag \<noteq> {}" "(fd, d) \<in> watched s"
        "spec_run ok os (watched s - {fd} \<times> dirs flag) = Some (bs', W)"
        "bs = (\<forall>d. (fd, d) \<notin> watched s - {fd} \<times> dirs flag) # bs'"
      using Cons.prems(1) unfolding all_dirs by (auto split: if_splits)
    obtain s' where s': "unwatch fd flag s = Some (\<forall>d. (fd, d) \<notin> watched s', s')" "valid s'"
        "watched s' = watched s - {fd} \<times> dirs flag" "\<And>x. usable x s' = usable x s"
      using unwatch_law [OF Cons.prems(2) Cons.prems(3) [OF c(1)] c(2,3)] by blast
    have "\<exists>s''. aio_run watch unwatch os s' = Some (bs', s'') \<and> valid s'' \<and> watched s'' = W"
      by (rule Cons.IH) (use c(4) s'(2,3,4) Cons.prems(3) in simp_all)
    then show ?thesis
      using Unwatch s'(1,3) c(5) by auto
  qed
qed simp

end

section \<open>Both keep the contract\<close>

definition select_watched :: "select_aio \<Rightarrow> (nat \<times> direction) set" where
  "select_watched a = {(fd, d). fd \<noteq> pipefd a \<and> fd \<in> (if d = In then rfds a else wfds a)}"

text \<open>\<open>highfds\<close> is exactly the highest descriptor, so \<open>select\<close> is told of all.\<close>

definition select_ok :: "select_aio \<Rightarrow> bool" where
  "select_ok a \<longleftrightarrow> finite (rfds a) \<and> finite (wfds a) \<and> pipefd a \<in> rfds a \<and> pipefd a \<notin> wfds a \<and>
     highfds a = Max (rfds a \<union> wfds a)"

lemma highest_eq:
  "highest a xs n = (case filter (\<lambda>i. i \<in> rfds a \<union> wfds a) xs of [] \<Rightarrow> n | ys \<Rightarrow> last ys)"
  by (induction xs arbitrary: n) (auto split: list.splits)

lemma sorted_le_last: "sorted xs \<Longrightarrow> y \<in> set xs \<Longrightarrow> y \<le> last (xs :: nat list)"
  by (induction xs) (auto split: if_splits)

lemma highest_last: "filter (\<lambda>i. i \<in> rfds a \<union> wfds a) xs \<noteq> [] \<Longrightarrow>
    highest a xs n = last (filter (\<lambda>i. i \<in> rfds a \<union> wfds a) xs)"
  unfolding highest_eq by (cases "filter (\<lambda>i. i \<in> rfds a \<union> wfds a) xs") simp_all

lemma last_filter_upto:
  assumes "i \<in> A" "\<And>j. j \<in> A \<Longrightarrow> j < (h :: nat)"
  shows "filter (\<lambda>i. i \<in> A) [0..<h] \<noteq> [] \<and> last (filter (\<lambda>i. i \<in> A) [0..<h]) = Max A"
proof -
  let ?ys = "filter (\<lambda>i. i \<in> A) [0..<h]"
  have set: "set ?ys = A"
    using assms(2) by auto
  then have ne: "?ys \<noteq> []"
    using assms(1) by (metis empty_iff list.set(1))
  have sorted: "sorted ?ys"
    by (rule sorted_wrt_filter) simp
  have "Max (set ?ys) = last ?ys"
  proof (rule Max_eqI)
    show "y \<le> last ?ys" if "y \<in> set ?ys" for y
      using that by (rule sorted_le_last [OF sorted])
    show "last ?ys \<in> set ?ys"
      by (rule last_in_set [OF ne])
  qed simp
  then show ?thesis
    using ne set by simp
qed

lemma highest_upto:
  assumes "i \<in> rfds a \<union> wfds a" "\<And>j. j \<in> rfds a \<union> wfds a \<Longrightarrow> j < h"
  shows "highest a [0..<h] n = Max (rfds a \<union> wfds a)"
  using last_filter_upto [OF assms] highest_last by metis

lemma new_select_ok: "select_ok (new_select pipe0)"
  by (simp add: select_ok_def new_select_def)

lemma select_watch_effect:
  assumes "select_watch fd flag a = Some a'" "dirs flag \<noteq> {}"
  shows "rfds a' = (if In \<in> dirs flag then insert fd (rfds a) else rfds a)"
    "wfds a' = (if Out \<in> dirs flag then insert fd (wfds a) else wfds a)"
    "pipefd a' = pipefd a" "highfds a' = max fd (highfds a)" "pipe_bytes a' = pipe_bytes a + 1"
proof -
  have a': "a' = the (select_watch fd flag a)"
    using assms(1) by simp
  show "rfds a' = (if In \<in> dirs flag then insert fd (rfds a) else rfds a)"
    "wfds a' = (if Out \<in> dirs flag then insert fd (wfds a) else wfds a)"
    "pipefd a' = pipefd a" "highfds a' = max fd (highfds a)" "pipe_bytes a' = pipe_bytes a + 1"
    using assms(2) unfolding a' by (cases flag; simp add: select_watch_def Let_def)+
qed

lemma select_watch_law:
  assumes "select_ok a" "fd \<noteq> pipefd a" "dirs flag \<noteq> {}"
  shows "\<exists>a'. select_watch fd flag a = Some a' \<and> select_ok a' \<and>
    select_watched a' = select_watched a \<union> {fd} \<times> dirs flag \<and> (\<forall>x. (x \<noteq> pipefd a') = (x \<noteq> pipefd a))"
proof -
  obtain a' where a': "select_watch fd flag a = Some a'"
    by (simp add: select_watch_def)
  note f = select_watch_effect [OF a' assms(3)]
  have fin: "finite (rfds a \<union> wfds a)" "rfds a \<union> wfds a \<noteq> {}"
    using assms(1) by (auto simp: select_ok_def)
  have "rfds a' \<union> wfds a' = insert fd (rfds a \<union> wfds a)"
    using assms(3) f(1,2) by (cases flag) auto
  moreover have "highfds a = Max (rfds a \<union> wfds a)"
    using assms(1) by (simp add: select_ok_def)
  ultimately have "highfds a' = Max (rfds a' \<union> wfds a')"
    using Max_insert [OF fin, of fd] f(4) by metis
  then have "select_ok a'"
    using assms(1,2) f(1,2,3) by (simp add: select_ok_def)
  moreover have "select_watched a' = select_watched a \<union> {fd} \<times> dirs flag"
    using assms(2,3) f by (cases flag) (auto simp: select_watched_def split: if_splits)
  ultimately show ?thesis
    using a' f(3) by auto
qed

lemma select_unwatch_effect:
  assumes "select_unwatch fd flag a = Some (b, a')"
  shows "rfds a' = (if In \<in> dirs flag then rfds a - {fd} else rfds a)"
    "wfds a' = (if Out \<in> dirs flag then wfds a - {fd} else wfds a)"
    "pipefd a' = pipefd a" "b \<longleftrightarrow> fd \<notin> rfds a' \<and> fd \<notin> wfds a'"
    "highfds a' = (if b \<and> fd = highfds a then highest a' [0..<highfds a + 1] (pipefd a) else highfds a)"
    "pipe_bytes a' = (if flag = CB_RDWR then pipe_bytes a + 1 else pipe_bytes a)"
proof -
  have cong: "highest x xs n = highest y xs n" if "rfds x = rfds y" "wfds x = wfds y" for x y :: select_aio and xs n
    using that by (simp add: highest_eq)
  show "rfds a' = (if In \<in> dirs flag then rfds a - {fd} else rfds a)"
    "wfds a' = (if Out \<in> dirs flag then wfds a - {fd} else wfds a)"
    "pipefd a' = pipefd a" "b \<longleftrightarrow> fd \<notin> rfds a' \<and> fd \<notin> wfds a'"
    "pipe_bytes a' = (if flag = CB_RDWR then pipe_bytes a + 1 else pipe_bytes a)"
    using assms by (cases flag; auto simp: select_unwatch_def Let_def split: if_splits)+
  show "highfds a' = (if b \<and> fd = highfds a then highest a' [0..<highfds a + 1] (pipefd a) else highfds a)"
    using assms by (cases flag; auto simp: select_unwatch_def Let_def split: if_splits intro!: cong)
qed

lemma select_unwatch_law:
  assumes ok: "select_ok a" and fd: "fd \<noteq> pipefd a" and flag: "dirs flag \<noteq> {}"
  shows "\<exists>a'. select_unwatch fd flag a = Some (\<forall>d. (fd, d) \<notin> select_watched a', a') \<and> select_ok a' \<and>
    select_watched a' = select_watched a - {fd} \<times> dirs flag \<and> (\<forall>x. (x \<noteq> pipefd a') = (x \<noteq> pipefd a))"
proof -
  have "\<exists>b a'. select_unwatch fd flag a = Some (b, a')"
    using flag by (cases flag) (simp_all add: select_unwatch_def Let_def)
  then obtain b a' where u: "select_unwatch fd flag a = Some (b, a')"
    by blast
  note f = select_unwatch_effect [OF u]
  let ?A = "rfds a \<union> wfds a" and ?A' = "rfds a' \<union> wfds a'"
  have fin: "finite ?A" "?A' \<subseteq> ?A" "pipefd a \<in> ?A'" "highfds a = Max ?A" "highfds a \<in> ?A"
    using ok fd f(1,2) Max_in [of ?A] by (auto simp: select_ok_def split: if_splits)
  then have fin': "finite ?A'" "\<And>j. j \<in> ?A' \<Longrightarrow> j \<le> highfds a"
    using finite_subset [OF fin(2,1)] Max_ge [OF fin(1)] by auto
  have b: "b \<longleftrightarrow> (\<forall>d. (fd, d) \<notin> select_watched a')"
    unfolding all_dirs using f(3,4) fd by (simp add: select_watched_def)
  have "highfds a' = Max ?A'"
  proof (cases "b \<and> fd = highfds a")
    case True
    then have "highfds a' = highest a' [0..<highfds a + 1] (pipefd a)"
      using f(5) by simp
    also have "\<dots> = Max ?A'"
      by (rule highest_upto [OF fin(3)]) (use fin'(2) in force)
    finally show ?thesis .
  next
    case False
    have "highfds a \<in> ?A'"
    proof (cases "fd = highfds a")
      case True
      then show ?thesis
        using False f(4) by auto
    next
      case False
      then show ?thesis
        using fin(5) f(1,2) by auto
    qed
    then have "Max ?A' = highfds a"
      using fin' by (intro Max_eqI) auto
    moreover have "highfds a' = highfds a"
      unfolding f(5) using False by (rule if_not_P)
    ultimately show ?thesis
      by simp
  qed
  then have "select_ok a'"
    using ok fd f(1,2,3) by (simp add: select_ok_def)
  moreover have "select_watched a' = select_watched a - {fd} \<times> dirs flag"
    using flag f(1,2,3) by (cases flag) (auto simp: select_watched_def split: if_splits)
  ultimately show ?thesis
    using u b f(3) by auto
qed

interpretation sel: aio_mgr select_watch select_unwatch select_watched select_ok "\<lambda>fd a. fd \<noteq> pipefd a"
  by unfold_locales (use select_watch_law select_unwatch_law in blast)+

fun dir_code :: "direction \<Rightarrow> 32 word" where
  "dir_code In = 0x1"
| "dir_code Out = 0x10"

definition dirs_of :: "32 word \<Rightarrow> direction set" where
  "dirs_of st = {d. st AND dir_code d \<noteq> 0}"

definition status_values :: "32 word set" where
  "status_values = {0, 0x1, 0x10, 0x11}"

definition epoll_watched :: "epoll_aio \<Rightarrow> (nat \<times> direction) set" where
  "epoll_watched a = {(fd, d). d \<in> dirs_of (fdstatus a fd)}"

text \<open>The kernel is told of exactly the events in \<open>fdstatus_\<close>.\<close>

definition epoll_ok :: "epoll_aio \<Rightarrow> bool" where
  "epoll_ok a \<longleftrightarrow> (\<forall>fd. fdstatus a fd \<in> status_values \<and>
     interest a fd = (if fdstatus a fd = 0 then None else Some (status_events (fdstatus a fd))))"

lemma dirs_of_eq:
  "dirs_of st = (if st AND 0x1 \<noteq> 0 then {In} else {}) \<union> (if st AND 0x10 \<noteq> 0 then {Out} else {})"
  by (auto simp: dirs_of_def) (metis dir_code.simps direction.exhaust)+

lemma dirs_of_values: "dirs_of 0 = {}" "dirs_of 1 = {In}" "dirs_of 0x10 = {Out}" "dirs_of 0x11 = {In, Out}"
  by (auto simp: dirs_of_eq)

lemma status_join:
  "st \<in> status_values \<Longrightarrow> dirs flag \<noteq> {} \<Longrightarrow>
   st OR flag_code flag \<in> status_values \<and> st OR flag_code flag \<noteq> 0 \<and>
   dirs_of (st OR flag_code flag) = dirs_of st \<union> dirs flag"
  by (cases flag) (auto simp: status_values_def dirs_of_values)

lemma status_cut:
  "st \<in> status_values \<Longrightarrow> dirs flag \<noteq> {} \<Longrightarrow>
   st AND NOT (flag_code flag) \<in> status_values \<and>
   dirs_of (st AND NOT (flag_code flag)) = dirs_of st - dirs flag"
  by (cases flag) (auto simp: status_values_def dirs_of_values)

lemma status_zero: "st \<in> status_values \<Longrightarrow> st = 0 \<longleftrightarrow> dirs_of st = {}"
  by (auto simp: status_values_def dirs_of_values)

lemma zero_status [simp]: "0 \<in> status_values"
  by (simp add: status_values_def)

lemma rdwr_clears: "st \<in> status_values \<Longrightarrow> st AND NOT (flag_code CB_RDWR) = 0"
  by (auto simp: status_values_def)

lemma new_epoll_ok: "epoll_ok new_epoll"
  by (simp add: epoll_ok_def new_epoll_def status_values_def)

lemma epoll_okD:
  assumes "epoll_ok a"
  shows "fdstatus a fd \<in> status_values"
    and "interest a fd = (if fdstatus a fd = 0 then None else Some (status_events (fdstatus a fd)))"
  using assms by (simp_all add: epoll_ok_def)

lemma epoll_ok_upd:
  assumes "epoll_ok a" "st \<in> status_values"
  shows "epoll_ok (a\<lparr>fdstatus := (fdstatus a)(fd := st),
    interest := (interest a)(fd := if st = 0 then None else Some (status_events st))\<rparr>)"
  using assms by (auto simp: epoll_ok_def)

lemma epoll_watch_law:
  assumes ok: "epoll_ok a" and fd: "fd < MAX_POLL_FDS" and flag: "dirs flag \<noteq> {}"
  shows "\<exists>a'. epoll_watch fd flag a = Some a' \<and> epoll_ok a' \<and>
    epoll_watched a' = epoll_watched a \<union> {fd} \<times> dirs flag \<and> (\<forall>x. (x < MAX_POLL_FDS) = (x < MAX_POLL_FDS))"
proof -
  let ?st = "fdstatus a fd OR flag_code flag"
  let ?a = "a\<lparr>fdstatus := (fdstatus a)(fd := ?st), interest := (interest a)(fd \<mapsto> status_events ?st)\<rparr>"
  note st = status_join [OF epoll_okD(1) [OF ok, of fd] flag]
  have "status_events ?st = EPOLLET OR EPOLLIN OR EPOLLOUT" if "flag = CB_RDWR"
    using epoll_okD(1) [OF ok, of fd] that
    by (auto simp: status_values_def status_events_def EPOLLET_def EPOLLIN_def EPOLLOUT_def)
  then have "epoll_watch fd flag a = Some ?a"
    using fd epoll_okD(2) [OF ok, of fd] by (cases "fdstatus a fd = 0") (simp_all add: epoll_watch_def Let_def)
  moreover have "epoll_ok ?a"
    using epoll_ok_upd [OF ok, of ?st fd] st by simp
  moreover have "epoll_watched ?a = epoll_watched a \<union> {fd} \<times> dirs flag"
    using st by (auto simp: epoll_watched_def split: if_splits)
  ultimately show ?thesis
    by blast
qed

lemma epoll_unwatch_eq:
  assumes ok: "epoll_ok a" and fd: "fd < MAX_POLL_FDS" and st: "st = fdstatus a fd AND NOT (flag_code flag)"
    and some: "fdstatus a fd \<noteq> 0"
  shows "epoll_unwatch fd flag a = Some (st = 0, a\<lparr>fdstatus := (fdstatus a)(fd := st),
    interest := (interest a)(fd := if st = 0 then None else Some (status_events st))\<rparr>)"
proof -
  have "flag \<noteq> CB_RDWR" if "st \<noteq> 0"
    using rdwr_clears [OF epoll_okD(1) [OF ok, of fd]] that st by blast
  moreover have "interest a fd = Some (status_events (fdstatus a fd))"
    using epoll_okD(2) [OF ok, of fd] some by simp
  ultimately show ?thesis
    using fd by (cases "st = 0") (simp_all add: epoll_unwatch_def Let_def st [symmetric])
qed

lemma epoll_unwatch_law:
  assumes ok: "epoll_ok a" and fd: "fd < MAX_POLL_FDS" and flag: "dirs flag \<noteq> {}" and d: "(fd, d) \<in> epoll_watched a"
  shows "\<exists>a'. epoll_unwatch fd flag a = Some (\<forall>d. (fd, d) \<notin> epoll_watched a', a') \<and> epoll_ok a' \<and>
    epoll_watched a' = epoll_watched a - {fd} \<times> dirs flag \<and> (\<forall>x. (x < MAX_POLL_FDS) = (x < MAX_POLL_FDS))"
proof -
  define st where st: "st = fdstatus a fd AND NOT (flag_code flag)"
  define a' where a': "a' = a\<lparr>fdstatus := (fdstatus a)(fd := st),
    interest := (interest a)(fd := if st = 0 then None else Some (status_events st))\<rparr>"
  have cut: "st \<in> status_values" "dirs_of st = dirs_of (fdstatus a fd) - dirs flag"
    using status_cut [OF epoll_okD(1) [OF ok, of fd] flag] by (simp_all add: st)
  have "fdstatus a fd \<noteq> 0"
    using d by (auto simp: epoll_watched_def dirs_of_values)
  then have u: "epoll_unwatch fd flag a = Some (st = 0, a')"
    unfolding a' by (rule epoll_unwatch_eq [OF ok fd st])
  have new: "fdstatus a' = (fdstatus a)(fd := st)"
    by (simp add: a')
  have none: "(\<forall>d. (fd, d) \<notin> epoll_watched a') = (st = 0)"
    using status_zero [OF cut(1)] by (simp add: epoll_watched_def new)
  show ?thesis
  proof (intro exI [of _ a'] conjI allI)
    show "epoll_unwatch fd flag a = Some (\<forall>d. (fd, d) \<notin> epoll_watched a', a')"
      unfolding none by (rule u)
    show "epoll_ok a'"
      unfolding a' by (rule epoll_ok_upd [OF ok cut(1)])
    show "epoll_watched a' = epoll_watched a - {fd} \<times> dirs flag"
      unfolding epoll_watched_def new set_eq_iff split_paired_All by (simp add: cut(2))
  qed (rule refl)
qed

interpretation ep: aio_mgr epoll_watch epoll_unwatch epoll_watched epoll_ok "\<lambda>fd a. fd < MAX_POLL_FDS"
  by unfold_locales (use epoll_watch_law epoll_unwatch_law in blast)+

section \<open>Properties\<close>

text \<open>
  C20. The manager on \<open>select\<close> and the one on \<open>epoll\<close> agree: for every sequence of calls that watches
  descriptors other than the internal pipe, below the limit, and unwatches only what is watched, both
  fail no assertion, return the same answers, watch the same descriptors for the same events, and
  \<open>highfds_\<close> is the highest descriptor in the sets of \<open>select\<close>.
\<close>

theorem select_epoll_agree:
  assumes "spec_run (\<lambda>fd. fd \<noteq> pipe0 \<and> fd < MAX_POLL_FDS) os {} = Some (bs, W)"
  shows "\<exists>a e. aio_run select_watch select_unwatch os (new_select pipe0) = Some (bs, a) \<and>
    aio_run epoll_watch epoll_unwatch os new_epoll = Some (bs, e) \<and>
    select_watched a = W \<and> epoll_watched e = W \<and> highfds a = Max (rfds a \<union> wfds a)"
proof -
  let ?ok = "\<lambda>fd. fd \<noteq> pipe0 \<and> fd < MAX_POLL_FDS"
  have "select_watched (new_select pipe0) = {}"
    by (auto simp: select_watched_def new_select_def split: if_splits)
  moreover have "epoll_watched new_epoll = {}"
    by (simp add: epoll_watched_def new_epoll_def dirs_of_values)
  ultimately have runs: "spec_run ?ok os (select_watched (new_select pipe0)) = Some (bs, W)"
      "spec_run ?ok os (epoll_watched new_epoll) = Some (bs, W)"
    using assms by simp_all
  have "\<exists>a. aio_run select_watch select_unwatch os (new_select pipe0) = Some (bs, a) \<and> select_ok a \<and> select_watched a = W"
    by (rule sel.run_refines [OF runs(1) new_select_ok]) (simp add: new_select_def)
  moreover have "\<exists>e. aio_run epoll_watch epoll_unwatch os new_epoll = Some (bs, e) \<and> epoll_ok e \<and> epoll_watched e = W"
    by (rule ep.run_refines [OF runs(2) new_epoll_ok]) simp
  ultimately show ?thesis
    by (auto simp: select_ok_def)
qed

theorem select_epoll_agree_witness:
  "\<exists>a e. aio_run select_watch select_unwatch [Watch 7 CB_RDWR, Watch 9 CB_RDONLY, Unwatch 9 CB_RDONLY, Unwatch 7 CB_WRONLY] (new_select 3) =
      Some ([True, False], a) \<and>
    aio_run epoll_watch epoll_unwatch [Watch 7 CB_RDWR, Watch 9 CB_RDONLY, Unwatch 9 CB_RDONLY, Unwatch 7 CB_WRONLY] new_epoll =
      Some ([True, False], e) \<and>
    select_watched a = {(7, In)} \<and> epoll_watched e = {(7, In)} \<and> highfds a = Max (rfds a \<union> wfds a)"
  by (rule select_epoll_agree) (auto simp: MAX_POLL_FDS_def)

text \<open>
  The test of \<open>EPollAIO\<close> for a watched descriptor answers no for every flag after the descriptor was
  watched for it: \<open>CB_MASK\<close> is the complement of the two bits and clears them.
\<close>

theorem epoll_is_watched_wrong:
  assumes "epoll_ok a" "fd < MAX_POLL_FDS" "dirs flag \<noteq> {}"
  shows "\<exists>a'. epoll_watch fd flag a = Some a' \<and> {fd} \<times> dirs flag \<subseteq> epoll_watched a' \<and>
    epoll_is_watched fd flag a' = Some False"
proof -
  obtain a' where a': "epoll_watch fd flag a = Some a'" "epoll_ok a'"
      "epoll_watched a' = epoll_watched a \<union> {fd} \<times> dirs flag"
    using epoll_watch_law [OF assms] by blast
  have "fdstatus a' fd AND NOT 0x11 = 0"
    using epoll_okD(1) [OF a'(2), of fd] by (auto simp: status_values_def)
  then have "epoll_is_watched fd flag a' = Some False"
    using assms(2,3) by (cases flag) (simp_all add: epoll_is_watched_def)
  then show ?thesis
    using a' by auto
qed

end
