(* ===== verification/Poll_Manager.thy ===== *)
theory Poll_Manager
  imports Poll_Aio
begin

text \<open>
  The class \<open>PollMgr\<close> of \<open>rpc/pollmgr.cc\<close> on its manager, which is a \<open>SelectAIO\<close>: the operations of
  the threads that own descriptors, the thread that calls back, and the protocol by which
  \<open>block_remove_fd\<close> waits for that thread.
\<close>

section \<open>State and operations\<close>

record 'c poll_mgr =
  callbacks :: "nat \<Rightarrow> 'c option"
  aio :: select_aio
  pending_change :: bool

definition new_poll_mgr :: "nat \<Rightarrow> 'c poll_mgr" where
  "new_poll_mgr pipe0 = \<lparr>callbacks = (\<lambda>_. None), aio = new_select pipe0, pending_change = False\<rparr>"

text \<open>\<open>None\<close> is a failed assertion, or an access behind the end of \<open>callbacks_\<close>.\<close>

definition add_callback :: "nat \<Rightarrow> poll_flag \<Rightarrow> 'c \<Rightarrow> 'c poll_mgr \<Rightarrow> 'c poll_mgr option" where
  "add_callback fd flag ch m =
     (if MAX_POLL_FDS \<le> fd then None
      else do {
        a \<leftarrow> select_watch fd flag (aio m);
        if callbacks m fd = None \<or> callbacks m fd = Some ch
        then Some (m\<lparr>callbacks := (callbacks m)(fd := Some ch), aio := a\<rparr>) else None })"

definition del_callback :: "nat \<Rightarrow> poll_flag \<Rightarrow> 'c poll_mgr \<Rightarrow> 'c poll_mgr option" where
  "del_callback fd flag m =
     do {
       (gone, a) \<leftarrow> select_unwatch fd flag (aio m);
       (if gone \<and> MAX_POLL_FDS \<le> fd then None
        else Some (m\<lparr>callbacks := (if gone then (callbacks m)(fd := None) else callbacks m), aio := a\<rparr>)) }"

definition has_callback :: "nat \<Rightarrow> poll_flag \<Rightarrow> 'c \<Rightarrow> 'c poll_mgr \<Rightarrow> bool option" where
  "has_callback fd flag ch m =
     (if MAX_POLL_FDS \<le> fd then None
      else if callbacks m fd \<noteq> Some ch then Some False
      else select_is_watched fd flag (aio m))"

text \<open>\<open>block_remove_fd\<close> up to its wait, and behind it.\<close>

definition remove_begin :: "nat \<Rightarrow> 'c poll_mgr \<Rightarrow> 'c poll_mgr option" where
  "remove_begin fd m = do {
     (gone, a) \<leftarrow> select_unwatch fd CB_RDWR (aio m);
     Some (m\<lparr>aio := a, pending_change := True\<rparr>) }"

definition remove_end :: "nat \<Rightarrow> 'c poll_mgr \<Rightarrow> 'c poll_mgr option" where
  "remove_end fd m =
     (if MAX_POLL_FDS \<le> fd then None else Some (m\<lparr>callbacks := (callbacks m)(fd := None)\<rparr>))"

section \<open>Threads\<close>

text \<open>
  The thread of \<open>wait_loop\<close>: at the top of the loop, before \<open>wait_ready\<close>, in \<open>select\<close> with its copies
  of the sets and of \<open>highfds_\<close>, before the test of the next descriptor that is ready, and inside a
  callback.
\<close>

datatype 'c looper =
    Top
  | Entering
  | Selecting "nat set" "nat set" nat
  | Events "(direction \<times> nat) list"
  | Calling direction nat 'c "(direction \<times> nat) list"

text \<open>
  A thread in \<open>block_remove_fd\<close>: in its wait, behind it after a broadcast, or behind it although
  there was none; POSIX allows that, and the wait is in no loop.
\<close>

datatype remover = Idle | Blocked nat | Woken nat | Early nat

fun wake_remover :: "remover \<Rightarrow> remover" where
  "wake_remover (Blocked fd) = Woken fd"
| "wake_remover r = r"

text \<open>
  \<open>gone\<close> are the descriptors for which \<open>block_remove_fd\<close> has returned, after a broadcast, and that
  were not added again.
\<close>

record 'c poll_sys =
  mgr :: "'c poll_mgr"
  looper :: "'c looper"
  removers :: "nat \<Rightarrow> remover"
  gone :: "nat set"

definition init_poll :: "nat \<Rightarrow> 'c poll_sys" where
  "init_poll pipe0 = \<lparr>mgr = new_poll_mgr pipe0, looper = Top, removers = (\<lambda>_. Idle), gone = {}\<rparr>"

text \<open>
  What \<open>select\<close> may answer: descriptors of the copies that are not above \<open>high\<close>, the pipe if it holds
  a byte and is watched, and at least one.
\<close>

definition select_answer :: "nat set \<Rightarrow> nat set \<Rightarrow> nat \<Rightarrow> select_aio \<Rightarrow> nat set \<Rightarrow> nat set \<Rightarrow> bool" where
  "select_answer r w high a tr tw \<longleftrightarrow> tr \<subseteq> r \<inter> {..high} \<and> tw \<subseteq> w \<inter> {..high} \<and> tr \<union> tw \<noteq> {} \<and>
     (pipefd a \<in> tr \<longleftrightarrow> 0 < pipe_bytes a \<and> pipefd a \<in> r \<and> pipefd a \<le> high)"

definition wake_all :: "(nat \<Rightarrow> remover) \<Rightarrow> nat \<Rightarrow> remover" where
  "wake_all rs = (\<lambda>t. wake_remover (rs t))"

text \<open>
  A step of the loop. Without \<open>events\<close> no descriptor of a connection gets ready and no signal comes,
  and \<open>select\<close> returns for the pipe only.
\<close>

inductive loop_step :: "bool \<Rightarrow> 'c poll_sys \<Rightarrow> 'c poll_sys \<Rightarrow> bool" for events where
  l_broadcast:
  "looper s = Top \<Longrightarrow> pending_change (mgr s) \<Longrightarrow>
   loop_step events s (s\<lparr>mgr := (mgr s)\<lparr>pending_change := False\<rparr>, removers := wake_all (removers s),
     looper := Entering\<rparr>)"
| l_quiet:
  "looper s = Top \<Longrightarrow> \<not> pending_change (mgr s) \<Longrightarrow> loop_step events s (s\<lparr>looper := Entering\<rparr>)"
| l_copy:
  "looper s = Entering \<Longrightarrow>
   loop_step events s (s\<lparr>looper := Selecting (rfds (aio (mgr s))) (wfds (aio (mgr s))) (highfds (aio (mgr s)))\<rparr>)"
| l_ready:
  "looper s = Selecting r w high \<Longrightarrow> select_answer r w high (aio (mgr s)) tr tw \<Longrightarrow>
   events \<or> tr \<union> tw \<subseteq> {pipefd (aio (mgr s))} \<Longrightarrow>
   select_wait high (Ready tr tw) (aio (mgr s)) = Some (rs, ws, a) \<Longrightarrow>
   loop_step events s (s\<lparr>mgr := (mgr s)\<lparr>aio := a\<rparr>, looper := Events (map (Pair In) rs @ map (Pair Out) ws)\<rparr>)"
| l_interrupted:
  "events \<Longrightarrow> looper s = Selecting r w high \<Longrightarrow> loop_step events s (s\<lparr>looper := Events []\<rparr>)"
| l_call:
  "looper s = Events ((d, fd) # es) \<Longrightarrow> callbacks (mgr s) fd = Some ch \<Longrightarrow>
   loop_step events s (s\<lparr>looper := Calling d fd ch es\<rparr>)"
| l_skip:
  "looper s = Events ((d, fd) # es) \<Longrightarrow> callbacks (mgr s) fd = None \<Longrightarrow> loop_step events s (s\<lparr>looper := Events es\<rparr>)"
| l_return:
  "looper s = Calling d fd ch es \<Longrightarrow> loop_step events s (s\<lparr>looper := Events es\<rparr>)"
| l_again:
  "looper s = Events [] \<Longrightarrow> loop_step events s (s\<lparr>looper := Top\<rparr>)"

text \<open>
  The other threads. A descriptor is not added again while it is being removed: its connection closes
  it behind \<open>block_remove_fd\<close>.
\<close>

inductive user_step :: "'c poll_sys \<Rightarrow> 'c poll_sys \<Rightarrow> bool" where
  u_add:
  "add_callback fd flag ch (mgr s) = Some m \<Longrightarrow> dirs flag \<noteq> {} \<Longrightarrow> fd \<noteq> pipefd (aio (mgr s)) \<Longrightarrow>
   (\<forall>t. removers s t \<notin> {Blocked fd, Woken fd, Early fd}) \<Longrightarrow>
   user_step s (s\<lparr>mgr := m, gone := gone s - {fd}\<rparr>)"
| u_del:
  "del_callback fd flag (mgr s) = Some m \<Longrightarrow> fd \<noteq> pipefd (aio (mgr s)) \<Longrightarrow>
   user_step s (s\<lparr>mgr := m\<rparr>)"
| u_remove:
  "removers s t = Idle \<Longrightarrow> remove_begin fd (mgr s) = Some m \<Longrightarrow> fd \<noteq> pipefd (aio (mgr s)) \<Longrightarrow>
   user_step s (s\<lparr>mgr := m, removers := (removers s)(t := Blocked fd)\<rparr>)"
| u_removed:
  "removers s t = Woken fd \<Longrightarrow> remove_end fd (mgr s) = Some m \<Longrightarrow>
   user_step s (s\<lparr>mgr := m, removers := (removers s)(t := Idle), gone := insert fd (gone s)\<rparr>)"
| u_spurious:
  "removers s t = Blocked fd \<Longrightarrow>
   user_step s (s\<lparr>removers := (removers s)(t := Early fd)\<rparr>)"
| u_removed_early:
  "removers s t = Early fd \<Longrightarrow> remove_end fd (mgr s) = Some m \<Longrightarrow>
   user_step s (s\<lparr>mgr := m, removers := (removers s)(t := Idle)\<rparr>)"

inductive poll_reach :: "nat \<Rightarrow> 'c poll_sys \<Rightarrow> bool" for pipe0 where
  start: "poll_reach pipe0 (init_poll pipe0)"
| loop: "poll_reach pipe0 s \<Longrightarrow> loop_step True s s' \<Longrightarrow> poll_reach pipe0 s'"
| user: "poll_reach pipe0 s \<Longrightarrow> user_step s s' \<Longrightarrow> poll_reach pipe0 s'"

lemma quiet_loop_step: "loop_step False s s' \<Longrightarrow> loop_step True s s'"
  by (induction rule: loop_step.induct) (auto intro: loop_step.intros)

section \<open>Invariant\<close>

text \<open>The descriptors whose callbacks the loop may still call in this turn.\<close>

fun loop_fds :: "'c looper \<Rightarrow> nat set" where
  "loop_fds (Selecting r w high) = r \<union> w"
| "loop_fds (Events es) = snd ` set es"
| "loop_fds (Calling d fd ch es) = insert fd (snd ` set es)"
| "loop_fds l = {}"

definition woken :: "'c poll_sys \<Rightarrow> nat set" where
  "woken s = {fd. \<exists>t. removers s t = Woken fd}"

definition removing :: "'c poll_sys \<Rightarrow> nat set" where
  "removing s = {fd. \<exists>t. removers s t = Blocked fd} \<union> {fd. \<exists>t. removers s t = Early fd} \<union> woken s"

definition watch_inv :: "'c poll_sys \<Rightarrow> bool" where
  "watch_inv s \<longleftrightarrow> select_ok (aio (mgr s)) \<and>
     (\<forall>fd \<in> removing s \<union> gone s. fd \<notin> rfds (aio (mgr s)) \<and> fd \<notin> wfds (aio (mgr s)))"

definition loop_inv :: "'c poll_sys \<Rightarrow> bool" where
  "loop_inv s \<longleftrightarrow> (\<forall>fd \<in> woken s \<union> gone s. fd \<notin> loop_fds (looper s)) \<and>
     (\<forall>fd \<in> gone s. callbacks (mgr s) fd = None)"

definition wake_inv :: "'c poll_sys \<Rightarrow> bool" where
  "wake_inv s \<longleftrightarrow> (\<forall>t fd. removers s t = Blocked fd \<longrightarrow> pending_change (mgr s)) \<and>
     (looper s = Entering \<and> pending_change (mgr s) \<longrightarrow> 0 < pipe_bytes (aio (mgr s))) \<and>
     (\<forall>r w high. looper s = Selecting r w high \<longrightarrow>
        pipefd (aio (mgr s)) \<in> r \<and> pipefd (aio (mgr s)) \<notin> w \<and> pipefd (aio (mgr s)) \<le> high \<and>
        (pending_change (mgr s) \<longrightarrow> 0 < pipe_bytes (aio (mgr s))))"

lemma select_scan_effect:
  "select_scan tr tw fds a = Some (rs, ws, a') \<Longrightarrow>
   set rs \<subseteq> tr \<and> set ws \<subseteq> tw \<and> (\<exists>n. a' = a\<lparr>pipe_bytes := n\<rparr>)"
proof (induction tr tw fds a arbitrary: rs ws a' rule: select_scan.induct)
  case (2 tr tw fd fds a)
  show ?case
  proof (cases "fd = pipefd a \<and> fd \<in> tr")
    case True
    then show ?thesis
      using 2(1) [OF True] 2(3) by (auto split: if_splits)
  next
    case False
    then obtain rs' ws' where "select_scan tr tw fds a = Some (rs', ws', a')"
        "rs = (if fd \<in> tr then fd # rs' else rs')" "ws = (if fd \<in> tw then fd # ws' else ws')"
      using 2(3) unfolding select_scan.simps if_not_P [OF False] by (auto simp: map_option_eq_Some)
    with 2(2) [OF False] show ?thesis
      by auto
  qed
next
  case (1 tr tw a)
  then show ?case
    by (auto intro!: exI [of _ "pipe_bytes a'"])
qed

lemma select_scan_runs:
  "distinct fds \<Longrightarrow> (pipefd a \<in> tr \<Longrightarrow> 0 < pipe_bytes a) \<Longrightarrow> \<exists>rs ws a'. select_scan tr tw fds a = Some (rs, ws, a')"
proof (induction fds arbitrary: a)
  case (Cons fd fds)
  have skip: "\<exists>rs ws a'. select_scan tr tw fds a = Some (rs, ws, a')" if "pipefd a \<notin> set fds" for a
    using that Cons.prems(1)
  proof (induction fds)
    case (Cons x xs)
    then obtain rs ws a' where "select_scan tr tw xs a = Some (rs, ws, a')"
      by auto
    then show ?case
      using Cons.prems by auto
  qed simp
  show ?case
  proof (cases "fd = pipefd a \<and> fd \<in> tr")
    case True
    then show ?thesis
      using skip [of "a\<lparr>pipe_bytes := pipe_bytes a - 1\<rparr>"] Cons.prems by auto
  next
    case False
    obtain rs ws a' where "select_scan tr tw fds a = Some (rs, ws, a')"
      using Cons.IH [of a] Cons.prems by auto
    then show ?thesis
      using False by auto
  qed
qed simp

lemma select_ok_bytes: "select_ok (a\<lparr>pipe_bytes := n\<rparr>) = select_ok a"
  by (simp add: select_ok_def)

lemma watch_invD:
  assumes "watch_inv s"
  shows "select_ok (aio (mgr s))"
    and "fd \<in> removing s \<union> gone s \<Longrightarrow> fd \<notin> rfds (aio (mgr s)) \<and> fd \<notin> wfds (aio (mgr s))"
  using assms by (auto simp: watch_inv_def)

lemma woken_removing: "woken s \<subseteq> removing s"
  by (simp add: removing_def)

lemma remove_beginD:
  assumes "remove_begin fd m = Some m'"
  shows "\<exists>b a. select_unwatch fd CB_RDWR (aio m) = Some (b, a) \<and> m' = m\<lparr>aio := a, pending_change := True\<rparr>"
  using assms by (auto simp: remove_begin_def bind_eq_Some_conv)

lemma del_callbackD:
  assumes "del_callback fd flag m = Some m'"
  shows "\<exists>b a. select_unwatch fd flag (aio m) = Some (b, a) \<and>
    m' = m\<lparr>callbacks := (if b then (callbacks m)(fd := None) else callbacks m), aio := a\<rparr>"
  using assms by (auto simp: del_callback_def bind_eq_Some_conv split: if_splits)

lemma add_callbackD:
  assumes "add_callback fd flag ch m = Some m'"
  shows "\<exists>a. select_watch fd flag (aio m) = Some a \<and> fd < MAX_POLL_FDS \<and>
    (callbacks m fd = None \<or> callbacks m fd = Some ch) \<and>
    m' = m\<lparr>callbacks := (callbacks m)(fd := Some ch), aio := a\<rparr>"
  using assms by (auto simp: add_callback_def bind_eq_Some_conv split: if_splits)

lemma remove_endD:
  assumes "remove_end fd m = Some m'"
  shows "m' = m\<lparr>callbacks := (callbacks m)(fd := None)\<rparr>"
  using assms by (simp add: remove_end_def split: if_splits)

lemma unwatch_dirs: "select_unwatch fd flag a = Some (b, a') \<Longrightarrow> dirs flag \<noteq> {}"
  by (cases flag) (simp_all add: select_unwatch_def)

lemma unwatch_keeps:
  assumes "select_unwatch fd flag a = Some (b, a')" "select_ok a" "fd \<noteq> pipefd a"
  shows "select_ok a'" "rfds a' \<subseteq> rfds a" "wfds a' \<subseteq> wfds a" "pipefd a' = pipefd a" "pipe_bytes a \<le> pipe_bytes a'"
    "flag = CB_RDWR \<Longrightarrow> fd \<notin> rfds a' \<and> fd \<notin> wfds a' \<and> 0 < pipe_bytes a'"
proof -
  note f = select_unwatch_effect [OF assms(1)]
  show "select_ok a'"
    using select_unwatch_law [OF assms(2,3) unwatch_dirs [OF assms(1)]] assms(1) by auto
  show "rfds a' \<subseteq> rfds a" "wfds a' \<subseteq> wfds a" "pipefd a' = pipefd a" "pipe_bytes a \<le> pipe_bytes a'"
    "flag = CB_RDWR \<Longrightarrow> fd \<notin> rfds a' \<and> fd \<notin> wfds a' \<and> 0 < pipe_bytes a'"
    using f(1,2,3,6) by auto
qed

lemma removing_moves:
  "removers s' = (removers s)(t := Blocked fd) \<Longrightarrow> removers s t = Idle \<Longrightarrow>
     removing s' = insert fd (removing s) \<and> woken s' = woken s"
  "removers s' = (removers s)(t := Idle) \<Longrightarrow> removing s' \<subseteq> removing s \<and> woken s' \<subseteq> woken s"
  "removers s' = (removers s)(t := Early fd) \<Longrightarrow> removers s t = Blocked fd \<Longrightarrow>
     removing s' \<subseteq> removing s \<and> woken s' \<subseteq> woken s"
  "removers s' = wake_all (removers s) \<Longrightarrow> removing s' = removing s \<and> woken s' \<subseteq> removing s"
  "removers s' = removers s \<Longrightarrow> removing s' = removing s \<and> woken s' = woken s"
proof -
  show "removing s' = insert fd (removing s) \<and> woken s' = woken s"
    if r: "removers s' = (removers s)(t := Blocked fd)" "removers s t = Idle"
  proof -
    have "(\<exists>x. removers s' x = Woken y) \<longleftrightarrow> (\<exists>x. removers s x = Woken y)"
        "(\<exists>x. removers s' x = Early y) \<longleftrightarrow> (\<exists>x. removers s x = Early y)"
        "(\<exists>x. removers s' x = Blocked y) \<longleftrightarrow> y = fd \<or> (\<exists>x. removers s x = Blocked y)" for y
      unfolding r(1) using r(2) by (auto simp: fun_upd_def) (metis remover.distinct)+
    then show ?thesis
      by (auto simp: removing_def woken_def)
  qed
  show "removing s' \<subseteq> removing s \<and> woken s' \<subseteq> woken s" if "removers s' = (removers s)(t := Idle)"
    unfolding removing_def woken_def that by (auto split: if_splits)
  show "removing s' \<subseteq> removing s \<and> woken s' \<subseteq> woken s"
    if "removers s' = (removers s)(t := Early fd)" "removers s t = Blocked fd"
    unfolding removing_def woken_def that(1) using that(2) by (auto split: if_splits)
  have w: "wake_remover r = Woken x \<longleftrightarrow> r = Blocked x \<or> r = Woken x" "wake_remover r \<noteq> Blocked x"
      "wake_remover r = Early x \<longleftrightarrow> r = Early x" for r x
    by (cases r; auto)+
  show "removing s' = removing s \<and> woken s' \<subseteq> removing s" if "removers s' = wake_all (removers s)"
    unfolding removing_def woken_def that wake_all_def by (auto simp: w)
  show "removing s' = removing s \<and> woken s' = woken s" if "removers s' = removers s"
    unfolding removing_def woken_def that by simp
qed

lemma removing_same [simp]:
  "removing (s\<lparr>mgr := m\<rparr>) = removing s" "removing (s\<lparr>looper := l\<rparr>) = removing s" "removing (s\<lparr>gone := g\<rparr>) = removing s"
  "woken (s\<lparr>mgr := m\<rparr>) = woken s" "woken (s\<lparr>looper := l\<rparr>) = woken s" "woken (s\<lparr>gone := g\<rparr>) = woken s"
  by (simp_all add: removing_def woken_def)

lemma loop_step_watch:
  "loop_step ev s s' \<Longrightarrow> watch_inv s \<Longrightarrow> watch_inv s'"
proof (induction rule: loop_step.induct)
  case (l_broadcast s)
  then show ?case
    using removing_moves(4) [of "s\<lparr>mgr := (mgr s)\<lparr>pending_change := False\<rparr>, removers := wake_all (removers s),
        looper := Entering\<rparr>" s]
    by (simp add: watch_inv_def)
next
  case (l_ready s r w high tr tw rs ws a)
  obtain n where "a = (aio (mgr s))\<lparr>pipe_bytes := n\<rparr>"
    using l_ready(4) select_scan_effect [of tr tw _ "aio (mgr s)" rs ws a] by (auto simp: select_wait_def)
  then show ?case
    using l_ready(5) by (simp add: watch_inv_def select_ok_bytes)
qed (simp_all add: watch_inv_def)

lemma user_step_watch:
  "user_step s s' \<Longrightarrow> watch_inv s \<Longrightarrow> watch_inv s'"
proof (induction rule: user_step.induct)
  case (u_add fd flag ch s m)
  obtain a where a: "select_watch fd flag (aio (mgr s)) = Some a" "aio m = a"
    using add_callbackD [OF u_add(1)] by auto
  note f = select_watch_effect [OF a(1) u_add(2)]
  have "select_ok a"
    using select_watch_law [OF watch_invD(1) [OF u_add(5)] u_add(3,2)] a(1) by auto
  moreover have "fd \<notin> removing s"
    using u_add(4) by (auto simp: removing_def woken_def)
  ultimately show ?case
    using f(1,2) a(2) u_add(5) by (auto simp: watch_inv_def)
next
  case (u_del fd flag s m)
  obtain b a where a: "select_unwatch fd flag (aio (mgr s)) = Some (b, a)" "aio m = a"
    using del_callbackD [OF u_del(1)] by auto
  note k = unwatch_keeps [OF a(1) watch_invD(1) [OF u_del(3)] u_del(2)]
  show ?case
    using k(1,2,3) a(2) u_del(3) by (auto simp: watch_inv_def)
next
  case (u_remove s t fd m)
  obtain b a where a: "select_unwatch fd CB_RDWR (aio (mgr s)) = Some (b, a)" "aio m = a"
    using remove_beginD [OF u_remove(2)] by auto
  note k = unwatch_keeps [OF a(1) watch_invD(1) [OF u_remove(4)] u_remove(3)]
  have "removing (s\<lparr>mgr := m, removers := (removers s)(t := Blocked fd)\<rparr>) = insert fd (removing s)"
    using removing_moves(1) [of "s\<lparr>mgr := m, removers := (removers s)(t := Blocked fd)\<rparr>" s t fd] u_remove(1) by simp
  then show ?case
    using k(1,2,3,6) a(2) u_remove(4) by (auto simp: watch_inv_def)
next
  case (u_removed s t fd m)
  let ?s = "s\<lparr>mgr := m, removers := (removers s)(t := Idle), gone := insert fd (gone s)\<rparr>"
  have "aio m = aio (mgr s)"
    using remove_endD [OF u_removed(2)] by simp
  moreover have "removing ?s \<subseteq> removing s"
    using removing_moves(2) [of ?s s t] by simp
  moreover have "fd \<in> removing s"
    using u_removed(1) by (auto simp: removing_def woken_def)
  ultimately show ?case
    using u_removed(3) by (auto simp: watch_inv_def)
next
  case (u_spurious s t fd)
  let ?s = "s\<lparr>removers := (removers s)(t := Early fd)\<rparr>"
  have "removing ?s \<subseteq> removing s"
    using removing_moves(3) [of ?s s t fd] u_spurious(1) by simp
  then show ?case
    using u_spurious(2) by (auto simp: watch_inv_def)
next
  case (u_removed_early s t fd m)
  let ?s = "s\<lparr>mgr := m, removers := (removers s)(t := Idle)\<rparr>"
  have "aio m = aio (mgr s)"
    using remove_endD [OF u_removed_early(2)] by simp
  moreover have "removing ?s \<subseteq> removing s"
    using removing_moves(2) [of ?s s t] by simp
  ultimately show ?case
    using u_removed_early(3) by (auto simp: watch_inv_def)
qed

text \<open>The loop has been at its top before a remover goes on that a broadcast has woken.\<close>

lemma loop_step_loop:
  "loop_step ev s s' \<Longrightarrow> watch_inv s \<Longrightarrow> loop_inv s \<Longrightarrow> loop_inv s'"
proof (induction rule: loop_step.induct)
  case (l_copy s)
  then show ?case
    using woken_removing [of s] by (auto simp: loop_inv_def watch_inv_def)
next
  case (l_ready s r w high tr tw rs ws a)
  have "set rs \<subseteq> tr \<and> set ws \<subseteq> tw"
    using l_ready(4) select_scan_effect [of tr tw _ "aio (mgr s)" rs ws a] by (auto simp: select_wait_def)
  then have "snd ` set (map (Pair In) rs @ map (Pair Out) ws) \<subseteq> r \<union> w"
    using l_ready(2) by (auto simp: select_answer_def)
  then show ?case
    using l_ready(1,6) unfolding loop_inv_def by auto
next
  case (l_broadcast s)
  let ?s = "s\<lparr>mgr := (mgr s)\<lparr>pending_change := False\<rparr>, removers := wake_all (removers s), looper := Entering\<rparr>"
  show ?case
    using l_broadcast by (simp add: loop_inv_def)
qed (auto simp: loop_inv_def)

lemma user_step_loop:
  "user_step s s' \<Longrightarrow> watch_inv s \<Longrightarrow> loop_inv s \<Longrightarrow> loop_inv s'"
proof (induction rule: user_step.induct)
  case (u_add fd flag ch s m)
  have "callbacks m x = callbacks (mgr s) x" if "x \<noteq> fd" for x
    using add_callbackD [OF u_add(1)] that by auto
  then show ?case
    using u_add(6) by (auto simp: loop_inv_def)
next
  case (u_del fd flag s m)
  then show ?case
    using del_callbackD [OF u_del(1)] by (auto simp: loop_inv_def)
next
  case (u_remove s t fd m)
  have "woken (s\<lparr>mgr := m, removers := (removers s)(t := Blocked fd)\<rparr>) = woken s"
    using removing_moves(1) [of "s\<lparr>mgr := m, removers := (removers s)(t := Blocked fd)\<rparr>" s t fd] u_remove(1) by simp
  then show ?case
    using u_remove(5) remove_beginD [OF u_remove(2)] by (auto simp: loop_inv_def)
next
  case (u_removed s t fd m)
  let ?s = "s\<lparr>mgr := m, removers := (removers s)(t := Idle), gone := insert fd (gone s)\<rparr>"
  have "woken ?s \<subseteq> woken s"
    using removing_moves(2) [of ?s s t] by simp
  moreover have "fd \<in> woken s"
    using u_removed(1) by (auto simp: woken_def)
  ultimately show ?case
    using u_removed(4) remove_endD [OF u_removed(2)] by (auto simp: loop_inv_def)
next
  case (u_spurious s t fd)
  have "woken (s\<lparr>removers := (removers s)(t := Early fd)\<rparr>) \<subseteq> woken s"
    using removing_moves(3) [of "s\<lparr>removers := (removers s)(t := Early fd)\<rparr>" s t fd] u_spurious(1) by simp
  then show ?case
    using u_spurious(3) by (auto simp: loop_inv_def)
next
  case (u_removed_early s t fd m)
  have "woken (s\<lparr>mgr := m, removers := (removers s)(t := Idle)\<rparr>) \<subseteq> woken s"
    using removing_moves(2) [of "s\<lparr>mgr := m, removers := (removers s)(t := Idle)\<rparr>" s t] by simp
  then show ?case
    using u_removed_early(4) remove_endD [OF u_removed_early(2)] by (auto simp: loop_inv_def)
qed

text \<open>A byte is in the pipe while a remover waits for a loop that is, or will be, in \<open>select\<close>.\<close>

lemma loop_step_wake:
  "loop_step ev s s' \<Longrightarrow> watch_inv s \<Longrightarrow> wake_inv s \<Longrightarrow> wake_inv s'"
proof (induction rule: loop_step.induct)
  case (l_broadcast s)
  have "wake_remover r \<noteq> Blocked fd" for r fd
    by (cases r) auto
  then show ?case
    by (simp add: wake_inv_def wake_all_def)
next
  case (l_copy s)
  let ?a = "aio (mgr s)"
  have "pipefd ?a \<in> rfds ?a" "pipefd ?a \<notin> wfds ?a" "highfds ?a = Max (rfds ?a \<union> wfds ?a)"
      "finite (rfds ?a \<union> wfds ?a)"
    using l_copy(2) by (auto simp: watch_inv_def select_ok_def)
  then have "pipefd ?a \<in> rfds ?a \<and> pipefd ?a \<notin> wfds ?a \<and> pipefd ?a \<le> highfds ?a"
    by simp
  then show ?case
    using l_copy(1,3) by (simp add: wake_inv_def)
next
  case (l_ready s r w high tr tw rs ws a)
  then show ?case
    by (simp add: wake_inv_def)
qed (auto simp: wake_inv_def)

lemma wake_inv_mono:
  assumes "wake_inv s" "looper s' = looper s" "pipefd (aio (mgr s')) = pipefd (aio (mgr s))"
    and "pipe_bytes (aio (mgr s)) \<le> pipe_bytes (aio (mgr s'))"
    and "pending_change (mgr s') \<Longrightarrow> pending_change (mgr s) \<or> 0 < pipe_bytes (aio (mgr s'))"
    and "\<And>t fd. removers s' t = Blocked fd \<Longrightarrow> pending_change (mgr s')"
  shows "wake_inv s'"
  using assms by (simp add: wake_inv_def) (meson le_trans not_le)

lemma user_step_wake:
  "user_step s s' \<Longrightarrow> watch_inv s \<Longrightarrow> wake_inv s \<Longrightarrow> wake_inv s'"
proof (induction rule: user_step.induct)
  case (u_add fd flag ch s m)
  obtain a where a: "select_watch fd flag (aio (mgr s)) = Some a" "aio m = a" "pending_change m = pending_change (mgr s)"
    using add_callbackD [OF u_add(1)] by auto
  show ?case
    by (rule wake_inv_mono [OF u_add(6)])
      (use u_add(6) select_watch_effect(3,5) [OF a(1) u_add(2)] a(2,3) in \<open>auto simp: wake_inv_def\<close>)
next
  case (u_del fd flag s m)
  obtain b a where a: "select_unwatch fd flag (aio (mgr s)) = Some (b, a)" "aio m = a" "pending_change m = pending_change (mgr s)"
    using del_callbackD [OF u_del(1)] by auto
  show ?case
    by (rule wake_inv_mono [OF u_del(4)])
      (use u_del(4) unwatch_keeps(4,5) [OF a(1) watch_invD(1) [OF u_del(3)] u_del(2)] a(2,3) in \<open>auto simp: wake_inv_def\<close>)
next
  case (u_remove s t fd m)
  obtain b a where a: "select_unwatch fd CB_RDWR (aio (mgr s)) = Some (b, a)" "aio m = a" "pending_change m"
    using remove_beginD [OF u_remove(2)] by auto
  show ?case
    by (rule wake_inv_mono [OF u_remove(5)])
      (use unwatch_keeps(4,5,6) [OF a(1) watch_invD(1) [OF u_remove(4)] u_remove(3)] a(2,3) in simp_all)
next
  case (u_removed s t fd m)
  show ?case
    by (rule wake_inv_mono [OF u_removed(4)])
      (use u_removed(4) remove_endD [OF u_removed(2)] in \<open>auto simp: wake_inv_def split: if_splits\<close>)
next
  case (u_spurious s t fd)
  show ?case
    by (rule wake_inv_mono [OF u_spurious(3)])
      (use u_spurious(3) in \<open>auto simp: wake_inv_def split: if_splits\<close>)
next
  case (u_removed_early s t fd m)
  show ?case
    by (rule wake_inv_mono [OF u_removed_early(4)])
      (use u_removed_early(4) remove_endD [OF u_removed_early(2)] in \<open>auto simp: wake_inv_def split: if_splits\<close>)
qed

lemma init_poll_inv:
  "watch_inv (init_poll pipe0)" "loop_inv (init_poll pipe0)" "wake_inv (init_poll pipe0)"
  using new_select_ok [of pipe0]
  by (simp_all add: watch_inv_def loop_inv_def wake_inv_def init_poll_def new_poll_mgr_def removing_def woken_def)

lemma poll_reach_inv: "poll_reach pipe0 s \<Longrightarrow> watch_inv s \<and> wake_inv s"
  by (induction rule: poll_reach.induct)
    (auto intro: init_poll_inv loop_step_watch loop_step_wake user_step_watch user_step_wake)

lemma poll_reach_loop: "poll_reach pipe0 s \<Longrightarrow> loop_inv s"
proof (induction rule: poll_reach.induct)
  case (loop s s')
  then show ?case
    using loop_step_loop poll_reach_inv by blast
next
  case (user s s')
  then show ?case
    using user_step_loop poll_reach_inv by blast
qed (rule init_poll_inv)

section \<open>Progress of the loop\<close>

text \<open>How far the loop is from its top: the place, and the descriptors that are still to be tested.\<close>

fun loop_rank :: "'c looper \<Rightarrow> nat \<times> nat" where
  "loop_rank Top = (0, 0)"
| "loop_rank (Events es) = (1, 2 * length es)"
| "loop_rank (Calling d fd ch es) = (1, 2 * length es + 1)"
| "loop_rank (Selecting r w high) = (2, 0)"
| "loop_rank Entering = (3, 0)"

lemma loop_step_rank:
  assumes "loop_step ev s s'" "removers s t = Blocked fd" "wake_inv s"
  shows "removers s' t = Woken fd \<or>
    removers s' t = Blocked fd \<and> (loop_rank (looper s'), loop_rank (looper s)) \<in> less_than <*lex*> less_than"
proof -
  have "pending_change (mgr s)"
    using assms(2,3) by (auto simp: wake_inv_def)
  with assms(1,2) show ?thesis
    by (induction rule: loop_step.induct) (auto simp: wake_all_def)
qed

lemma pipe_answer:
  assumes "wake_inv s" "removers s t = Blocked fd" "looper s = Selecting r w high"
  shows "0 < pipe_bytes (aio (mgr s)) \<and>
    select_answer r w high (aio (mgr s)) {pipefd (aio (mgr s))} {}"
proof -
  have "pending_change (mgr s)"
    using assms(1,2) unfolding wake_inv_def by blast
  then have "pipefd (aio (mgr s)) \<in> r \<and> pipefd (aio (mgr s)) \<le> high \<and> 0 < pipe_bytes (aio (mgr s))"
    using assms(1,3) unfolding wake_inv_def by blast
  then show ?thesis
    by (simp add: select_answer_def)
qed

lemma loop_step_enabled:
  assumes "wake_inv s" "removers s t = Blocked fd"
  shows "\<exists>s'. loop_step False s s'"
proof (cases "looper s")
  case Top
  show ?thesis
    by (cases "pending_change (mgr s)") (rule exI, erule l_broadcast [OF Top], rule exI, erule l_quiet [OF Top])
next
  case Entering
  then show ?thesis
    by (intro exI) (rule l_copy)
next
  case (Selecting r w high)
  let ?a = "aio (mgr s)"
  note ans = pipe_answer [OF assms Selecting]
  have "\<exists>rs ws a'. select_scan {pipefd ?a} {} [0..<high + 1] ?a = Some (rs, ws, a')"
    by (rule select_scan_runs [OF distinct_upt]) (rule conjunct1 [OF ans])
  then obtain rs ws a' where "select_wait high (Ready {pipefd ?a} {}) ?a = Some (rs, ws, a')"
    unfolding select_wait_def select_result.case by blast
  then show ?thesis
    by (intro exI) (rule l_ready [OF Selecting conjunct2 [OF ans]], simp)
next
  case (Events es)
  show ?thesis
  proof (cases es)
    case Nil
    with Events have "looper s = Events []"
      by simp
    then show ?thesis
      by (intro exI) (rule l_again)
  next
    case (Cons e es')
    then have e: "looper s = Events ((fst e, snd e) # es')"
      using Events by simp
    show ?thesis
      by (cases "callbacks (mgr s) (snd e)") (rule exI, erule l_skip [OF e], rule exI, erule l_call [OF e])
  qed
next
  case (Calling d fd' ch es)
  then show ?thesis
    by (intro exI) (rule l_return)
qed

lemma user_step_waits:
  "user_step s s' \<Longrightarrow> removers s t = Blocked fd \<Longrightarrow>
   looper s' = looper s \<and> (removers s' t = Blocked fd \<or> removers s' t = Early fd)"
  by (induction rule: user_step.induct) auto

text \<open>Left alone, with nothing but the pipe to make \<open>select\<close> return, the loop comes to the broadcast.\<close>

lemma loop_wakes:
  assumes "removers s t = Blocked fd" "watch_inv s" "wake_inv s"
  shows "\<exists>s'. (loop_step False)\<^sup>*\<^sup>* s s' \<and> removers s' t = Woken fd"
proof -
  have "wf (inv_image (less_than <*lex*> less_than) (\<lambda>s :: 'c poll_sys. loop_rank (looper s)))"
    by (intro wf_inv_image wf_lex_prod wf_less_than)
  then show ?thesis
    using assms
  proof (induction s rule: wf_induct_rule)
    case (less s)
    obtain s1 where s1: "loop_step False s s1"
      using loop_step_enabled [OF less.prems(3,1)] by blast
    from loop_step_rank [OF s1 less.prems(1,3)] show ?case
    proof
      assume "removers s1 t = Woken fd"
      with s1 show ?thesis
        by blast
    next
      assume b: "removers s1 t = Blocked fd \<and>
          (loop_rank (looper s1), loop_rank (looper s)) \<in> less_than <*lex*> less_than"
      then have "\<exists>s'. (loop_step False)\<^sup>*\<^sup>* s1 s' \<and> removers s' t = Woken fd"
        using loop_step_watch [OF s1 less.prems(2)] loop_step_wake [OF s1 less.prems(2,3)]
        by (intro less.IH) simp_all
      with s1 show ?thesis
        by (meson converse_rtranclp_into_rtranclp)
    qed
  qed
qed

section \<open>Runs\<close>

text \<open>The descriptor 7 is added and then removed.\<close>

definition demo_mgr :: "bool \<Rightarrow> nat set \<Rightarrow> nat \<Rightarrow> nat \<Rightarrow> nat poll_mgr" where
  "demo_mgr change rs n high = \<lparr>callbacks = (\<lambda>_. None)(7 := Some 1),
     aio = \<lparr>rfds = rs, wfds = {}, highfds = high, pipefd = 3, pipe_bytes = n\<rparr>, pending_change = change\<rparr>"

lemma demo_add: "add_callback 7 CB_RDONLY 1 (new_poll_mgr 3) = Some (demo_mgr False {7, 3} 1 7)"
  by (simp add: add_callback_def new_poll_mgr_def demo_mgr_def new_select_def select_watch_def MAX_POLL_FDS_def)

lemma demo_remove: "remove_begin 7 (demo_mgr False {7, 3} n 7) = Some (demo_mgr True {3} (n + 1) 3)"
  by (simp add: remove_begin_def demo_mgr_def select_unwatch_def upt_rec insert_Diff_if)

definition demo_added :: "nat \<Rightarrow> nat looper \<Rightarrow> nat poll_sys" where
  "demo_added n l = \<lparr>mgr = demo_mgr False {7, 3} n 7, looper = l, removers = (\<lambda>_. Idle), gone = {}\<rparr>"

definition demo_removing :: "nat \<Rightarrow> nat looper \<Rightarrow> nat poll_sys" where
  "demo_removing n l = \<lparr>mgr = demo_mgr True {3} (n + 1) 3, looper = l, removers = (\<lambda>_. Idle)(0 := Blocked 7), gone = {}\<rparr>"

lemma demo_added_reach: "poll_reach 3 (demo_added 1 Top)"
proof -
  have "user_step (init_poll 3) ((init_poll 3)\<lparr>mgr := demo_mgr False {7, 3} 1 7, gone := gone (init_poll 3 :: nat poll_sys) - {7}\<rparr>)"
    by (rule u_add [where flag = CB_RDONLY and ch = 1])
      (use demo_add in \<open>simp_all add: init_poll_def new_poll_mgr_def new_select_def\<close>)
  then show ?thesis
    using poll_reach.user [OF poll_reach.start] by (fastforce simp: init_poll_def demo_added_def)
qed

lemma demo_looper: "(demo_added n l)\<lparr>looper := l'\<rparr> = demo_added n l'"
  by (simp add: demo_added_def)

lemma demo_selecting_reach: "poll_reach 3 (demo_added 1 (Selecting {7, 3} {} 7))"
proof -
  have "loop_step True (demo_added 1 Top) ((demo_added 1 Top)\<lparr>looper := Entering\<rparr>)"
    by (rule l_quiet) (simp_all add: demo_added_def demo_mgr_def)
  then have 1: "poll_reach 3 (demo_added 1 Entering)"
    using poll_reach.loop [OF demo_added_reach] unfolding demo_looper by blast
  have "loop_step True (demo_added 1 Entering) ((demo_added 1 Entering)\<lparr>looper := Selecting {7, 3} {} 7\<rparr>)"
    using l_copy [of "demo_added 1 Entering"] by (simp add: demo_added_def demo_mgr_def)
  then show ?thesis
    using poll_reach.loop [OF 1] unfolding demo_looper by blast
qed

lemma demo_removing_reach:
  assumes "poll_reach 3 (demo_added n l)"
  shows "poll_reach 3 (demo_removing n l)"
proof -
  have "user_step (demo_added n l) ((demo_added n l)\<lparr>mgr := demo_mgr True {3} (n + 1) 3, removers := (removers (demo_added n l))(0 := Blocked 7)\<rparr>)"
    by (rule u_remove) (use demo_remove in \<open>simp_all add: demo_added_def demo_mgr_def\<close>)
  moreover have "(demo_added n l)\<lparr>mgr := demo_mgr True {3} (n + 1) 3, removers := (removers (demo_added n l))(0 := Blocked 7)\<rparr> = demo_removing n l"
    by (simp add: demo_added_def demo_removing_def)
  ultimately show ?thesis
    using poll_reach.user [OF assms] by metis
qed

lemma demo_removed_step:
  assumes "removers s t = Woken 7"
  shows "user_step s (s\<lparr>mgr := (mgr s)\<lparr>callbacks := (callbacks (mgr s))(7 := None)\<rparr>,
    removers := (removers s)(t := Idle), gone := insert 7 (gone s)\<rparr>)"
  by (rule u_removed [OF assms]) (simp add: remove_end_def MAX_POLL_FDS_def)

definition demo_gone :: "nat poll_sys" where
  "demo_gone = \<lparr>mgr = (demo_mgr False {3} 2 3)\<lparr>callbacks := (\<lambda>_. None)\<rparr>, looper = Entering, removers = (\<lambda>_. Idle), gone = {7}\<rparr>"

lemma demo_gone_reach: "poll_reach 3 demo_gone"
proof -
  let ?s = "demo_removing 1 Top"
  let ?s' = "?s\<lparr>mgr := (mgr ?s)\<lparr>pending_change := False\<rparr>, removers := wake_all (removers ?s), looper := Entering\<rparr>"
  have "loop_step True ?s ?s'"
    by (rule l_broadcast) (simp_all add: demo_removing_def demo_mgr_def)
  then have r: "poll_reach 3 ?s'"
    by (rule poll_reach.loop [OF demo_removing_reach [OF demo_added_reach]])
  have w: "removers ?s' 0 = Woken 7"
    by (simp add: demo_removing_def wake_all_def)
  have "poll_reach 3 (?s'\<lparr>mgr := (mgr ?s')\<lparr>callbacks := (callbacks (mgr ?s'))(7 := None)\<rparr>,
      removers := (removers ?s')(0 := Idle), gone := insert 7 (gone ?s')\<rparr>)"
    by (rule poll_reach.user [OF r demo_removed_step [OF w]])
  also have "?s'\<lparr>mgr := (mgr ?s')\<lparr>callbacks := (callbacks (mgr ?s'))(7 := None)\<rparr>,
      removers := (removers ?s')(0 := Idle), gone := insert 7 (gone ?s')\<rparr> = demo_gone"
    by (auto simp: demo_gone_def demo_removing_def demo_mgr_def wake_all_def)
  finally show ?thesis .
qed

lemma demo_ready: "loop_step True (demo_added 1 (Selecting {7, 3} {} 7)) (demo_added 0 (Events [(In, 7)]))"
proof -
  let ?s = "demo_added 1 (Selecting {7, 3} {} 7)"
  have "loop_step True ?s (?s\<lparr>mgr := (mgr ?s)\<lparr>aio := (aio (mgr ?s))\<lparr>pipe_bytes := 0\<rparr>\<rparr>,
      looper := Events (map (Pair In) [7] @ map (Pair Out) [])\<rparr>)"
  proof (rule l_ready [where tr = "{7, 3}" and tw = "{}"])
    show "select_answer {7, 3} {} 7 (aio (mgr ?s)) {7, 3} {}"
      by (simp add: demo_added_def demo_mgr_def select_answer_def)
    have "select_scan {7, 3} {} [0, 1, 2, 3, 4, 5, 6, 7] (aio (mgr ?s)) =
        Some ([7], [], (aio (mgr ?s))\<lparr>pipe_bytes := 0\<rparr>)"
      by (simp add: demo_added_def demo_mgr_def)
    moreover have "[0..<7 + 1] = [0, 1, 2, 3, 4, 5, 6, 7]"
      by code_simp
    ultimately show "select_wait 7 (Ready {7, 3} {}) (aio (mgr ?s)) = Some ([7], [], (aio (mgr ?s))\<lparr>pipe_bytes := 0\<rparr>)"
      unfolding select_wait_def by (simp only: select_result.case)
  qed (simp_all add: demo_added_def)
  then show ?thesis
    by (simp add: demo_added_def demo_mgr_def)
qed

section \<open>Properties\<close>

text \<open>
  C9. The promise of \<open>block_remove_fd\<close>, when its wait was ended by the broadcast: from its return until
  the descriptor is added again, the loop is not inside a callback of the descriptor, has none of it
  left to call, does not watch it, and has no object to call for it. The waits of other threads may
  meanwhile return spuriously; for a wait that does so itself see the last theorem of this theory.
\<close>

theorem removed_never_called:
  assumes "poll_reach pipe0 s" "fd \<in> gone s"
  shows "fd \<notin> loop_fds (looper s) \<and> callbacks (mgr s) fd = None \<and> (fd, d) \<notin> select_watched (aio (mgr s))"
  using poll_reach_loop [OF assms(1)] watch_invD(2) [of s fd] poll_reach_inv [OF assms(1)] assms(2)
  by (auto simp: loop_inv_def select_watched_def)

theorem removed_never_called_witness:
  "7 \<notin> loop_fds (looper demo_gone) \<and> callbacks (mgr demo_gone) 7 = None \<and>
    (7, In) \<notin> select_watched (aio (mgr demo_gone))"
  by (rule removed_never_called [OF demo_gone_reach]) (simp add: demo_gone_def)

text \<open>
  C28. \<open>block_remove_fd\<close> does not sleep for ever: while a thread waits in it, the loop comes to its
  broadcast and wakes the thread even if no descriptor ever gets ready and no signal interrupts
  \<open>select\<close>, because the byte that \<open>unwatch_fd\<close> has put into the pipe makes it return. If descriptors do
  get ready, each step of the loop still wakes the thread or is a step closer to the broadcast, and
  nothing another thread does sets the loop back. A callback is assumed to return.
\<close>

theorem removal_completes:
  assumes "poll_reach pipe0 s" "removers s t = Blocked fd"
  shows "(\<exists>s'. (loop_step False)\<^sup>*\<^sup>* s s' \<and> removers s' t = Woken fd) \<and>
    (\<forall>s'. loop_step True s s' \<longrightarrow> removers s' t = Woken fd \<or>
       removers s' t = Blocked fd \<and> (loop_rank (looper s'), loop_rank (looper s)) \<in> less_than <*lex*> less_than) \<and>
    (\<forall>s'. user_step s s' \<longrightarrow> looper s' = looper s \<and> (removers s' t = Blocked fd \<or> removers s' t = Early fd))"
  using loop_wakes [OF assms(2)] loop_step_rank [OF _ assms(2)] user_step_waits [OF _ assms(2)]
    poll_reach_inv [OF assms(1)]
  by blast

theorem removal_completes_witness:
  "\<exists>s'. (loop_step False)\<^sup>*\<^sup>* (demo_removing 1 (Selecting {7, 3} {} 7)) s' \<and> removers s' 0 = Woken 7"
proof -
  have "removers (demo_removing 1 (Selecting {7, 3} {} 7)) 0 = Blocked 7"
    by (simp add: demo_removing_def)
  from removal_completes [OF demo_removing_reach [OF demo_selecting_reach] this] show ?thesis
    by blast
qed

text \<open>
  The wait of \<open>block_remove_fd\<close> is not in a loop. When it returns without a broadcast, the thread
  goes on, and has returned from \<open>block_remove_fd\<close>, while the loop is inside the callback of the
  descriptor it has removed.
\<close>

theorem spurious_wakeup_breaks_removal:
  "\<exists>s :: nat poll_sys. poll_reach 3 s \<and> removers s 0 = Idle \<and> callbacks (mgr s) 7 = None \<and>
    (\<exists>s0. user_step s0 s \<and> removers s0 0 = Early 7) \<and> looper s = Calling In 7 1 []"
proof -
  let ?l = "Calling In 7 1 []"
  have "loop_step True (demo_added 1 (Selecting {7, 3} {} 7)) (demo_added 0 (Events [(In, 7)]))"
    by (rule demo_ready)
  then have 3: "poll_reach 3 (demo_added 0 (Events [(In, 7)]))"
    by (rule poll_reach.loop [OF demo_selecting_reach])
  have "loop_step True (demo_added 0 (Events [(In, 7)])) ((demo_added 0 (Events [(In, 7)]))\<lparr>looper := ?l\<rparr>)"
    by (rule l_call) (simp_all add: demo_added_def demo_mgr_def)
  then have "poll_reach 3 (demo_added 0 ?l)"
    using poll_reach.loop [OF 3] unfolding demo_looper by blast
  then have 4: "poll_reach 3 (demo_removing 0 ?l)"
    by (rule demo_removing_reach)
  let ?s = "(demo_removing 0 ?l)\<lparr>removers := (removers (demo_removing 0 ?l))(0 := Early 7)\<rparr>"
  have "user_step (demo_removing 0 ?l) ?s"
    by (rule u_spurious) (simp add: demo_removing_def)
  then have 5: "poll_reach 3 ?s"
    by (rule poll_reach.user [OF 4])
  let ?s' = "?s\<lparr>mgr := (mgr ?s)\<lparr>callbacks := (callbacks (mgr ?s))(7 := None)\<rparr>, removers := (removers ?s)(0 := Idle)\<rparr>"
  have early: "user_step ?s ?s'"
    by (rule u_removed_early [where fd = 7]) (simp_all add: remove_end_def MAX_POLL_FDS_def)
  show ?thesis
  proof (rule exI [of _ ?s'], intro conjI)
    show "poll_reach 3 ?s'"
      by (rule poll_reach.user [OF 5 early])
    show "\<exists>s0. user_step s0 ?s' \<and> removers s0 0 = Early 7"
      by (rule exI [of _ ?s]) (use early in simp)
  qed (simp_all add: demo_removing_def)
qed

end
