(* ===== verification/Addresses.thy ===== *)
theory Addresses
  imports Prelude
begin

text \<open>
  The address helpers of \<open>rpc/rpc.cc\<close>: the two functions \<open>make_sockaddr\<close>, which parse the text of an
  address, and the order of addresses. C strings are lists of characters without the terminator; the
  resolver functions of the library are parameters.
\<close>

unbundle bit_operations_syntax

text \<open>Both fields are in network order.\<close>

datatype sockaddr_in = Sockaddr (s_addr: u32) (sin_port: u16)

section \<open>Operations\<close>

definition sockaddr_less :: "sockaddr_in \<Rightarrow> sockaddr_in \<Rightarrow> bool" where
  "sockaddr_less a b \<longleftrightarrow> s_addr a < s_addr b \<or> (s_addr a = s_addr b \<and> sin_port a < sin_port b)"

text \<open>\<open>index\<close>: where a character occurs first.\<close>

fun index_of :: "char \<Rightarrow> string \<Rightarrow> nat option" where
  "index_of c [] = None"
| "index_of c (x # xs) = (if x = c then Some 0 else map_option Suc (index_of c xs))"

text \<open>The host and the port of an address; \<open>host\<close> is an array of 200 characters.\<close>

definition split_address :: "string \<Rightarrow> (string \<times> string) option" where
  "split_address hostandport =
     (case index_of (CHR '':'') hostandport of
        None \<Rightarrow> Some (''127.0.0.1'', hostandport)
      | Some i \<Rightarrow> if i < 200 then Some (take i hostandport, drop (i + 1) hostandport) else None)"

definition isspace :: "char \<Rightarrow> bool" where
  "isspace c \<longleftrightarrow> c \<in> {CHR '' '', CHR 0x09, CHR 0x0A, CHR 0x0B, CHR 0x0C, CHR 0x0D}"

definition isdigit :: "char \<Rightarrow> bool" where
  "isdigit c \<longleftrightarrow> 48 \<le> (of_char c :: nat) \<and> (of_char c :: nat) \<le> 57"

fun digits_value :: "int \<Rightarrow> string \<Rightarrow> int" where
  "digits_value n [] = n"
| "digits_value n (c # cs) = (if isdigit c then digits_value (10 * n + (int (of_char c) - 48)) cs else n)"

definition atoi :: "string \<Rightarrow> int option" where
  "atoi s =
     (let s = dropWhile isspace s;
          n = (case s of
                 [] \<Rightarrow> 0
               | c # cs \<Rightarrow> if c = CHR ''-'' then - digits_value 0 cs
                           else if c = CHR ''+'' then digits_value 0 cs else digits_value 0 s)
      in if fits_int n then Some n else None)"

definition htons :: "u16 \<Rightarrow> u16" where
  "htons w = push_bit 8 w OR drop_bit 8 w"

text \<open>\<open>inet\<close> is \<open>inet_addr\<close>, and \<open>hosts\<close> gives the IPv4 address \<open>gethostbyname\<close> finds.\<close>

definition INADDR_NONE :: u32 where "INADDR_NONE = 0xFFFFFFFF"

datatype lookup = Found sockaddr_in | Exits

definition make_sockaddr2 ::
  "(string \<Rightarrow> u32) \<Rightarrow> (string \<Rightarrow> u32 option) \<Rightarrow> string \<Rightarrow> string \<Rightarrow> lookup option" where
  "make_sockaddr2 inet hosts host port =
     (case (if inet host \<noteq> INADDR_NONE then Some (inet host) else hosts host) of
        None \<Rightarrow> Some Exits
      | Some a \<Rightarrow> map_option (\<lambda>n. Found (Sockaddr a (htons (word_of_int n)))) (atoi port))"

definition make_sockaddr ::
  "(string \<Rightarrow> u32) \<Rightarrow> (string \<Rightarrow> u32 option) \<Rightarrow> string \<Rightarrow> lookup option" where
  "make_sockaddr inet hosts hostandport = do {
     (host, port) \<leftarrow> split_address hostandport;
     make_sockaddr2 inet hosts host port
   }"

section \<open>The order\<close>

instantiation sockaddr_in :: linorder
begin

definition less_sockaddr_in :: "sockaddr_in \<Rightarrow> sockaddr_in \<Rightarrow> bool" where
  "less_sockaddr_in = sockaddr_less"

definition less_eq_sockaddr_in :: "sockaddr_in \<Rightarrow> sockaddr_in \<Rightarrow> bool" where
  "less_eq_sockaddr_in a b \<longleftrightarrow> sockaddr_less a b \<or> a = b"

instance
proof
  fix a b c :: sockaddr_in
  show "a < b \<longleftrightarrow> a \<le> b \<and> \<not> b \<le> a" "a \<le> a"
    by (cases a; cases b; auto simp: less_sockaddr_in_def less_eq_sockaddr_in_def sockaddr_less_def)+
  show "a \<le> c" if "a \<le> b" "b \<le> c"
    using that by (cases a; cases b; cases c) (auto simp: less_eq_sockaddr_in_def sockaddr_less_def)
  show "a = b" if "a \<le> b" "b \<le> a"
    using that by (cases a; cases b) (auto simp: less_eq_sockaddr_in_def sockaddr_less_def)
  show "a \<le> b \<or> b \<le> a"
    by (cases a; cases b) (auto simp: less_eq_sockaddr_in_def sockaddr_less_def)
qed

end

section \<open>Parsing\<close>

text \<open>The decimal digits of a number, as the programs print a port.\<close>

fun decimal :: "nat \<Rightarrow> string" where
  "decimal n = (if n < 10 then [char_of (48 + n)] else decimal (n div 10) @ [char_of (48 + n mod 10)])"

declare decimal.simps [simp del]

lemma digit_char: "d < 10 \<Longrightarrow> isdigit (char_of (48 + d)) \<and> of_char (char_of (48 + d) :: char) = 48 + d" for d :: nat
  by (simp add: isdigit_def)

lemma digits_value_append:
  "\<forall>c \<in> set cs. isdigit c \<Longrightarrow> digits_value n (cs @ ds) = digits_value (digits_value n cs) ds"
  by (induction cs arbitrary: n) simp_all

lemma decimal_digits: "\<forall>c \<in> set (decimal n). isdigit c"
proof (induction n rule: decimal.induct)
  case (1 n)
  then show ?case
    using digit_char [of n] digit_char [of "n mod 10"] by (subst decimal.simps) auto
qed

lemma digits_decimal: "digits_value 0 (decimal n) = int n"
proof (induction n rule: decimal.induct)
  case (1 n)
  have d: "isdigit (char_of (48 + d))" "of_char (char_of (48 + d) :: char) = 48 + d" if "d < 10" for d :: nat
    using digit_char [OF that] by blast+
  show ?case
  proof (cases "n < 10")
    case True
    then show ?thesis
      using d [OF True] by (simp add: decimal.simps [of n])
  next
    case False
    have "digits_value 0 (decimal n) = 10 * int (n div 10) + int (n mod 10)"
      using 1 False d [of "n mod 10"] decimal_digits [of "n div 10"]
      by (simp add: decimal.simps [of n] digits_value_append)
    then show ?thesis
      by (simp add: zdiv_int zmod_int)
  qed
qed

lemma index_of_first: "c \<notin> set xs \<Longrightarrow> index_of c (xs @ c # ys) = Some (length xs)"
  by (induction xs) auto

lemma decimal_head: "\<exists>c cs. decimal n = c # cs \<and> isdigit c"
proof -
  have "decimal n \<noteq> []"
    by (subst decimal.simps) simp
  then obtain c cs where "decimal n = c # cs"
    by (cases "decimal n") auto
  then show ?thesis
    using decimal_digits [of n] by simp
qed

lemma digit_no_sign: "isdigit c \<Longrightarrow> \<not> isspace c \<and> c \<noteq> CHR ''-'' \<and> c \<noteq> CHR ''+''"
  by (auto simp: isdigit_def isspace_def)

lemma atoi_decimal: "int n \<le> int_max \<Longrightarrow> atoi (decimal n) = Some (int n)"
proof -
  assume n: "int n \<le> int_max"
  obtain c cs where c: "decimal n = c # cs" "isdigit c"
    using decimal_head by blast
  have v: "digits_value 0 (c # cs) = int n"
    using digits_decimal [of n] c(1) by simp
  have "dropWhile isspace (c # cs) = c # cs"
    using digit_no_sign [OF c(2)] by simp
  then have "atoi (decimal n) = (if fits_int (int n) then Some (int n) else None)"
    using digit_no_sign [OF c(2)] v unfolding atoi_def c(1) by (simp del: digits_value.simps)
  then show ?thesis
    using n by (simp add: fits_int_def int_max_def)
qed

lemma htons_htons: "htons (htons w) = w"
  by (rule bit_word_eqI) (auto simp: htons_def bit_simps)

section \<open>Properties\<close>

text \<open>
  An address that is printed as a host, a colon and a decimal port is parsed back: the address is the one
  the resolver gives for exactly that host, and the port, in network order, is the one that was
  printed. The host must fit into the array.
\<close>

theorem address_parsed_back:
  assumes "CHR '':'' \<notin> set host" "length host < 200" "n < 2 ^ 16"
    and "inet host = INADDR_NONE \<Longrightarrow> hosts host \<noteq> None"
  shows "\<exists>a p. make_sockaddr inet hosts (host @ CHR '':'' # decimal n) = Some (Found (Sockaddr a p)) \<and>
    a = (if inet host \<noteq> INADDR_NONE then inet host else the (hosts host)) \<and> htons p = word_of_nat n \<and>
    unat (htons p) = n"
proof -
  have "split_address (host @ CHR '':'' # decimal n) = Some (host, decimal n)"
    using assms(2) by (simp add: split_address_def index_of_first [OF assms(1)])
  moreover have "atoi (decimal n) = Some (int n)"
    using assms(3) by (intro atoi_decimal) (simp add: int_max_def)
  moreover have "unat (word_of_nat n :: u16) = n"
    using assms(3) by (simp add: unat_word_of_nat_lt)
  ultimately show ?thesis
    using assms(4) by (auto simp: make_sockaddr_def make_sockaddr2_def htons_htons)
qed

theorem address_parsed_back_witness:
  "\<exists>a p. make_sockaddr (\<lambda>h. 0x0100007F) (\<lambda>h. None) (''127.0.0.1'' @ CHR '':'' # decimal 3772) = Some (Found (Sockaddr a p)) \<and>
    a = (if (0x0100007F :: u32) \<noteq> INADDR_NONE then 0x0100007F else the None) \<and> htons p = word_of_nat 3772 \<and>
    unat (htons p) = 3772"
  by (rule address_parsed_back) (simp_all add: INADDR_NONE_def)

text \<open>
  The array of the host has 200 characters and nothing compares it with the text: a host of 200 characters
  or more is copied over its end.
\<close>

theorem long_host_overruns:
  assumes "CHR '':'' \<notin> set host" "200 \<le> length host"
  shows "make_sockaddr inet hosts (host @ CHR '':'' # port) = None"
  using assms(2) by (simp add: make_sockaddr_def split_address_def index_of_first [OF assms(1)])

end
