(* ===== verification/Spec2Isabelle.thy ===== *)
theory Spec2Isabelle
  imports Timespec Server_Shutdown Dispatch_Replies Bound_Calls Lock_Tester Rpc_Test Connection_Send Poll_Manager Call_Loop
    Addresses
begin

text \<open>
  A lock service and the RPC library it runs on. A client links \<open>lock_client.cc\<close> and talks through
  \<open>rpcc\<close> to the server program \<open>lock_smain.cc\<close>, whose \<open>rpcs\<close> calls the handlers of
  \<open>lock_server.cc\<close>. Both ends send messages over a \<open>connection\<close>, a TCP socket with a reference
  count; one thread, the poll manager, calls a connection back when its socket is ready, and hands a
  complete message to \<open>got_pdu\<close> of the end. The server puts the message as a job into the queue of
  a thread pool, whose workers run \<open>dispatch\<close>; the client looks up the caller that waits for the
  reply. Requests carry ids and acknowledgements, with which the server keeps a window of replies
  per client and runs no request twice.

  \<^bold>\<open>The theories, from below.\<close>

  \<^item> \<open>Prelude\<close>: machine integers, memory blocks, lists, bytes of words. A value of type
    \<open>option\<close> is a run of code, and \<open>None\<close> is a failed assertion or undefined behaviour.
  \<^item> \<open>Marshalling\<close>, \<open>Wire_Codec\<close> (\<open>rpc/marshall.h\<close>, the readers and writers of
    \<open>rpc/rpc.cc\<close>): the two buffer classes and the formats of every type. The lemmas are round trips
    through the locale of a format, bounds of the buffers, and what a malformed message does.
  \<^item> \<open>Timespec\<close>, \<open>Addresses\<close>: the time arithmetic of the deadlines, and \<open>make_sockaddr\<close>.
  \<^item> \<open>Xid_Window\<close> (\<open>rpcc::update_xid_rep\<close>): the ids a client acknowledges.
  \<^item> \<open>Reply_Window\<close> (\<open>checkduplicate_and_update\<close>, \<open>add_reply\<close>, \<open>free_reply_window\<close>): the
    replies a server keeps, with their buffers in an explicit heap. At most once, the resending of
    saved replies, and no double free.
  \<^item> \<open>Rpc_Stubs\<close> (the templates of \<open>rpc/rpc.h\<close>): \<open>call\<close> and \<open>reg\<close> for every number of arguments,
    over a locale of the transport.
  \<^item> \<open>Connection_Refs\<close>: the table of \<open>connection\<close> objects with their counts. \<open>conn_send\<close> is the
    contract of \<open>send\<close> the endpoints use: nothing is sent on a dead connection, a live one takes the frame.
  \<^item> \<open>Connection_IO\<close>, \<open>Connection_Send\<close> (\<open>rpc/connection.cc\<close>): what \<open>conn_send\<close> stands for. The
    callbacks cut the byte stream into messages for every outcome of the system calls; \<open>send\<close> is
    a step relation over threads, and its properties are that frames do not mix, that a
    successful \<open>send\<close> has written its frame, and that no waiting thread is forgotten. A length word
    that arrives in pieces closes the connection; the results say so.
  \<^item> \<open>Accept_Loop\<close> (\<open>tcpsconn\<close>): accepting, and the collection of dead connections.
  \<^item> \<open>Poll_Aio\<close>, \<open>Poll_Manager\<close> (\<open>rpc/pollmgr.cc\<close>): the two watchers, which are instances of the
    locale \<open>aio_mgr\<close> and agree; the thread that calls back, and the protocol of \<open>block_remove_fd\<close>: what its
    return promises, and that the pipe alone brings the loop to it.
  \<^item> \<open>Job_Queue\<close>, \<open>Thread_Pool\<close> (\<open>rpc/fifo.h\<close>, \<open>rpc/thr_pool.cc\<close>): the queue as an instance of the
    locale \<open>bounded_queue\<close> and as a monitor of many threads; the pool and the end of its destructor.
  \<^item> \<open>Bound_Calls\<close> (\<open>rpc/method_thread.h\<close>, \<open>addObjJob\<close>): method calls that are put into a block and
    handed to a new thread or to the pool, and are made once each.
  \<^item> \<open>Rpc_Server\<close> (\<open>rpcs\<close>), \<open>Rpc_Client\<close> (the critical sections of \<open>rpcc\<close>, in any order, and
    what each call returns), \<open>Call_Loop\<close> (what \<open>call1\<close> does between them: connecting, sending,
    waiting, sending again; when it ends, and the one case in which it does not).
  \<^item> \<open>Dispatch_Steps\<close>, \<open>Dispatch_Threads\<close>, \<open>Dispatch_Runs\<close> (\<open>rpcs::dispatch\<close> in the worker threads):
    the function cut into the steps of a job, which without interruption are \<open>dispatch\<close>; any number
    of jobs between arriving messages and connections that come and go, with the invariant every
    action keeps. The results are that nothing freed is used in an orderly run, that no request runs
    twice, and that all jobs can be brought to their end.
  \<^item> \<open>Dispatch_Replies\<close>: what the copies of a request get from these threads, once the first is answered.
  \<^item> \<open>Server_Shutdown\<close> (\<open>rpcs::~rpcs\<close>): the destructor with jobs under way, for every order in which
    the workers finish them; when it returns, and what it leaves behind.
  \<^item> \<open>Rpc_Loopback\<close>, \<open>Lock_Client\<close>: both ends joined by a network that loses nothing, which
    interprets the transport, and the lock client on it.
  \<^item> \<open>Lock_Server\<close>, \<open>Lock_Threads\<close>: the handlers over the locale of a lock service, and
    the worker threads that run them; their runs refine an atomic table of holders.
  \<^item> \<open>Lock_Tester\<close>, \<open>Rpc_Test\<close> (\<open>lock_tester.cc\<close>, \<open>rpc/rpctest.cc\<close>): the test programs. No schedule
    of the threads of the lock tester fails on a lock service, and the calls of the other, which run
    one after the other on \<open>Rpc_Loopback\<close>, give what its assertions say; its call to a port nobody
    listens on goes through \<open>Call_Loop\<close>.

  \<^bold>\<open>State and atomicity.\<close> A class is a record with the fields of the code. A section that holds the
  mutex of its object is one function. Where threads meet, the functions are the steps of an
  inductive relation, cut where the code waits on a condition variable or gives the mutex up; a
  signal wakes at least one waiting thread, a broadcast all, and waits may return spuriously. The wait
  of \<open>block_remove_fd\<close> is not in a loop, so its promise is only for a wait that the broadcast ended.
  \<open>dispatch\<close> is one step in \<open>Rpc_Server\<close>
  and cut at every mutex, call of a handler and use of a connection in \<open>Dispatch_Steps\<close>; there a
  handler is one step. Where \<open>Dispatch_Runs\<close> shows safety and progress, the runs are those in which
  handlers return, a client acknowledges a request only when no job is at work on it any more, and
  a connection with a job of a client without nonce is not dead; the theorem about the late send at
  its end shows that the second is needed, and \<open>dead_connection_without_nonce\<close> in \<open>Rpc_Server\<close> the
  third. The handler \<open>acquire\<close> of the lock server waits in its thread; for it see \<open>Lock_Threads\<close>.

  \<^bold>\<open>Bounds.\<close> Words have the width of the code. Reference counts, the counter of held locks and the
  seconds of a time are unbounded; messages are shorter than \<open>2 ^ 30\<close> bytes where the buffers
  double, and at most \<open>MAX_PDU\<close> where a connection reads them. The ids of a client have not wrapped
  around. There is no fuel: loops are structural recursions, the carry loop of the deadlines has a
  measure, and the loop of a call runs over the list of what its surroundings do, with the bound on the
  length of that list as a theorem. A wait with a valid deadline is assumed to end by a reply or after
  its deadline; \<open>add_timespec\<close> can give a deadline that is not valid, with \<open>10 ^ 9\<close> nanoseconds, for which
  \<open>pthread_cond_timedwait\<close> returns \<open>EINVAL\<close> at once, and that wait does not end.

  \<^bold>\<open>Parameters.\<close> The results of \<open>read\<close>, \<open>write\<close>, \<open>select\<close>, \<open>epoll_wait\<close>, \<open>connect\<close> and \<open>accept\<close>,
  the time, random numbers, the contents of fresh memory, and the resolver are arguments, and
  the theorems hold for all of them that are possible.

  \<^bold>\<open>Not modelled.\<close> The start-up code of the programs and of \<open>tcpsconn\<close>, which opens sockets; the lossy test
  switch, which closes a socket at random; debug output; the statistics the server prints;
  \<open>slock.h\<close>, which the atomic sections of the models stand for; \<open>gettime.cc\<close>, which only Mac OS
  compiles; and of the test programs what starts and joins threads, reads the arguments of \<open>main\<close>, or
  measures memory.
\<close>

end
